(* ===== verification/Prelude.thy ===== *)
theory Prelude
  imports Main "HOL-Library.Word"
begin

text \<open>
  Shared vocabulary of the development: the fixed-width integers of the C and C++ sources
  (compiled for x86-64, little endian, LP64), memory images as byte lists, the little-endian
  encodings that \<^verbatim>\<open>memcpy\<close> of a scalar produces, and the list and word lemmas that several
  components use.
\<close>

unbundle bit_operations_syntax

section \<open>Machine types\<close>

type_synonym u8 = "8 word"
type_synonym u16 = "16 word"
type_synonym u32 = "32 word"
type_synonym u64 = "64 word"

text \<open>\<open>size_t\<close> is 64 bits wide on the target.\<close>

type_synonym size_t = "64 word"

text \<open>A memory image: the bytes of an object, lowest address first.\<close>

type_synonym bytes = "u8 list"

named_theorems byte_simps \<open>unfolding of scalar encodings into byte lists\<close>
named_theorems layout_simps \<open>lengths and slices of encoded structures\<close>

section \<open>Little-endian scalars\<close>

fun le_bytes :: "nat \<Rightarrow> 'a::len word \<Rightarrow> bytes" where
  "le_bytes 0 w = []"
| "le_bytes (Suc n) w = ucast w # le_bytes n (drop_bit 8 w)"

fun le_word :: "bytes \<Rightarrow> 'a::len word" where
  "le_word [] = 0"
| "le_word (b # bs) = ucast b OR push_bit 8 (le_word bs)"

lemma length_le_bytes [simp, layout_simps]: "length (le_bytes n w) = n"
  by (induction n arbitrary: w) auto

lemma le_word_le_bytes_take: "le_word (le_bytes n w) = take_bit (8 * n) (w :: 'a::len word)"
proof (induction n arbitrary: w)
  case 0
  show ?case by simp
next
  case (Suc n)
  have "bit (ucast (ucast w :: u8) OR push_bit 8 (take_bit (8 * n) (drop_bit 8 w))) i
        = bit (take_bit (8 * Suc n) w) i" if "i < LENGTH('a)" for i
    using that
    by (auto simp: bit_simps bit_or_iff bit_push_bit_iff bit_take_bit_iff bit_drop_bit_eq
        dest: bit_imp_le_length)
  then show ?case
    by (simp add: Suc.IH bit_word_eqI)
qed

lemma le_word_le_bytes [simp]:
  "LENGTH('a) \<le> 8 * n \<Longrightarrow> le_word (le_bytes n w) = (w :: 'a::len word)"
  by (simp add: le_word_le_bytes_take take_bit_word_eq_self)

lemma bit_le_word:
  "bit (le_word bs :: 'a::len word) i \<longleftrightarrow> i < LENGTH('a) \<and> i div 8 < length bs \<and> bit (bs ! (i div 8)) (i mod 8)"
proof (induction bs arbitrary: i)
  case Nil
  show ?case by simp
next
  case (Cons b bs)
  show ?case
  proof (cases "i < 8")
    case True
    then show ?thesis
      by (auto simp: bit_or_iff bit_push_bit_iff bit_ucast_iff)
  next
    case False
    then have "bit b i = False"
      using bit_imp_le_length [of b i] by auto
    moreover have "i div 8 = Suc ((i - 8) div 8)" "i mod 8 = (i - 8) mod 8"
      using False by (simp_all add: le_div_geq le_mod_geq)
    ultimately show ?thesis
      using False by (auto simp: bit_or_iff bit_push_bit_iff bit_ucast_iff Cons.IH)
  qed
qed

lemma le_bytes_le_word:
  "8 * length bs \<le> LENGTH('a) \<Longrightarrow> le_bytes (length bs) (le_word bs :: 'a::len word) = bs"
proof (induction bs)
  case Nil
  show ?case by simp
next
  case (Cons b bs)
  let ?w = "le_word bs :: 'a word"
  have "ucast (ucast b OR push_bit 8 ?w) = b"
    by (rule bit_word_eqI) (use Cons.prems in \<open>auto simp: bit_or_iff bit_push_bit_iff bit_ucast_iff\<close>)
  moreover have "drop_bit 8 (ucast b OR push_bit 8 ?w) = ?w"
  proof (rule bit_word_eqI)
    fix i
    assume "i < LENGTH('a)"
    have "\<not> bit b (8 + i)"
      using bit_imp_le_length [of b "8 + i"] by auto
    moreover have "\<not> bit ?w i" if "\<not> 8 + i < LENGTH('a)"
      using that Cons.prems by (auto simp: bit_le_word)
    ultimately show "bit (drop_bit 8 (ucast b OR push_bit 8 ?w)) i = bit ?w i"
      by (auto simp: bit_drop_bit_eq bit_or_iff bit_push_bit_iff bit_ucast_iff)
  qed
  ultimately show ?case
    using Cons by simp
qed

section \<open>Memory\<close>

text \<open>
  \<open>read_bytes buf off n\<close> is the \<open>n\<close> bytes at offset \<open>off\<close> of the object \<open>buf\<close>; a read that
  leaves the object has no value (\<open>None\<close>): the C program would run over the end of its buffer.
\<close>

definition read_bytes :: "bytes \<Rightarrow> nat \<Rightarrow> nat \<Rightarrow> bytes option" where
  "read_bytes buf off n = (if off + n \<le> length buf then Some (take n (drop off buf)) else None)"

text \<open>\<open>poke buf off bs\<close> is \<^verbatim>\<open>memcpy(buf + off, bs, length bs)\<close> inside the object.\<close>

definition poke :: "bytes \<Rightarrow> nat \<Rightarrow> bytes \<Rightarrow> bytes" where
  "poke buf off bs = take off buf @ bs @ drop (off + length bs) buf"

lemma length_poke [simp, layout_simps]: "off + length bs \<le> length buf \<Longrightarrow> length (poke buf off bs) = length buf"
  by (simp add: poke_def)

lemma take_drop_poke_same [simp]:
  "off + length bs \<le> length buf \<Longrightarrow> take (length bs) (drop off (poke buf off bs)) = bs"
  by (simp add: poke_def)

lemma poke_poke_same:
  "off + length bs \<le> length buf \<Longrightarrow> length cs = length bs \<Longrightarrow> poke (poke buf off bs) off cs = poke buf off cs"
  by (simp add: poke_def)

lemma poke_restore:
  "off + n \<le> length buf \<Longrightarrow> poke buf off (take n (drop off buf)) = buf"
  by (simp add: poke_def min_absorb2) (metis add.commute append_take_drop_id drop_drop)

lemma poke_mid: "off = length a \<Longrightarrow> length b = length bs \<Longrightarrow> poke (a @ b @ c) off bs = a @ bs @ c"
  by (simp add: poke_def)

lemma drop_poke_after: "off + length bs \<le> k \<Longrightarrow> off + length bs \<le> length buf \<Longrightarrow> drop k (poke buf off bs) = drop k buf"
  by (simp add: poke_def)

lemma read_bytes_append:
  "off = length pre \<Longrightarrow> n = length mid \<Longrightarrow> read_bytes (pre @ mid @ post) off n = Some mid"
  by (simp add: read_bytes_def)

lemma read_bytes_length: "read_bytes buf off n = Some bs \<Longrightarrow> length bs = n"
  by (auto simp: read_bytes_def split: if_splits)

section \<open>Words\<close>

lemma xor_eq_0_iff_word: "(a XOR b = (0 :: 'a::len word)) \<longleftrightarrow> a = b"
  by (metis xor.assoc xor.right_neutral xor_self_eq xor.left_neutral)

lemma unat_less_2p_size_t: "unat (w :: size_t) < 2 ^ 64"
  using unsigned_less [of w] by simp

lemma xor_eq_iff_word: "(a XOR b = (c :: 'a::len word)) \<longleftrightarrow> a = c XOR b"
  by (metis xor.assoc xor.right_neutral xor_self_eq)

text \<open>Element-wise exclusive or, for linearity arguments over blocks and bytes.\<close>

definition xor_blocks :: "'a::len word list \<Rightarrow> 'a word list \<Rightarrow> 'a word list" where
  "xor_blocks xs ys = map2 (\<lambda>x y. x XOR y) xs ys"

lemma length_xor_blocks [simp]: "length (xor_blocks xs ys) = min (length xs) (length ys)"
  by (simp add: xor_blocks_def)

lemma xor_blocks_Nil [simp]: "xor_blocks [] ys = []" "xor_blocks xs [] = []"
  by (simp_all add: xor_blocks_def)

lemma xor_blocks_Cons [simp]: "xor_blocks (x # xs) (y # ys) = (x XOR y) # xor_blocks xs ys"
  by (simp add: xor_blocks_def)

lemma nth_xor_blocks [simp]:
  "i < length xs \<Longrightarrow> i < length ys \<Longrightarrow> xor_blocks xs ys ! i = xs ! i XOR ys ! i"
  by (simp add: xor_blocks_def)

lemma xor_blocks_append:
  "length xs = length ys \<Longrightarrow> xor_blocks (xs @ xs') (ys @ ys') = xor_blocks xs ys @ xor_blocks xs' ys'"
  by (simp add: xor_blocks_def)

lemma xor_blocks_zeros: "length xs = n \<Longrightarrow> xor_blocks xs (replicate n 0) = xs"
  by (auto intro: nth_equalityI)

end
