(* ===== verification/Refinement.thy ===== *)
theory Refinement
  imports Prelude
begin

text \<open>
  The interfaces through which the stateful components are used. A component is a state type
  with one step function over a datatype of operations; a run performs a list of operations
  and collects their results. Operations of several threads on one component are serialised by
  the component's mutex, so every interleaving of them is such a list. \<open>step_invariant\<close> is the
  contract of an invariant; \<open>data_refinement\<close> extends it with an abstract machine the
  component implements.
\<close>

fun run_ops :: "('op \<Rightarrow> 's \<Rightarrow> 'r \<times> 's) \<Rightarrow> 'op list \<Rightarrow> 's \<Rightarrow> 'r list \<times> 's" where
  "run_ops step [] s = ([], s)"
| "run_ops step (x # xs) s =
     (let (r, s') = step x s; (rs, s'') = run_ops step xs s' in (r # rs, s''))"

lemma run_ops_Cons:
  "fst (run_ops step (x # xs) s) = fst (step x s) # fst (run_ops step xs (snd (step x s)))"
  "snd (run_ops step (x # xs) s) = snd (run_ops step xs (snd (step x s)))"
  by (simp_all add: case_prod_beta Let_def)

lemma length_run_ops [simp]: "length (fst (run_ops step xs s)) = length xs"
  by (induction xs arbitrary: s) (auto simp: case_prod_beta Let_def)

lemma run_ops_append:
  "snd (run_ops step (xs @ ys) s) = snd (run_ops step ys (snd (run_ops step xs s)))"
  by (induction xs arbitrary: s) (auto simp: case_prod_beta Let_def)

locale step_invariant =
  fixes step :: "'op \<Rightarrow> 's \<Rightarrow> 'r \<times> 's"
    and inv :: "'s \<Rightarrow> bool"
  assumes step_inv: "inv s \<Longrightarrow> inv (snd (step x s))"
begin

lemma run_inv: "inv s \<Longrightarrow> inv (snd (run_ops step xs s))"
proof (induction xs arbitrary: s)
  case Nil
  then show ?case by simp
next
  case (Cons x xs)
  from Cons.prems have "inv (snd (step x s))" by (rule step_inv)
  then show ?case unfolding run_ops_Cons by (rule Cons.IH)
qed

end

locale data_refinement = step_invariant step inv
  for step :: "'op \<Rightarrow> 's \<Rightarrow> 'r \<times> 's" and inv :: "'s \<Rightarrow> bool" +
  fixes astep :: "'op \<Rightarrow> 'a \<Rightarrow> 'r \<times> 'a"
    and abs :: "'s \<Rightarrow> 'a"
  assumes step_refines: "inv s \<Longrightarrow> astep x (abs s) = (fst (step x s), abs (snd (step x s)))"
begin

lemma run_refines:
  "inv s \<Longrightarrow> run_ops astep xs (abs s) = (fst (run_ops step xs s), abs (snd (run_ops step xs s)))"
proof (induction xs arbitrary: s)
  case Nil
  then show ?case by simp
next
  case (Cons x xs)
  have "run_ops astep xs (abs (snd (step x s)))
        = (fst (run_ops step xs (snd (step x s))), abs (snd (run_ops step xs (snd (step x s)))))"
    by (rule Cons.IH [OF step_inv [OF Cons.prems]])
  then show ?case
    by (simp add: step_refines [OF Cons.prems] case_prod_beta Let_def)
qed

end

text \<open>
  Systems whose steps can fail: a step consumes an event, which carries what the environment does, and gives
  an error or the next state. \<open>reaches\<close> is reachability by successful steps on events that satisfy a condition
  on the environment.
\<close>

inductive reaches :: "('e \<Rightarrow> 's \<Rightarrow> 'err + 's) \<Rightarrow> ('e \<Rightarrow> bool) \<Rightarrow> 's \<Rightarrow> 's \<Rightarrow> bool"
  for step :: "'e \<Rightarrow> 's \<Rightarrow> 'err + 's" and ok :: "'e \<Rightarrow> bool" where
  reaches_refl: "reaches step ok s s"
| reaches_step: "reaches step ok s s' \<Longrightarrow> ok e \<Longrightarrow> step e s' = Inr s'' \<Longrightarrow> reaches step ok s s''"

text \<open>A given schedule of events, up to the first error.\<close>

fun run_events :: "('e \<Rightarrow> 's \<Rightarrow> 'err + 's) \<Rightarrow> 'e list \<Rightarrow> 's \<Rightarrow> 'err + 's" where
  "run_events step [] s = Inr s"
| "run_events step (e # es) s = (case step e s of Inl err \<Rightarrow> Inl err | Inr s' \<Rightarrow> run_events step es s')"

lemma reaches_trans: "reaches step ok s' s'' \<Longrightarrow> reaches step ok s s' \<Longrightarrow> reaches step ok s s''"
  by (induction rule: reaches.induct) (auto intro: reaches_step)

lemma run_events_reaches: "run_events step es s = Inr s' \<Longrightarrow> \<forall>e \<in> set es. ok e \<Longrightarrow> reaches step ok s s'"
proof (induction es arbitrary: s)
  case (Cons e es)
  then obtain s1 where "step e s = Inr s1" "run_events step es s1 = Inr s'"
    by (auto split: sum.splits)
  with Cons show ?case
    using reaches_step [OF reaches_refl, where ok = ok] by (fastforce intro: reaches_trans)
qed (simp add: reaches_refl)

locale guarded_system =
  fixes step :: "'e \<Rightarrow> 's \<Rightarrow> 'err + 's"
    and ok :: "'e \<Rightarrow> bool"
    and inv :: "'s \<Rightarrow> bool"
  assumes event_inv: "inv s \<Longrightarrow> ok e \<Longrightarrow> step e s = Inr s' \<Longrightarrow> inv s'"
begin

lemma reaches_inv: "reaches step ok s s' \<Longrightarrow> inv s \<Longrightarrow> inv s'"
  by (induction rule: reaches.induct) (auto intro: event_inv)

end

end
