(* ===== verification/Queue.thy ===== *)
theory Queue
  imports Refinement
begin

text \<open>
  The tracker's bounded queue of received messages, \<^verbatim>\<open>application/p2p/queue.h\<close> and
  \<^verbatim>\<open>application/p2p/queue.c\<close>: a ring buffer of pointers guarded by a mutex. The index arithmetic
  is the code's, on 64-bit \<open>size_t\<close> words. \<open>queue_list\<close> reads the ring as the list of its entries,
  oldest first; the queue refines the bounded first-in first-out list.
\<close>

section \<open>State and operations\<close>

text \<open>
  \<^verbatim>\<open>data\<close> is the array \<^verbatim>\<open>malloc\<close> returned: an entry that was never written is \<open>None\<close>
  (its contents are indeterminate). The mutex is represented by the return codes of the two
  \<^verbatim>\<open>pthread\<close> calls, arguments of the operations.
\<close>

record 'a queue_lock =
  q_top :: size_t
  q_size :: size_t
  q_max_size :: size_t
  q_data :: "'a option list"

definition queue_init :: "size_t \<Rightarrow> 'a queue_lock" where
  "queue_init max_size =
     \<lparr>q_top = 0, q_size = 0, q_max_size = max_size, q_data = replicate (unat max_size) None\<rparr>"

definition queue_is_full :: "'a queue_lock \<Rightarrow> bool" where
  "queue_is_full ql \<longleftrightarrow> q_size ql = q_max_size ql"

definition queue_is_empty :: "'a queue_lock \<Rightarrow> bool" where
  "queue_is_empty ql \<longleftrightarrow> q_size ql = 0"

text \<open>The slot the code computes as \<^verbatim>\<open>(top - i + max_size) % max_size\<close>.\<close>

definition queue_slot :: "'a queue_lock \<Rightarrow> size_t \<Rightarrow> nat" where
  "queue_slot ql i = unat ((q_top ql - i + q_max_size ql) mod q_max_size ql)"

text \<open>
  A call locks the mutex, works and unlocks it. \<open>None\<close> is the exit of the process when
  locking or unlocking fails.
\<close>

definition queue_enqueue :: "int \<Rightarrow> int \<Rightarrow> 'a \<Rightarrow> 'a queue_lock \<Rightarrow> (int \<times> 'a queue_lock) option" where
  "queue_enqueue lock_rc unlock_rc new_entry ql =
     (if lock_rc = 0 then
        (let (ret, ql') =
           (if \<not> queue_is_full ql then
              (1, ql\<lparr>q_data := (q_data ql)[unat (q_top ql) := Some new_entry],
                    q_top := (q_top ql + 1) mod q_max_size ql,
                    q_size := q_size ql + 1\<rparr>)
            else (0, ql))
         in if unlock_rc \<noteq> 0 then None else Some (ret, ql'))
      else None)"

definition queue_dequeue :: "int \<Rightarrow> int \<Rightarrow> 'a queue_lock \<Rightarrow> ('a option \<times> 'a queue_lock) option" where
  "queue_dequeue lock_rc unlock_rc ql =
     (if lock_rc = 0 then
        (let (ret, ql') =
           (if \<not> queue_is_empty ql then
              (q_data ql ! queue_slot ql (q_size ql), ql\<lparr>q_size := q_size ql - 1\<rparr>)
            else (None, ql))
         in if unlock_rc \<noteq> 0 then None else Some (ret, ql'))
      else None)"

section \<open>The ring as a list\<close>

definition queue_nth :: "'a queue_lock \<Rightarrow> nat \<Rightarrow> 'a option" where
  "queue_nth ql k =
     q_data ql ! ((unat (q_top ql) + unat (q_max_size ql) - unat (q_size ql) + k) mod unat (q_max_size ql))"

definition queue_list :: "'a queue_lock \<Rightarrow> 'a list" where
  "queue_list ql = map (\<lambda>k. the (queue_nth ql k)) [0..<unat (q_size ql)]"

text \<open>
  Well-formed queues: the array has the declared length and was not cut short by an overflow of
  the allocation \<^verbatim>\<open>sizeof(void*) * max_size\<close>, the counters are in range, and every entry between
  the oldest and the newest has been written.
\<close>

definition queue_inv :: "'a queue_lock \<Rightarrow> bool" where
  "queue_inv ql \<longleftrightarrow>
     length (q_data ql) = unat (q_max_size ql) \<and> 8 * unat (q_max_size ql) < 2 ^ 64 \<and>
     unat (q_size ql) \<le> unat (q_max_size ql) \<and>
     (unat (q_top ql) < unat (q_max_size ql) \<or> q_max_size ql = 0 \<and> q_top ql = 0) \<and>
     (\<forall>k < unat (q_size ql). queue_nth ql k \<noteq> None)"

lemma length_queue_list [simp]: "length (queue_list ql) = unat (q_size ql)"
  by (simp add: queue_list_def)

lemma queue_init_inv: "8 * unat max_size < 2 ^ 64 \<Longrightarrow> queue_inv (queue_init max_size)"
  by (auto simp: queue_inv_def queue_init_def unat_gt_0)

lemma queue_list_init [simp]: "queue_list (queue_init max_size) = []"
  by (simp add: queue_list_def queue_init_def)

text \<open>The wrapping subtraction of the code yields the slot of exact arithmetic.\<close>

lemma ring_index:
  fixes top i max_size :: size_t
  assumes "unat top < unat max_size" "8 * unat max_size < 2 ^ 64" "unat i \<le> unat max_size"
  shows "unat ((top - i + max_size) mod max_size) = (unat top + unat max_size - unat i) mod unat max_size"
proof -
  have sum: "unat (top + max_size) = unat top + unat max_size"
    by (rule unat_add_lem [THEN iffD1]) (use assms in simp)
  then have "i \<le> top + max_size"
    using assms(3) by (simp add: word_le_nat_alt)
  then have "unat (top + max_size - i) = unat top + unat max_size - unat i"
    using sum by (simp add: unat_sub)
  moreover have "top - i + max_size = top + max_size - i"
    by simp
  ultimately have "unat (top - i + max_size) = unat top + unat max_size - unat i"
    by metis
  then show ?thesis
    by (simp only: unat_mod_distrib)
qed

lemma queue_slot_eq:
  assumes "queue_inv ql" "unat i \<le> unat (q_size ql)" "0 < unat i"
  shows "queue_slot ql i =
    (unat (q_top ql) + unat (q_max_size ql) - unat i) mod unat (q_max_size ql)"
  unfolding queue_slot_def using assms by (intro ring_index) (auto simp: queue_inv_def)

text \<open>
  Counting back from the newest entry, as the tracker's duplicate scan does: slot \<open>i\<close> holds
  the \<open>i\<close>-th entry from the end of the list.
\<close>

lemma queue_slot_recent:
  assumes inv: "queue_inv ql" and i: "0 < unat i" "unat i \<le> unat (q_size ql)"
  shows "q_data ql ! queue_slot ql i = Some (queue_list ql ! (unat (q_size ql) - unat i))"
proof -
  let ?k = "unat (q_size ql) - unat i"
  have "?k < unat (q_size ql)" using i by simp
  moreover have "queue_nth ql ?k = q_data ql ! queue_slot ql i"
    using i inv by (simp add: queue_slot_eq [OF inv i(2,1)] queue_nth_def queue_inv_def)
  moreover have "queue_nth ql ?k \<noteq> None"
    using inv calculation(1) unfolding queue_inv_def by blast
  ultimately show ?thesis
    by (simp add: queue_list_def)
qed

section \<open>Refinement of the bounded first-in first-out list\<close>

text \<open>The serialised operations of the threads that share the queue, and their results.\<close>

datatype 'a queue_op = Enqueue 'a | Dequeue

datatype 'a queue_result = Enqueued int | Dequeued "'a option" | Exited

fun queue_step :: "'a queue_op \<Rightarrow> 'a queue_lock \<Rightarrow> 'a queue_result \<times> 'a queue_lock" where
  "queue_step (Enqueue x) ql =
     (case queue_enqueue 0 0 x ql of Some (r, ql') \<Rightarrow> (Enqueued r, ql') | None \<Rightarrow> (Exited, ql))"
| "queue_step Dequeue ql =
     (case queue_dequeue 0 0 ql of Some (r, ql') \<Rightarrow> (Dequeued r, ql') | None \<Rightarrow> (Exited, ql))"

text \<open>The specification: a list and its capacity, enqueueing at the end, dequeueing at the front.\<close>

fun fifo_step :: "'a queue_op \<Rightarrow> nat \<times> 'a list \<Rightarrow> 'a queue_result \<times> nat \<times> 'a list" where
  "fifo_step (Enqueue x) (cap, xs) =
     (if length xs < cap then (Enqueued 1, cap, xs @ [x]) else (Enqueued 0, cap, xs))"
| "fifo_step Dequeue (cap, xs) =
     (case xs of [] \<Rightarrow> (Dequeued None, cap, []) | y # ys \<Rightarrow> (Dequeued (Some y), cap, ys))"

definition queue_abs :: "'a queue_lock \<Rightarrow> nat \<times> 'a list" where
  "queue_abs ql = (unat (q_max_size ql), queue_list ql)"

lemma queue_is_full_iff: "queue_inv ql \<Longrightarrow> queue_is_full ql \<longleftrightarrow> length (queue_list ql) = unat (q_max_size ql)"
  by (simp add: queue_is_full_def word_unat_eq_iff)

lemma queue_is_empty_iff: "queue_is_empty ql \<longleftrightarrow> queue_list ql = []"
  unfolding queue_is_empty_def by (metis length_0_conv length_queue_list unat_eq_zero)

text \<open>Writing at \<^verbatim>\<open>top\<close> leaves the older entries alone and appends the new one.\<close>

lemma ring_write_nth:
  fixes t m s k :: nat
  assumes "t < m" "s < m" "k \<le> s" "length d = m"
  shows "d[t := v] ! ((Suc t mod m + m - Suc s + k) mod m)
         = (if k = s then v else d ! ((t + m - s + k) mod m))"
proof -
  have "(Suc t mod m + m - Suc s + k) mod m = (t + m - s + k) mod m"
  proof (cases "Suc t = m")
    case True
    then have "t + m - s + k = m + (m - Suc s + k)" and "Suc t mod m + m - Suc s + k = m - Suc s + k"
      using assms by auto
    then show ?thesis by (metis mod_add_self1)
  next
    case False
    then show ?thesis using assms by simp
  qed
  moreover have "(t + m - s + k) mod m = t \<longleftrightarrow> k = s"
    using assms by (auto simp: mod_if split: if_splits)
  ultimately show ?thesis
    using assms by auto
qed

lemma queue_nth_enqueue:
  assumes inv: "queue_inv ql" and room: "\<not> queue_is_full ql" and k: "k \<le> unat (q_size ql)"
    and ql': "ql' = ql\<lparr>q_data := (q_data ql)[unat (q_top ql) := Some x],
                   q_top := (q_top ql + 1) mod q_max_size ql, q_size := q_size ql + 1\<rparr>"
  shows "queue_nth ql' k = (if k = unat (q_size ql) then Some x else queue_nth ql k)"
    and "unat (q_size ql') = Suc (unat (q_size ql))"
    and "unat (q_top ql') < unat (q_max_size ql)"
proof -
  let ?m = "unat (q_max_size ql)"
  have s: "unat (q_size ql) < ?m"
    using inv room by (auto simp: queue_inv_def queue_is_full_def word_unat_eq_iff)
  have t: "unat (q_top ql) < ?m"
    using inv s by (auto simp: queue_inv_def)
  have suc: "unat (w + 1) = Suc (unat w)" if "unat w < ?m" for w :: size_t
    using unat_add_lem [of w 1] that inv by (simp add: queue_inv_def)
  show size: "unat (q_size ql') = Suc (unat (q_size ql))"
    by (simp add: ql' suc [OF s])
  have top: "unat (q_top ql') = Suc (unat (q_top ql)) mod ?m"
    by (simp add: ql' unat_mod_distrib suc [OF t])
  then show "unat (q_top ql') < ?m"
    using t by simp
  have "length (q_data ql) = ?m"
    using inv by (simp add: queue_inv_def)
  then show "queue_nth ql' k = (if k = unat (q_size ql) then Some x else queue_nth ql k)"
    unfolding queue_nth_def size top
    using ring_write_nth [OF t s k, of "q_data ql" "Some x"] by (simp add: ql')
qed

lemma enqueue_refines:
  assumes inv: "queue_inv ql"
  shows "queue_inv (snd (queue_step (Enqueue x) ql))"
    and "fifo_step (Enqueue x) (queue_abs ql)
      = (fst (queue_step (Enqueue x) ql), queue_abs (snd (queue_step (Enqueue x) ql)))"
proof -
  let ?ql' = "ql\<lparr>q_data := (q_data ql)[unat (q_top ql) := Some x],
                 q_top := (q_top ql + 1) mod q_max_size ql, q_size := q_size ql + 1\<rparr>"
  have cap: "unat (q_size ql) \<le> unat (q_max_size ql)"
    using inv by (simp add: queue_inv_def)
  have "queue_inv (snd (queue_step (Enqueue x) ql)) \<and>
    fifo_step (Enqueue x) (queue_abs ql)
      = (fst (queue_step (Enqueue x) ql), queue_abs (snd (queue_step (Enqueue x) ql)))"
  proof (cases "queue_is_full ql")
    case True
    then have "queue_step (Enqueue x) ql = (Enqueued 0, ql)"
      by (simp add: queue_enqueue_def)
    then show ?thesis
      using inv True queue_is_full_iff [OF inv] by (simp add: queue_abs_def)
  next
    case False
    have step: "queue_step (Enqueue x) ql = (Enqueued 1, ?ql')"
      using False by (simp add: queue_enqueue_def)
    have room: "unat (q_size ql) < unat (q_max_size ql)"
      using False cap queue_is_full_iff [OF inv] by simp
    note enq = queue_nth_enqueue [OF inv False _ refl, of _ x]
    have "queue_list ?ql' = queue_list ql @ [x]"
      unfolding queue_list_def enq(2) [OF order_refl]
      by (simp del: queue_lock.simps add: enq(1))
    moreover have "queue_inv ?ql'"
      using inv room enq(2,3) [OF order_refl] enq(1)
      by (simp add: queue_inv_def less_Suc_eq_le del: upt.simps)
    ultimately show ?thesis
      using step room by (simp add: queue_abs_def)
  qed
  then show "queue_inv (snd (queue_step (Enqueue x) ql))"
    and "fifo_step (Enqueue x) (queue_abs ql)
      = (fst (queue_step (Enqueue x) ql), queue_abs (snd (queue_step (Enqueue x) ql)))"
    by blast+
qed

lemma queue_nth_dequeue:
  assumes inv: "queue_inv ql" and some: "\<not> queue_is_empty ql" and ql': "ql' = ql\<lparr>q_size := q_size ql - 1\<rparr>"
  shows "queue_nth ql' k = queue_nth ql (Suc k)"
    and "Suc (unat (q_size ql')) = unat (q_size ql)"
    and "q_data ql ! queue_slot ql (q_size ql) = queue_nth ql 0"
proof -
  have "q_size ql \<noteq> 0" and pos: "0 < unat (q_size ql)"
    using some by (simp_all add: queue_is_empty_def unat_gt_0)
  then show size: "Suc (unat (q_size ql')) = unat (q_size ql)"
    by (simp add: ql' unat_minus_one)
  have "unat (q_size ql) \<le> unat (q_max_size ql)"
    using inv by (simp add: queue_inv_def)
  then have "unat (q_top ql) + unat (q_max_size ql) - unat (q_size ql') + k
             = unat (q_top ql) + unat (q_max_size ql) - unat (q_size ql) + Suc k"
    using size by linarith
  then show "queue_nth ql' k = queue_nth ql (Suc k)"
    by (simp add: queue_nth_def ql')
  show "q_data ql ! queue_slot ql (q_size ql) = queue_nth ql 0"
    by (simp add: queue_slot_eq [OF inv order_refl pos] queue_nth_def)
qed

lemma dequeue_refines:
  assumes inv: "queue_inv ql"
  shows "queue_inv (snd (queue_step Dequeue ql))"
    and "fifo_step Dequeue (queue_abs ql)
      = (fst (queue_step Dequeue ql), queue_abs (snd (queue_step Dequeue ql)))"
proof -
  let ?ql' = "ql\<lparr>q_size := q_size ql - 1\<rparr>"
  have "queue_inv (snd (queue_step Dequeue ql)) \<and>
    fifo_step Dequeue (queue_abs ql)
      = (fst (queue_step Dequeue ql), queue_abs (snd (queue_step Dequeue ql)))"
  proof (cases "queue_is_empty ql")
    case True
    then have "queue_step Dequeue ql = (Dequeued None, ql)"
      by (simp add: queue_dequeue_def)
    then show ?thesis
      using inv True queue_is_empty_iff [of ql] by (simp add: queue_abs_def)
  next
    case False
    note deq = queue_nth_dequeue [OF inv False refl]
    have step: "queue_step Dequeue ql = (Dequeued (queue_nth ql 0), ?ql')"
      using False deq(3) by (simp add: queue_dequeue_def)
    have "queue_nth ql 0 \<noteq> None"
      using inv deq(2) by (auto simp: queue_inv_def)
    then have "queue_list ql = the (queue_nth ql 0) # queue_list ?ql'"
      unfolding queue_list_def deq(2) [symmetric] deq(1)
      by (simp add: upt_conv_Cons map_Suc_upt [symmetric] del: upt.simps map_Suc_upt) 
    moreover have "queue_inv ?ql'"
      using inv deq(1,2) by (auto simp: queue_inv_def)
    ultimately show ?thesis
      using step \<open>queue_nth ql 0 \<noteq> None\<close> by (auto simp: queue_abs_def)
  qed
  then show "queue_inv (snd (queue_step Dequeue ql))"
    and "fifo_step Dequeue (queue_abs ql)
      = (fst (queue_step Dequeue ql), queue_abs (snd (queue_step Dequeue ql)))"
    by blast+
qed

interpretation lq: data_refinement queue_step queue_inv fifo_step queue_abs
proof unfold_locales
  fix x :: "'a queue_op" and s :: "'a queue_lock"
  assume inv: "queue_inv s"
  show "queue_inv (snd (queue_step x s))"
    using inv by (cases x) (simp_all only: enqueue_refines dequeue_refines)
  show "fifo_step x (queue_abs s) = (fst (queue_step x s), queue_abs (snd (queue_step x s)))"
    using inv by (cases x) (simp_all only: enqueue_refines dequeue_refines)
qed

text \<open>The same facts for a single call, as the tracker makes them.\<close>

lemma queue_enqueue_room:
  assumes "queue_inv ql" "\<not> queue_is_full ql"
  shows "\<exists>ql'. queue_enqueue 0 0 x ql = Some (1, ql') \<and> queue_inv ql' \<and> queue_list ql' = queue_list ql @ [x]"
proof -
  obtain ql' where ql': "queue_enqueue 0 0 x ql = Some (1, ql')"
    using assms(2) by (simp add: queue_enqueue_def)
  have "length (queue_list ql) < unat (q_max_size ql)"
    using assms queue_is_full_iff [OF assms(1)] by (auto simp: queue_inv_def)
  with ql' show ?thesis
    using lq.step_refines [OF assms(1), of "Enqueue x"] lq.step_inv [OF assms(1), of "Enqueue x"]
    by (simp add: queue_abs_def)
qed

lemma queue_dequeue_cases:
  assumes "queue_inv ql"
  shows "\<exists>ql'. queue_inv ql' \<and> (case queue_list ql of
      [] \<Rightarrow> queue_dequeue 0 0 ql = Some (None, ql') \<and> ql' = ql
    | y # ys \<Rightarrow> queue_dequeue 0 0 ql = Some (Some y, ql') \<and> queue_list ql' = ys)"
proof -
  obtain r ql' where ql': "queue_dequeue 0 0 ql = Some (r, ql')"
    by (cases "queue_is_empty ql") (auto simp: queue_dequeue_def)
  moreover have "ql' = ql" if "queue_list ql = []"
    using that ql' by (simp add: queue_dequeue_def queue_is_empty_iff)
  ultimately show ?thesis
    using lq.step_refines [OF assms, of Dequeue] lq.step_inv [OF assms, of Dequeue]
    by (auto simp: queue_abs_def split: list.splits)
qed

lemma fifo_dequeues:
  "snd (run_ops fifo_step (replicate k Dequeue) (cap, xs)) = (cap, drop k xs)"
  by (induction k arbitrary: xs) (auto simp: case_prod_beta Let_def split: list.split)

lemma fifo_enqueues:
  "\<exists>ys. snd (run_ops fifo_step (map Enqueue xs) (cap, zs)) = (cap, zs @ ys)"
  by (induction xs arbitrary: zs) (auto simp: case_prod_beta Let_def, metis append.assoc)

section \<open>Properties\<close>

text \<open>C12: Whatever sequence of enqueues and dequeues the threads perform on a freshly
  initialised queue of capacity \<open>n\<close>, every call returns what a first-in first-out list bounded by
  \<open>n\<close> returns: an enqueue reports 1 exactly when there is room, a dequeue yields the oldest
  entry or NULL on the empty queue. The wrapping 64-bit index arithmetic is never visible.\<close>

theorem queue_refines_fifo:
  fixes ops :: "'a queue_op list"
  assumes "8 * unat n < 2 ^ 64"
  shows "fst (run_ops queue_step ops (queue_init n)) = fst (run_ops fifo_step ops (unat n, []))"
proof -
  have "queue_abs (queue_init n :: 'a queue_lock) = (unat n, [])"
    by (simp add: queue_abs_def) (simp add: queue_init_def)
  then show ?thesis
    using lq.run_refines [OF queue_init_inv [OF assms], of ops] by simp
qed

theorem queue_refines_fifo_witness:
  "fst (run_ops queue_step [Enqueue (10 :: nat), Dequeue, Enqueue 11, Enqueue 12, Enqueue 13, Dequeue, Dequeue, Dequeue]
     (queue_init 2))
   = [Enqueued 1, Dequeued (Some 10), Enqueued 1, Enqueued 1, Enqueued 0, Dequeued (Some 11),
      Dequeued (Some 12), Dequeued None]"
  by (subst queue_refines_fifo) simp_all

text \<open>The tracker tests the queue outside its mutex before it enqueues or dequeues, with
  one producer and one consumer. The tests stay good: after a "not full" the enqueue succeeds however
  many entries the consumer takes out in between, and after a "not empty" the dequeue returns
  the entry that was oldest at the test, however many entries the producer adds.\<close>

lemma queue_check_then_act:
  assumes inv: "queue_inv ql"
  shows "(\<not> queue_is_full ql \<longrightarrow>
      fst (queue_step (Enqueue x) (snd (run_ops queue_step (replicate k Dequeue) ql))) = Enqueued 1) \<and>
    (\<not> queue_is_empty ql \<longrightarrow>
      fst (queue_step Dequeue (snd (run_ops queue_step (map Enqueue xs) ql)))
        = Dequeued (Some (hd (queue_list ql))))"
proof (intro conjI impI)
  have impl: "fst (queue_step y (snd (run_ops queue_step ops ql)))
      = fst (fifo_step y (snd (run_ops fifo_step ops (queue_abs ql))))" for y ops
    using lq.step_refines [OF lq.run_inv [OF inv], of y ops] lq.run_refines [OF inv, of ops] by simp
  have cap: "length (queue_list ql) \<le> unat (q_max_size ql)"
    using inv by (simp add: queue_inv_def)
  show "fst (queue_step (Enqueue x) (snd (run_ops queue_step (replicate k Dequeue) ql))) = Enqueued 1"
    if "\<not> queue_is_full ql"
    using that cap unfolding impl queue_is_full_iff [OF inv]
    by (simp add: queue_abs_def fifo_dequeues)
  show "fst (queue_step Dequeue (snd (run_ops queue_step (map Enqueue xs) ql)))
        = Dequeued (Some (hd (queue_list ql)))" if "\<not> queue_is_empty ql"
  proof -
    obtain ys where "snd (run_ops fifo_step (map Enqueue xs) (queue_abs ql))
        = (unat (q_max_size ql), queue_list ql @ ys)"
      using fifo_enqueues [of xs "unat (q_max_size ql)" "queue_list ql"] by (auto simp: queue_abs_def)
    then show ?thesis
      using that unfolding impl queue_is_empty_iff by (auto simp: neq_Nil_conv)
  qed
qed

end
