(* ===== verification/Crc.thy ===== *)
theory Crc
  imports Prelude
begin

text \<open>
  The message checksum, \<^verbatim>\<open>application/p2p/crc.h\<close> and \<^verbatim>\<open>application/p2p/crc.c\<close> with the polynomial
  of \<^verbatim>\<open>application/config.h\<close>. \<open>calc_crc\<close> is the code's in-place long division of 16-bit blocks by
  a sliding double-width polynomial. \<open>lfsr\<close> is the reference: one step of a 16-bit division
  register. The division in place is shown to compute the register (\<open>calc_crc_eq_lfsr\<close>), and
  from the algebra of the register follow what the checksum detects and what it accepts.
\<close>

section \<open>The code\<close>

text \<open>\<^verbatim>\<open>POLY\<close> of the configuration, \<^verbatim>\<open>0b1011101011010101\<close>, of type \<^verbatim>\<open>POLY_TYPE = uint16_t\<close>.\<close>

definition POLY :: u16 where
  "POLY = 0b1011101011010101"

record dpoly =
  dp_h :: u16
  dp_l :: u16

text \<open>
  The index of the highest set bit, plus one, over the double word. The result variable is
  uninitialised when no bit is set: no value.
\<close>

definition calc_poly_len :: "dpoly \<Rightarrow> nat option" where
  "calc_poly_len dp =
     (let (val, offset) = (if dp_h dp = 0 then (dp_l dp, 0) else (dp_h dp, 16));
          loop = fold (\<lambda>i (poly_len, val).
                   (if val AND 1 \<noteq> 0 then Some (offset + i + 1) else poly_len, drop_bit 1 val))
                 [0..<16] (None, val)
      in fst loop)"

text \<open>\<^verbatim>\<open>sl\<close> and \<^verbatim>\<open>sr\<close> shift the double word by \<open>n\<close>, one bit per iteration with the carry between the halves.\<close>

definition sl_once :: "dpoly \<Rightarrow> dpoly" where
  "sl_once dp =
     (let carry = drop_bit 15 (dp_l dp) AND 1
      in \<lparr>dp_h = push_bit 1 (dp_h dp) OR carry, dp_l = push_bit 1 (dp_l dp)\<rparr>)"

definition sl :: "dpoly \<Rightarrow> nat \<Rightarrow> dpoly" where
  "sl dp n = (sl_once ^^ n) dp"

definition sr_once :: "dpoly \<Rightarrow> dpoly" where
  "sr_once dp =
     (let carry = push_bit 15 (dp_h dp AND 1)
      in \<lparr>dp_h = drop_bit 1 (dp_h dp), dp_l = drop_bit 1 (dp_l dp) OR carry\<rparr>)"

definition sr :: "dpoly \<Rightarrow> nat \<Rightarrow> dpoly" where
  "sr dp n = (sr_once ^^ n) dp"

text \<open>The body of the inner loop of \<^verbatim>\<open>calc_crc\<close>, for block \<open>q\<close> and bit \<open>i\<close>.\<close>

definition crc_bit :: "nat \<Rightarrow> nat \<Rightarrow> dpoly \<times> u16 list \<Rightarrow> dpoly \<times> u16 list" where
  "crc_bit q i = (\<lambda>(dp, d).
     (let d' = (if d ! q AND push_bit (i - 1) 1 \<noteq> 0
                then (let d1 = d[q + 1 := d ! (q + 1) XOR dp_l dp] in d1[q := d1 ! q XOR dp_h dp])
                else d)
      in (sr dp 1, d')))"

text \<open>The body of the outer loop: bits 16 down to 1, then the polynomial is restored.\<close>

definition crc_block :: "nat \<Rightarrow> dpoly \<times> u16 list \<Rightarrow> dpoly \<times> u16 list" where
  "crc_block q st = (let (dp, d) = fold (crc_bit q) (rev [1..<17]) st in (sl dp 16, d))"

text \<open>
  \<^verbatim>\<open>calc_crc\<close> over a buffer of \<open>n_blocks\<close> blocks; no value where the code reads an
  uninitialised length.
\<close>

definition calc_crc :: "dpoly \<Rightarrow> u16 list \<Rightarrow> nat \<Rightarrow> u16 option" where
  "calc_crc dp data n_blocks =
     (case calc_poly_len dp of
        None \<Rightarrow> None
      | Some poly_len \<Rightarrow>
          (let (_, d) = fold crc_block [0..<n_blocks - 1] (sl dp (32 - poly_len), data)
           in Some (d ! (n_blocks - 1))))"

text \<open>A byte buffer seen through a \<^verbatim>\<open>POLY_TYPE\<close> pointer: little-endian 16-bit blocks.\<close>

fun blocks_of :: "bytes \<Rightarrow> u16 list" where
  "blocks_of (a # b # bs) = (ucast a OR push_bit 8 (ucast b)) # blocks_of bs"
| "blocks_of [a] = [ucast a]"
| "blocks_of [] = []"

text \<open>
  The zeroed buffer of \<^verbatim>\<open>n_blocks\<close> blocks with the data copied to its front. The polynomial
  is not zero, so the length is always initialised.
\<close>

definition crc_n_blocks :: "nat \<Rightarrow> nat" where
  "crc_n_blocks data_len = (data_len + 2 - 1) div 2 + 1"

definition get_crc :: "bytes \<Rightarrow> u16 option" where
  "get_crc data =
     (let n_blocks = crc_n_blocks (length data);
          temp = poke (replicate (2 * n_blocks) 0) 0 data
      in calc_crc \<lparr>dp_h = POLY, dp_l = 0\<rparr> (blocks_of temp) n_blocks)"

definition check_crc :: "bytes \<Rightarrow> u16 \<Rightarrow> bool option" where
  "check_crc data crc = map_option (\<lambda>res. res = 0) (get_crc (data @ le_bytes 2 crc))"

section \<open>The division register\<close>

text \<open>Shifts by one stay shifts, so that the bitwise characterisations apply.\<close>

declare push_bit_Suc [simp del] drop_bit_Suc [simp del]

definition lfsr :: "u16 \<Rightarrow> u16" where
  "lfsr r = push_bit 1 (if bit r 15 then r XOR POLY else r)"

lemmas lfsr_eval = lfsr_def [of "numeral w" for w] lfsr_def [of 1] POLY_def

text \<open>Sixteen steps divide out one block.\<close>

definition lfsr16 :: "u16 \<Rightarrow> u16" where
  "lfsr16 r = (lfsr ^^ 16) r"

fun crc_run :: "u16 list \<Rightarrow> u16 \<Rightarrow> u16" where
  "crc_run [] r = r"
| "crc_run (b # bs) r = crc_run bs (lfsr16 r XOR b)"

definition crc_reg :: "u16 list \<Rightarrow> u16" where
  "crc_reg bs = crc_run bs 0"

lemma crc_run_append: "crc_run (as @ bs) r = crc_run bs (crc_run as r)"
  by (induction as r rule: crc_run.induct) auto

lemma bit_POLY: "bit POLY 0" "bit POLY 15"
  by (simp_all add: POLY_def)

lemma lfsr_xor: "lfsr (a XOR b) = lfsr a XOR lfsr b"
  by (auto simp: lfsr_def bit_xor_iff push_bit_xor ac_simps)

lemma lfsr_0 [simp]: "lfsr 0 = 0"
  by (simp add: lfsr_def)

lemma lfsr_even: "\<not> bit (lfsr a) 0"
  by (simp add: lfsr_def bit_push_bit_iff)

lemma funpow_lfsr_0 [simp]: "(lfsr ^^ n) 0 = 0"
  by (induction n) auto

lemma funpow_lfsr_xor: "(lfsr ^^ n) (a XOR b) = (lfsr ^^ n) a XOR (lfsr ^^ n) b"
  by (induction n) (auto simp: lfsr_xor)

text \<open>The register loses only the polynomial itself, which no step produces.\<close>

lemma lfsr_eq_0_iff: "lfsr a = 0 \<longleftrightarrow> a = 0 \<or> a = POLY"
proof
  assume "lfsr a = 0"
  define u where "u = (if bit a 15 then a XOR POLY else a)"
  have "\<not> bit u 15"
    by (simp add: u_def bit_xor_iff bit_POLY)
  have "push_bit 1 u = 0"
    using \<open>lfsr a = 0\<close> by (simp add: lfsr_def u_def)
  have "bit u i = bit (0 :: u16) i" if "i < 16" for i
  proof (cases "i = 15")
    case False
    with that \<open>push_bit 1 u = 0\<close> show ?thesis
      using bit_push_bit_iff [of 1 u "Suc i"] by simp
  qed (use \<open>\<not> bit u 15\<close> in simp)
  then have "u = 0"
    by (intro bit_word_eqI) simp
  then show "a = 0 \<or> a = POLY"
    by (auto simp: u_def xor_eq_0_iff_word split: if_splits)
qed (auto simp: lfsr_def bit_POLY)

lemma funpow_lfsr_neq_0:
  assumes "a \<noteq> 0" "a \<noteq> POLY"
  shows "(lfsr ^^ n) a \<noteq> 0 \<and> (lfsr ^^ n) a \<noteq> POLY"
proof (induction n)
  case 0
  show ?case using assms by simp
next
  case (Suc n)
  then have "lfsr ((lfsr ^^ n) a) \<noteq> 0"
    by (simp add: lfsr_eq_0_iff)
  moreover have "lfsr ((lfsr ^^ n) a) \<noteq> POLY"
    using lfsr_even bit_POLY(1) by metis
  ultimately show ?case by simp
qed

section \<open>Division in place computes the register\<close>

text \<open>
  After \<open>k\<close> of the sixteen iterations on a block, the polynomial is shifted right by \<open>k\<close>, the block
  holds the register shifted back by \<open>k\<close>, and the bits shifted out have been added to the
  next block.
\<close>

definition poly_at :: "nat \<Rightarrow> dpoly" where
  "poly_at k = \<lparr>dp_h = drop_bit k POLY, dp_l = push_bit (16 - k) POLY\<rparr>"

lemma poly_at_0: "poly_at 0 = \<lparr>dp_h = POLY, dp_l = 0\<rparr>"
  by (simp add: poly_at_def POLY_def)

lemma sr_poly_at:
  assumes "k < 16"
  shows "sr (poly_at k) 1 = poly_at (Suc k)"
proof -
  have "drop_bit 1 (drop_bit k POLY) = drop_bit (Suc k) POLY"
    by (simp add: drop_bit_drop_bit)
  moreover have "drop_bit 1 (push_bit (16 - k) POLY) OR push_bit 15 (drop_bit k POLY AND 1)
                 = push_bit (16 - Suc k) POLY"
  proof (rule bit_word_eqI)
    fix i
    assume "i < LENGTH(16)"
    then show "bit (drop_bit 1 (push_bit (16 - k) POLY) OR push_bit 15 (drop_bit k POLY AND 1)) i
               = bit (push_bit (16 - Suc k) POLY) i"
      using assms
      by (cases "i = 15")
         (auto simp: bit_or_iff bit_push_bit_iff bit_drop_bit_eq bit_and_iff bit_1_iff Suc_diff_Suc
           intro!: arg_cong [of _ _ "bit POLY"])
  qed
  ultimately show ?thesis
    by (simp add: sr_def sr_once_def poly_at_def Let_def)
qed

lemma sl_poly_at:
  assumes "k < 16"
  shows "sl_once (poly_at (Suc k)) = poly_at k"
proof -
  have "push_bit 1 (drop_bit (Suc k) POLY) OR (drop_bit 15 (push_bit (16 - Suc k) POLY) AND 1)
        = drop_bit k POLY"
  proof (rule bit_word_eqI)
    fix i
    assume "i < LENGTH(16)"
    then show "bit (push_bit 1 (drop_bit (Suc k) POLY) OR (drop_bit 15 (push_bit (16 - Suc k) POLY) AND 1)) i
               = bit (drop_bit k POLY) i"
      using assms
      by (cases i)
         (auto simp: bit_or_iff bit_push_bit_iff bit_drop_bit_eq bit_and_iff bit_1_iff
           intro!: arg_cong [of _ _ "bit POLY"])
  qed
  moreover have "push_bit 1 (push_bit (16 - Suc k) POLY) = push_bit (16 - k) POLY"
    using assms by (simp add: push_bit_push_bit Suc_diff_le [symmetric])
  ultimately show ?thesis
    by (simp add: sl_once_def poly_at_def Let_def)
qed

lemma sl_poly_at_all: "k \<le> 16 \<Longrightarrow> (sl_once ^^ k) (poly_at k) = poly_at 0"
  by (induction k) (auto simp: funpow_Suc_right sl_poly_at simp del: funpow.simps)

definition block_at :: "nat \<Rightarrow> u16 list \<Rightarrow> nat \<Rightarrow> u16 list" where
  "block_at q d k = (let t = (lfsr ^^ k) (d ! q)
     in d[q := drop_bit k t, q + 1 := d ! (q + 1) XOR push_bit (16 - k) t])"

lemma bit_test_15: "a AND push_bit n 1 \<noteq> (0 :: u16) \<longleftrightarrow> bit a n"
  by (simp add: bit_iff_and_push_bit_not_eq_0)

lemma lfsr_split:
  fixes t :: u16
  assumes "k < 16"
  defines "u \<equiv> (if bit t 15 then t XOR POLY else t)"
  shows "drop_bit (Suc k) (lfsr t) = drop_bit k u"
    and "push_bit (16 - Suc k) (lfsr t) = push_bit (16 - k) u"
proof -
  have lfsr: "lfsr t = push_bit 1 u"
    by (simp add: lfsr_def u_def)
  have "\<not> bit u 15"
    by (simp add: u_def bit_xor_iff bit_POLY)
  then have top: "\<not> bit u (k + i)" if "\<not> Suc (k + i) < 16" for i
    using that bit_imp_le_length [of u "k + i"] by (cases "k + i = 15") auto
  show "drop_bit (Suc k) (lfsr t) = drop_bit k u"
    unfolding lfsr
  proof (rule bit_word_eqI)
    fix i
    show "bit (drop_bit (Suc k) (push_bit 1 u)) i = bit (drop_bit k u) i"
      using top [of i] by (auto simp: bit_drop_bit_eq bit_push_bit_iff)
  qed
  show "push_bit (16 - Suc k) (lfsr t) = push_bit (16 - k) u"
    unfolding lfsr using assms(1) by (simp add: push_bit_push_bit Suc_diff_le [symmetric])
qed

lemma crc_bit_block_at:
  assumes k: "k < 16" and q: "q + 1 < length d"
  shows "crc_bit q (16 - k) (poly_at k, block_at q d k) = (poly_at (Suc k), block_at q d (Suc k))"
proof -
  define t where "t = (lfsr ^^ k) (d ! q)"
  have dq: "block_at q d k ! q = drop_bit k t" "block_at q d k ! (q + 1) = d ! (q + 1) XOR push_bit (16 - k) t"
    using q by (simp_all add: block_at_def t_def Let_def)
  have "16 - k - 1 + k = 15"
    using k by simp
  then have test: "block_at q d k ! q AND push_bit (16 - k - 1) 1 \<noteq> 0 \<longleftrightarrow> bit t 15"
    unfolding bit_test_15 dq bit_drop_bit_eq by (simp add: add.commute)
  have next_t: "(lfsr ^^ Suc k) (d ! q) = lfsr t"
    by (simp add: t_def)
  show ?thesis
    unfolding crc_bit_def prod.case Let_def test sr_poly_at [OF k]
    using q lfsr_split [OF k, of t] dq
    by (auto simp: block_at_def next_t Let_def poly_at_def t_def [symmetric] list_update_swap
        push_bit_xor drop_bit_xor ac_simps simp del: funpow.simps)
qed

lemma block_at_0 [simp]: "q + 1 < length d \<Longrightarrow> block_at q d 0 = d"
proof -
  assume "q + 1 < length d"
  moreover have "push_bit 16 (d ! q) = (0 :: u16)"
    by (rule bit_word_eqI) (simp add: bit_push_bit_iff)
  ultimately show ?thesis
    by (simp add: block_at_def Let_def del: push_bit_numeral)
qed

lemma block_at_16: "block_at q d 16 = d[q := 0, q + 1 := d ! (q + 1) XOR lfsr16 (d ! q)]"
proof -
  have "drop_bit 16 t = 0" for t :: u16
    by (rule bit_word_eqI) (auto simp: bit_drop_bit_eq dest: bit_imp_le_length)
  then show ?thesis
    by (simp add: block_at_def lfsr16_def Let_def)
qed

lemma crc_inner_loop:
  assumes "q + 1 < length d" "n \<le> 16"
  shows "fold (crc_bit q) (map (\<lambda>k. 16 - k) [0..<n]) (poly_at 0, d) = (poly_at n, block_at q d n)"
  using assms(2) by (induction n) (simp_all add: assms(1) crc_bit_block_at del: One_nat_def)

lemma crc_block_eq:
  assumes "q + 1 < length d"
  shows "crc_block q (poly_at 0, d) = (poly_at 0, d[q := 0, q + 1 := d ! (q + 1) XOR lfsr16 (d ! q)])"
proof -
  have "rev [1..<17] = map (\<lambda>k. 16 - k) [0..<16::nat]"
    by (simp add: upt_rec)
  then show ?thesis
    using crc_inner_loop [OF assms order_refl] sl_poly_at_all [of 16]
    by (simp add: crc_block_def block_at_16 sl_def)
qed

lemma crc_reg_snoc: "crc_reg (bs @ [b]) = lfsr16 (crc_reg bs) XOR b"
  by (simp add: crc_reg_def crc_run_append)

lemma crc_outer_loop:
  assumes "m < length d"
  shows "\<exists>d'. fold crc_block [0..<m] (poly_at 0, d) = (poly_at 0, d') \<and> length d' = length d \<and>
    d' ! m = crc_reg (take (Suc m) d) \<and> (\<forall>j. m < j \<longrightarrow> d' ! j = d ! j)"
  using assms
proof (induction m)
  case 0
  then show ?case
    by (auto simp: take_Suc hd_conv_nth crc_reg_def lfsr16_def)
next
  case (Suc m)
  then obtain d' where d': "fold crc_block [0..<m] (poly_at 0, d) = (poly_at 0, d')"
    "length d' = length d" "d' ! m = crc_reg (take (Suc m) d)" "\<forall>j. m < j \<longrightarrow> d' ! j = d ! j"
    by auto
  have "crc_block m (poly_at 0, d') = (poly_at 0, d'[m := 0, Suc m := d' ! Suc m XOR lfsr16 (d' ! m)])"
    using crc_block_eq [of m d'] Suc.prems d'(2) by simp
  then have "fold crc_block [0..<Suc m] (poly_at 0, d)
      = (poly_at 0, d'[m := 0, Suc m := d' ! Suc m XOR lfsr16 (d' ! m)])"
    using d'(1) by simp
  moreover have "d' ! Suc m XOR lfsr16 (d' ! m) = crc_reg (take (Suc (Suc m)) d)"
    using Suc.prems d'(3,4) by (simp only: take_Suc_conv_app_nth crc_reg_snoc) (simp add: xor.commute)
  ultimately show ?case
    using d'(2,4) Suc.prems by (intro exI conjI) (assumption | simp)+
qed

lemma calc_poly_len_POLY: "calc_poly_len (poly_at 0) = Some 32"
  by (simp add: calc_poly_len_def poly_at_0 POLY_def upt_rec)

theorem calc_crc_eq_crc_reg:
  assumes "0 < n" "n \<le> length d"
  shows "calc_crc (poly_at 0) d n = Some (crc_reg (take n d))"
proof -
  have "n - 1 < length d" using assms by simp
  from crc_outer_loop [OF this] obtain d' where
    "fold crc_block [0..<n - 1] (poly_at 0, d) = (poly_at 0, d')" "d' ! (n - 1) = crc_reg (take n d)"
    using assms(1) by auto
  then show ?thesis
    by (simp add: calc_crc_def calc_poly_len_POLY sl_def)
qed

section \<open>The checksum of a byte string\<close>

definition crc_value :: "bytes \<Rightarrow> u16" where
  "crc_value data = lfsr16 (crc_reg (blocks_of data))"

lemma blocks_of_pad: "blocks_of (data @ replicate (2 * crc_n_blocks (length data) - length data) 0)
    = blocks_of data @ [0]"
proof (induction data rule: blocks_of.induct)
  case (1 a b bs)
  have "crc_n_blocks (length (a # b # bs)) = Suc (crc_n_blocks (length bs))"
    by (simp add: crc_n_blocks_def)
  with 1 show ?case by simp
next
  case (2 a)
  then show ?case by (simp add: crc_n_blocks_def eval_nat_numeral)
next
  case 3
  then show ?case by (simp add: crc_n_blocks_def eval_nat_numeral)
qed

lemma length_blocks_of: "length (blocks_of data) + 1 = crc_n_blocks (length data)"
  by (induction data rule: blocks_of.induct) (auto simp: crc_n_blocks_def)

lemma get_crc_eq: "get_crc data = Some (crc_value data)"
proof -
  let ?n = "crc_n_blocks (length data)"
  have len: "length data \<le> 2 * ?n" by (simp add: crc_n_blocks_def)
  have "poke (replicate (2 * ?n) 0) 0 data = data @ replicate (2 * ?n - length data) 0"
    by (simp add: poke_def)
  then have "blocks_of (poke (replicate (2 * ?n) 0) 0 data) = blocks_of data @ [0]"
    by (simp add: blocks_of_pad)
  moreover have "calc_crc (poly_at 0) (blocks_of data @ [0]) ?n = Some (crc_reg (blocks_of data @ [0]))"
    using calc_crc_eq_crc_reg [of ?n "blocks_of data @ [0]"] length_blocks_of [of data] by simp
  ultimately show ?thesis
    by (simp add: get_crc_def poly_at_0 crc_reg_snoc crc_value_def)
qed

text \<open>Appending a checksum: whole blocks leave it aligned, an odd byte count splits it over two blocks.\<close>

lemma le_bytes_2: "le_bytes 2 (c :: u16) = [ucast c, ucast (drop_bit 8 c)]"
  by (simp add: eval_nat_numeral)

lemma block_of_le_bytes: "ucast (ucast (c :: u16) :: u8) OR push_bit 8 (ucast (ucast (drop_bit 8 c) :: u8)) = c"
  by (rule bit_word_eqI) (auto simp: bit_or_iff bit_push_bit_iff bit_ucast_iff bit_drop_bit_eq)

lemma blocks_of_append_even: "even (length xs) \<Longrightarrow> blocks_of (xs @ ys) = blocks_of xs @ blocks_of ys"
  by (induction xs rule: blocks_of.induct) auto

lemma crc_value_append_even:
  "even (length data) \<Longrightarrow> crc_value (data @ le_bytes 2 c) = lfsr16 (crc_value data XOR c)"
  by (simp add: crc_value_def blocks_of_append_even le_bytes_2 block_of_le_bytes crc_reg_snoc)

lemma lfsr16_0 [simp]: "lfsr16 0 = 0"
  by (simp add: lfsr16_def)

lemma lfsr16_xor: "lfsr16 (a XOR b) = lfsr16 a XOR lfsr16 b"
  by (simp add: lfsr16_def funpow_lfsr_xor)

lemma lfsr16_unroll:
  "lfsr16 r = lfsr (lfsr (lfsr (lfsr (lfsr (lfsr (lfsr (lfsr (lfsr (lfsr (lfsr (lfsr (lfsr (lfsr (lfsr (lfsr r)))))))))))))))"
  by (simp add: lfsr16_def eval_nat_numeral)

lemma lfsr16_even: "\<not> bit (lfsr16 a) 0"
  by (simp add: lfsr16_unroll lfsr_even)

lemma lfsr16_eq_0_iff: "lfsr16 a = 0 \<longleftrightarrow> a = 0 \<or> a = POLY"
proof
  assume "lfsr16 a = 0"
  then show "a = 0 \<or> a = POLY"
    using funpow_lfsr_neq_0 [of a 16] by (auto simp: lfsr16_def)
next
  have "lfsr16 POLY = 0"
    by (simp add: lfsr16_unroll lfsr_eq_0_iff)
  then show "lfsr16 a = 0" if "a = 0 \<or> a = POLY"
    using that by auto
qed

lemma crc_value_even: "\<not> bit (crc_value data) 0"
  by (simp add: crc_value_def lfsr16_even)

lemma check_crc_eq: "check_crc data c = Some (crc_value (data @ le_bytes 2 c) = 0)"
  by (simp add: check_crc_def get_crc_eq)

lemma check_crc_even:
  assumes "even (length data)"
  shows "check_crc data c = Some (c = crc_value data \<or> c = crc_value data XOR POLY)"
proof -
  have "crc_value data XOR c = POLY \<longleftrightarrow> c = crc_value data XOR POLY"
    using xor_eq_iff_word [of c "crc_value data" POLY] by (simp add: ac_simps)
  then show ?thesis
    by (auto simp: check_crc_eq crc_value_append_even [OF assms] lfsr16_eq_0_iff xor_eq_0_iff_word)
qed

subsection \<open>Odd byte counts\<close>

text \<open>Additive maps on blocks that agree on the sixteen single bits are equal.\<close>

lemma additive_eqI:
  fixes f g :: "u16 \<Rightarrow> u16"
  assumes f: "\<And>a b. f (a XOR b) = f a XOR f b" and g: "\<And>a b. g (a XOR b) = g a XOR g b"
    and basis: "\<And>i. i < 16 \<Longrightarrow> f (2 ^ i) = g (2 ^ i)"
  shows "f w = g w"
proof -
  have zero: "f 0 = 0" "g 0 = 0"
    using f [of 0 0] g [of 0 0] by simp_all
  have "f (take_bit n w) = g (take_bit n w)" if "n \<le> 16" for n
    using that
  proof (induction n)
    case 0
    then show ?case by (simp add: zero)
  next
    case (Suc n)
    have "take_bit (Suc n) w = take_bit n w XOR (if bit w n then 2 ^ n else 0)"
      by (rule bit_word_eqI)
         (auto simp: bit_take_bit_iff bit_xor_iff bit_exp_iff less_Suc_eq)
    with Suc show ?case
      by (simp add: f g basis zero)
  qed
  from this [of 16] show ?thesis
    by (simp add: take_bit_word_eq_self)
qed

text \<open>
  What the final register of \<open>check_crc\<close> is when the checksum \<open>c\<close> was appended to an odd number
  of bytes.
\<close>

definition crc_split :: "u16 \<Rightarrow> u16" where
  "crc_split c = c XOR lfsr16 (push_bit 8 c) XOR drop_bit 8 c"

lemma blocks_of_append_odd:
  assumes "odd (length data)"
  obtains bs b where "blocks_of data = bs @ [b]"
    "blocks_of (data @ le_bytes 2 c) = bs @ [b XOR push_bit 8 c, drop_bit 8 c]"
proof -
  have "\<exists>bs b. blocks_of data = bs @ [b] \<and>
      blocks_of (data @ le_bytes 2 c) = bs @ [b XOR push_bit 8 c, drop_bit 8 c]"
    using assms
  proof (induction data rule: blocks_of.induct)
    case (1 a b bs)
    then show ?case
      by (auto intro: exI [of _ "_ # _"])
  next
    case (2 a)
    have "ucast a OR push_bit 8 (ucast (ucast c :: u8)) = ucast a XOR push_bit 8 c"
      by (rule bit_word_eqI) (auto simp: bit_or_iff bit_xor_iff bit_push_bit_iff bit_ucast_iff dest: bit_imp_le_length)
    moreover have "ucast (ucast (drop_bit 8 c) :: u8) = drop_bit 8 c"
      by (rule bit_word_eqI) (auto simp: bit_ucast_iff bit_drop_bit_eq dest: bit_imp_le_length)
    ultimately show ?case
      by (simp add: le_bytes_2)
  qed simp
  then show ?thesis using that by blast
qed

lemma crc_value_append_odd:
  assumes "odd (length data)"
  shows "crc_value (data @ le_bytes 2 (crc_value data)) = lfsr16 (crc_split (crc_value data))"
proof -
  obtain bs b where b: "blocks_of data = bs @ [b]"
    "blocks_of (data @ le_bytes 2 (crc_value data))
       = (bs @ [b XOR push_bit 8 (crc_value data)]) @ [drop_bit 8 (crc_value data)]"
    using blocks_of_append_odd [OF assms, of "crc_value data"] by auto
  have "lfsr16 (lfsr16 (crc_reg bs) XOR b) = crc_value data"
    by (simp add: crc_value_def b(1) crc_reg_snoc)
  then show ?thesis
    unfolding crc_value_def [of "data @ le_bytes 2 (crc_value data)"] b(2) crc_reg_snoc crc_split_def
    by (simp only: xor.assoc [symmetric] lfsr16_xor)
qed

text \<open>A linear left inverse of \<open>crc_split\<close>, up to its one-dimensional kernel.\<close>

fun xor_sel :: "(nat \<times> u16) list \<Rightarrow> u16 \<Rightarrow> u16" where
  "xor_sel [] w = 0"
| "xor_sel ((i, v) # ps) w = (if bit w i then v else 0) XOR xor_sel ps w"

definition crc_unsplit :: "u16 \<Rightarrow> u16" where
  "crc_unsplit = xor_sel
     [(1, 8881), (2, 4082), (3, 21876), (4, 17244), (5, 28428), (6, 14252), (7, 9672), (8, 256),
      (9, 8369), (10, 3058), (11, 23924), (12, 21340), (13, 20236), (14, 30636), (15, 28365)]"

lemma xor_sel_xor: "xor_sel ps (a XOR b) = xor_sel ps a XOR xor_sel ps b"
  by (induction ps a rule: xor_sel.induct) (auto simp: bit_xor_iff ac_simps)

lemma crc_unsplit_xor: "crc_unsplit (a XOR b) = crc_unsplit a XOR crc_unsplit b"
  by (simp add: crc_unsplit_def xor_sel_xor)

lemma crc_split_xor: "crc_split (a XOR b) = crc_split a XOR crc_split b"
  by (simp add: crc_split_def push_bit_xor drop_bit_xor lfsr16_xor ac_simps)

lemma crc_unsplit_split: "crc_unsplit (crc_split c) = c XOR (if bit c 15 then 51973 else 0)"
proof (rule additive_eqI [where f = "\<lambda>c. crc_unsplit (crc_split c)"
      and g = "\<lambda>c. c XOR (if bit c 15 then 51973 else 0)"])
  fix a b :: u16
  show "crc_unsplit (crc_split (a XOR b)) = crc_unsplit (crc_split a) XOR crc_unsplit (crc_split b)"
    by (simp only: crc_split_xor crc_unsplit_xor)
  show "(a XOR b) XOR (if bit (a XOR b) 15 then 51973 else 0)
      = (a XOR (if bit a 15 then 51973 else 0)) XOR (b XOR (if bit b 15 then 51973 else 0))"
    by (auto simp: bit_xor_iff ac_simps)
next
  fix i :: nat
  assume "i < 16"
  then have "i \<in> {15, 14, 13, 12, 11, 10, 9, 8, 7, 6, 5, 4, 3, 2, 1, 0}"
    by (simp, arith)
  then show "crc_unsplit (crc_split (2 ^ i)) = 2 ^ i XOR (if bit (2 ^ i :: u16) 15 then 51973 else 0)"
    by (elim insertE emptyE)
       (simp_all add: crc_split_def lfsr16_unroll lfsr_def POLY_def crc_unsplit_def)
qed

lemma crc_split_kernel: "crc_split 0 = 0" "crc_split 20882 = POLY"
proof -
  have "lfsr16 (push_bit 8 20882) = POLY XOR 20882 XOR drop_bit 8 20882"
    unfolding lfsr16_unroll by (simp add: lfsr_def POLY_def)
  then show "crc_split 20882 = POLY"
    unfolding crc_split_def by (simp add: POLY_def)
qed (simp add: crc_split_def)

lemma crc_split_cases:
  assumes "\<not> bit c 0"
  shows "crc_split c = 0 \<or> crc_split c = POLY \<longleftrightarrow> c = 0 \<or> c = 20882"
proof
  assume "crc_split c = 0 \<or> crc_split c = POLY"
  then show "c = 0 \<or> c = 20882"
  proof
    assume "crc_split c = 0"
    with crc_unsplit_split [of c] have "c XOR (if bit c 15 then 51973 else 0) = 0"
      by (simp add: crc_unsplit_def)
    then have "c = 0 \<or> c = 51973"
      by (auto simp: xor_eq_0_iff_word split: if_splits)
    then show ?thesis using assms by auto
  next
    assume "crc_split c = POLY"
    with crc_unsplit_split [of c] have "c XOR (if bit c 15 then 51973 else 0) = 20882"
      by (simp add: crc_unsplit_def POLY_def)
    then have "c = 20882 \<or> c = 20882 XOR 51973"
      by (auto simp: xor_eq_iff_word split: if_splits)
    then show ?thesis using assms by auto
  qed
next
  show "crc_split c = 0 \<or> crc_split c = POLY" if "c = 0 \<or> c = 20882"
    using that by (auto simp: crc_split_kernel)
qed

lemma check_crc_odd:
  assumes "odd (length data)"
  shows "check_crc data (crc_value data) = Some (crc_value data = 0 \<or> crc_value data = 20882)"
  using crc_split_cases [OF crc_value_even, of data]
  by (simp add: check_crc_eq crc_value_append_odd [OF assms] lfsr16_eq_0_iff)

section \<open>Transmission errors\<close>

lemma blocks_of_xor:
  "length a = length b \<Longrightarrow> blocks_of (xor_blocks a b) = xor_blocks (blocks_of a) (blocks_of b)"
proof (induction a arbitrary: b rule: blocks_of.induct)
  case (1 x y xs)
  then obtain x' y' ys where b: "b = x' # y' # ys" "length xs = length ys"
    by (auto simp: length_Suc_conv Suc_length_conv)
  have "ucast (x XOR x') OR push_bit 8 (ucast (y XOR y'))
      = (ucast x OR push_bit 8 (ucast y)) XOR (ucast x' OR push_bit 8 (ucast y') :: u16)"
    by (rule bit_word_eqI)
       (auto simp: bit_or_iff bit_xor_iff bit_push_bit_iff bit_ucast_iff dest: bit_imp_le_length)
  with 1 b show ?case by simp
next
  case (2 x)
  then obtain x' where "b = [x']"
    by (auto simp: length_Suc_conv Suc_length_conv)
  moreover have "ucast (x XOR x') = (ucast x XOR ucast x' :: u16)"
    by (rule bit_word_eqI) (auto simp: bit_xor_iff bit_ucast_iff)
  ultimately show ?case by simp
next
  case 3
  then show ?case by simp
qed

lemma crc_run_xor:
  "length as = length bs \<Longrightarrow> crc_run (xor_blocks as bs) (r XOR s) = crc_run as r XOR crc_run bs s"
proof (induction as bs arbitrary: r s rule: list_induct2)
  case (Cons x xs y ys)
  have "lfsr16 (r XOR s) XOR (x XOR y) = (lfsr16 r XOR x) XOR (lfsr16 s XOR y)"
    by (simp add: lfsr16_xor ac_simps)
  then show ?case by (simp add: Cons.IH)
qed simp

lemma length_blocks_of_eq: "length a = length b \<Longrightarrow> length (blocks_of a) = length (blocks_of b)"
  using length_blocks_of [of a] length_blocks_of [of b] by simp

lemma crc_value_xor: "length a = length b \<Longrightarrow> crc_value (xor_blocks a b) = crc_value a XOR crc_value b"
  using crc_run_xor [of "blocks_of a" "blocks_of b" 0 0] length_blocks_of_eq [of a b]
  by (simp add: crc_value_def crc_reg_def blocks_of_xor lfsr16_xor)

lemma blocks_of_append_zeros: "blocks_of (err @ [0, 0]) = blocks_of err @ [0]"
  by (induction err rule: blocks_of.induct) auto

lemma check_crc_xor:
  assumes "length err = length data"
  shows "check_crc (xor_blocks data err) c
    = Some (crc_value (data @ le_bytes 2 c) XOR crc_value (err @ [0, 0]) = 0)"
proof -
  have "xor_blocks data err @ le_bytes 2 c = xor_blocks (data @ le_bytes 2 c) (err @ [0, 0])"
    using assms by (simp add: xor_blocks_append le_bytes_2)
  then show ?thesis
    using assms by (simp add: check_crc_eq crc_value_xor)
qed

lemma crc_run_zeros: "crc_run (replicate j 0) v = (lfsr16 ^^ j) v"
  by (induction j arbitrary: v) (simp_all add: funpow_Suc_right del: funpow.simps(2))

lemma funpow_lfsr16_neq_0:
  assumes "v \<noteq> 0" "v \<noteq> POLY"
  shows "(lfsr16 ^^ n) v \<noteq> 0 \<and> (lfsr16 ^^ n) v \<noteq> POLY"
proof (induction n)
  case (Suc n)
  have "bit POLY 0 \<noteq> bit (lfsr16 ((lfsr16 ^^ n) v)) 0"
    by (simp add: bit_POLY lfsr16_even)
  then have "lfsr16 ((lfsr16 ^^ n) v) \<noteq> POLY"
    by auto
  with Suc show ?case
    by (simp add: lfsr16_eq_0_iff)
qed (simp add: assms)

lemma crc_value_single_block:
  assumes "blocks_of err = replicate i 0 @ [v] @ replicate j 0" "v \<noteq> 0" "v \<noteq> POLY"
  shows "crc_value (err @ [0, 0]) \<noteq> 0"
proof -
  have "(lfsr16 ^^ n) 0 = 0" for n
    by (induction n) auto
  moreover have "blocks_of (err @ [0, 0]) = replicate i 0 @ [v] @ replicate (Suc j) 0"
    by (simp add: blocks_of_append_zeros assms(1) replicate_append_same)
  ultimately have "crc_value (err @ [0, 0]) = lfsr16 ((lfsr16 ^^ Suc j) v)"
    by (simp only: crc_value_def crc_reg_def crc_run_append crc_run_zeros) simp
  then show ?thesis
    using funpow_lfsr16_neq_0 [OF assms(2,3), of "Suc (Suc j)"] by simp
qed

lemma check_crc_burst:
  assumes "check_crc data c = Some True" "length err = length data"
    and "blocks_of err = replicate i 0 @ [v] @ replicate j 0" "v \<noteq> 0" "v \<noteq> POLY"
  shows "check_crc (xor_blocks data err) c = Some False"
  using assms(1) crc_value_single_block [OF assms(3-5)]
  by (simp add: check_crc_xor [OF assms(2)]) (simp add: check_crc_eq)

text \<open>
  The generator has an even number of terms, so that a step of the register keeps the parity of its bits. A checksum appended to
  an odd number of bytes leaves a register of even parity, although it is not zero as it should be, and a single flipped bit one
  of odd parity.
\<close>

definition odd_bits :: "u16 \<Rightarrow> bool" where
  "odd_bits w = foldr (\<lambda>i p. bit w i \<noteq> p) [0, 1, 2, 3, 4, 5, 6, 7, 8, 9, 10, 11, 12, 13, 14, 15] False"

lemma odd_bits_unroll:
  "odd_bits w = (bit w 0 \<noteq> (bit w 1 \<noteq> (bit w 2 \<noteq> (bit w 3 \<noteq> (bit w 4 \<noteq> (bit w 5 \<noteq> (bit w 6 \<noteq> (bit w 7 \<noteq>
    (bit w 8 \<noteq> (bit w 9 \<noteq> (bit w 10 \<noteq> (bit w 11 \<noteq> (bit w 12 \<noteq> (bit w 13 \<noteq> (bit w 14 \<noteq> bit w 15)))))))))))))))"
  by (simp add: odd_bits_def)

lemma odd_bits_xor: "odd_bits (a XOR b) = (odd_bits a \<noteq> odd_bits b)"
proof -
  have "foldr (\<lambda>i p. bit (a XOR b) i \<noteq> p) is False =
      (foldr (\<lambda>i p. bit a i \<noteq> p) is False \<noteq> foldr (\<lambda>i p. bit b i \<noteq> p) is False)" for "is"
    by (induction "is") (auto simp: bit_xor_iff)
  then show ?thesis
    unfolding odd_bits_def .
qed

lemma odd_bits_0 [simp]: "\<not> odd_bits 0"
  by (simp add: odd_bits_unroll)

lemma odd_bits_basis: "i < 16 \<Longrightarrow> odd_bits (2 ^ i)"
proof -
  assume "i < 16"
  then have "i \<in> {15, 14, 13, 12, 11, 10, 9, 8, 7, 6, 5, 4, 3, 2, 1, 0}"
    by (simp, arith)
  then show "odd_bits (2 ^ i)"
    by (elim insertE emptyE) (simp_all add: odd_bits_unroll)
qed

text \<open>Parities of additive maps need to be compared on single bits only.\<close>

lemma odd_bits_additive:
  fixes f g :: "u16 \<Rightarrow> u16"
  assumes f: "\<And>a b. f (a XOR b) = f a XOR f b" and g: "\<And>a b. g (a XOR b) = g a XOR g b"
    and basis: "\<And>i. i < 16 \<Longrightarrow> odd_bits (f (2 ^ i)) = odd_bits (g (2 ^ i))"
  shows "odd_bits (f w) = odd_bits (g w)"
proof -
  let ?p = "\<lambda>h w. if odd_bits (h w) then 1 else 0 :: u16"
  have add: "?p h (a XOR b) = ?p h a XOR ?p h b" if "\<And>a b. h (a XOR b) = h a XOR h b" for h a b
    by (simp add: that odd_bits_xor)
  have "?p f w = ?p g w"
  proof (rule additive_eqI [where f = "?p f" and g = "?p g"])
    show "?p f (2 ^ i) = ?p g (2 ^ i)" if "i < 16" for i
      using basis [OF that] by simp
  qed (rule add [OF f], rule add [OF g])
  then show ?thesis
    by (simp split: if_splits)
qed

lemma odd_bits_lfsr: "odd_bits (lfsr w) = odd_bits w"
proof (rule odd_bits_additive [where f = lfsr and g = "\<lambda>w. w"])
  fix i :: nat
  assume "i < 16"
  then have "i \<in> {15, 14, 13, 12, 11, 10, 9, 8, 7, 6, 5, 4, 3, 2, 1, 0}"
    by (simp, arith)
  then show "odd_bits (lfsr (2 ^ i)) = odd_bits (2 ^ i)"
    by (elim insertE emptyE) (simp_all add: lfsr_def POLY_def odd_bits_unroll)
qed (simp_all add: lfsr_xor)

lemma odd_bits_lfsr16: "odd_bits (lfsr16 w) = odd_bits w"
  by (simp add: lfsr16_unroll odd_bits_lfsr)

lemma odd_bits_crc_split: "\<not> odd_bits (crc_split c)"
proof -
  have "odd_bits (crc_split c) = odd_bits 0"
  proof (rule odd_bits_additive [where f = crc_split and g = "\<lambda>_. 0"])
    fix i :: nat
    assume "i < 16"
    then have "i \<in> {15, 14, 13, 12, 11, 10, 9, 8, 7, 6, 5, 4, 3, 2, 1, 0}"
      by (simp, arith)
    then have "odd_bits (2 ^ i XOR push_bit 8 (2 ^ i) XOR drop_bit 8 (2 ^ i)) = odd_bits 0"
      by (elim insertE emptyE) (simp_all add: odd_bits_unroll)
    then show "odd_bits (crc_split (2 ^ i)) = odd_bits 0"
      by (simp add: crc_split_def odd_bits_xor odd_bits_lfsr16)
  qed (simp_all add: crc_split_xor)
  then show ?thesis by simp
qed

lemma check_crc_odd_burst:
  assumes "odd (length data)" "length err = length data"
    and "blocks_of err = replicate i 0 @ [v] @ replicate j 0" "odd_bits v"
  shows "check_crc (xor_blocks data err) (crc_value data) = Some False"
proof -
  have "(lfsr16 ^^ n) 0 = 0" for n
    by (induction n) auto
  moreover have "blocks_of (err @ [0, 0]) = replicate i 0 @ [v] @ replicate (Suc j) 0"
    by (simp add: blocks_of_append_zeros assms(3) replicate_append_same)
  ultimately have "crc_value (err @ [0, 0]) = lfsr16 ((lfsr16 ^^ Suc j) v)"
    by (simp only: crc_value_def crc_reg_def crc_run_append crc_run_zeros) simp
  moreover have "odd_bits ((lfsr16 ^^ n) v)" for n
    by (induction n) (simp_all add: assms(4) odd_bits_lfsr16)
  ultimately have "odd_bits (crc_value (err @ [0, 0]))"
    by (simp only: odd_bits_lfsr16)
  then have "odd_bits (crc_value (data @ le_bytes 2 (crc_value data)) XOR crc_value (err @ [0, 0]))"
    by (simp add: odd_bits_xor crc_value_append_odd [OF assms(1)] odd_bits_lfsr16 odd_bits_crc_split)
  then show ?thesis
    by (auto simp: check_crc_xor [OF assms(2)])
qed

section \<open>Polynomials over the two-element field\<close>

text \<open>
  The specification of a cyclic redundancy check. A polynomial is the number whose bits are its
  coefficients, addition is exclusive or and \<open>push_bit k\<close> multiplies by the \<open>k\<close>-th power of the
  variable; the multiples of \<open>g\<close> are the sums of shifted copies of \<open>g\<close>. The generator of this
  checksum is the configured polynomial times the variable, of degree 16.
\<close>

inductive_set multiples :: "nat \<Rightarrow> nat set" for g :: nat where
  zero: "0 \<in> multiples g"
| add: "m \<in> multiples g \<Longrightarrow> m XOR push_bit k g \<in> multiples g"

definition crc_generator :: nat where
  "crc_generator = push_bit 1 (unat POLY)"

fun message_poly :: "u16 list \<Rightarrow> nat \<Rightarrow> nat" where
  "message_poly [] acc = acc"
| "message_poly (b # bs) acc = message_poly bs (push_bit 16 acc XOR unat b)"

lemma multiples_xor: "b \<in> multiples g \<Longrightarrow> a \<in> multiples g \<Longrightarrow> a XOR b \<in> multiples g"
proof (induction b rule: multiples.induct)
  case (add m k)
  then show ?case
    using multiples.add [of "a XOR m" g k] by (simp add: xor.assoc)
qed simp

lemma multiples_push_bit: "a \<in> multiples g \<Longrightarrow> push_bit n a \<in> multiples g"
proof (induction a rule: multiples.induct)
  case zero
  show ?case by (simp add: multiples.zero)
next
  case (add m k)
  then show ?case
    using multiples.add [of "push_bit n m" g "n + k"] by (simp add: push_bit_xor push_bit_push_bit)
qed

lemma unat_lfsr: "unat (lfsr r) = push_bit 1 (unat r) XOR (if bit r 15 then crc_generator else 0)"
proof -
  have "bit (unat (lfsr r)) i = bit (push_bit 1 (unat r) XOR (if bit r 15 then crc_generator else 0)) i" for i
  proof -
    have high: "\<not> bit w (i - 1)" if "\<not> i < 16" "i \<noteq> 16" for w :: u16
      using that bit_imp_le_length [of w "i - 1"] by auto
    show ?thesis
      using high [of r] high [of POLY] bit_POLY(2)
      by (cases "i = 16")
         (auto simp: lfsr_def crc_generator_def bit_unsigned_iff bit_xor_iff bit_push_bit_iff
            dest: bit_imp_le_length)
  qed
  then show ?thesis by (rule bit_eqI)
qed

lemma remainder_lfsr:
  assumes "m XOR unat r \<in> multiples crc_generator"
  shows "push_bit 1 m XOR unat (lfsr r) \<in> multiples crc_generator"
proof -
  let ?d = "if bit r 15 then crc_generator else 0"
  have "?d \<in> multiples crc_generator"
    using multiples.zero multiples.add [OF multiples.zero, where k = 0 and g = crc_generator] by simp
  then have "push_bit 1 (m XOR unat r) XOR ?d \<in> multiples crc_generator"
    by (rule multiples_xor) (rule multiples_push_bit [OF assms])
  then show ?thesis
    by (simp only: unat_lfsr push_bit_xor xor.assoc)
qed

lemma remainder_lfsr16:
  assumes "m XOR unat r \<in> multiples crc_generator"
  shows "push_bit 16 m XOR unat (lfsr16 r) \<in> multiples crc_generator"
proof -
  have "push_bit n m XOR unat ((lfsr ^^ n) r) \<in> multiples crc_generator" for n
  proof (induction n)
    case 0
    then show ?case using assms by simp
  next
    case (Suc n)
    from remainder_lfsr [OF this] show ?case
      by (simp add: push_bit_push_bit)
  qed
  then show ?thesis by (simp add: lfsr16_def)
qed

lemma remainder_blocks:
  assumes "m XOR unat r \<in> multiples crc_generator"
  shows "message_poly bs m XOR unat (crc_run bs r) \<in> multiples crc_generator"
  using assms
proof (induction bs arbitrary: m r)
  case (Cons b bs)
  have "(push_bit 16 m XOR unat b) XOR unat (lfsr16 r XOR b) = push_bit 16 m XOR unat (lfsr16 r)"
    by (rule bit_eqI) (auto simp: unsigned_xor_eq bit_xor_iff)
  with remainder_lfsr16 [OF Cons.prems]
  have "(push_bit 16 m XOR unat b) XOR unat (lfsr16 r XOR b) \<in> multiples crc_generator"
    by (simp only:)
  then show ?case by (simp add: Cons.IH)
qed simp

lemma crc_value_remainder:
  "push_bit 16 (message_poly (blocks_of data) 0) XOR unat (crc_value data) \<in> multiples crc_generator"
  unfolding crc_value_def crc_reg_def
  by (rule remainder_lfsr16, rule remainder_blocks) (simp add: multiples.zero)

text \<open>
  A multiple is a finite sum of shifts; the highest shift leaves its leading bit, so no multiple
  other than 0 has degree below 16 and the remainder is unique.
\<close>

lemma multiples_shifts:
  "m \<in> multiples g \<Longrightarrow> \<exists>K. finite K \<and> (\<forall>i. bit m i \<longleftrightarrow> odd (card {k \<in> K. k \<le> i \<and> bit g (i - k)}))"
proof (induction m rule: multiples.induct)
  case zero
  show ?case by (intro exI [of _ "{}"]) simp
next
  case (add m k)
  then obtain K where K: "finite K" "\<forall>i. bit m i \<longleftrightarrow> odd (card {k \<in> K. k \<le> i \<and> bit g (i - k)})"
    by blast
  define K' where "K' = (if k \<in> K then K - {k} else insert k K)"
  have "bit (m XOR push_bit k g) i \<longleftrightarrow> odd (card {j \<in> K'. j \<le> i \<and> bit g (i - j)})" for i
  proof (cases "k \<le> i \<and> bit g (i - k)")
    case False
    then have "{j \<in> K'. j \<le> i \<and> bit g (i - j)} = {j \<in> K. j \<le> i \<and> bit g (i - j)}"
      by (auto simp: K'_def)
    with False K(2) show ?thesis by (auto simp: bit_xor_iff bit_push_bit_iff)
  next
    case True
    let ?S = "{j \<in> K. j \<le> i \<and> bit g (i - j)}"
    have "{j \<in> K'. j \<le> i \<and> bit g (i - j)} = (if k \<in> K then ?S - {k} else insert k ?S)"
      using True by (auto simp: K'_def)
    moreover have "odd (card (if k \<in> K then ?S - {k} else insert k ?S)) \<longleftrightarrow> even (card ?S)"
    proof (cases "k \<in> K")
      case k: True
      then have "k \<in> ?S" using True by simp
      then have "card ?S = Suc (card (?S - {k}))"
        using K(1) by (intro card.remove) auto
      with k show ?thesis by simp
    next
      case False
      then have "k \<notin> ?S" by simp
      with False K(1) show ?thesis by simp
    qed
    ultimately show ?thesis
      using True K(2) by (simp add: bit_xor_iff bit_push_bit_iff)
  qed
  then show ?case
    using K(1) by (intro exI [of _ K']) (auto simp: K'_def)
qed

lemma crc_generator_top: "bit crc_generator 16" "16 < i \<Longrightarrow> \<not> bit crc_generator i"
  using bit_imp_le_length [of POLY "i - 1"]
  by (auto simp: crc_generator_def bit_push_bit_iff bit_unsigned_iff bit_POLY)

lemma multiples_low_degree:
  assumes "m \<in> multiples crc_generator" "m < 2 ^ 16"
  shows "m = 0"
proof (rule ccontr)
  assume "m \<noteq> 0"
  obtain K where K: "finite K"
    "\<forall>i. bit m i \<longleftrightarrow> odd (card {k \<in> K. k \<le> i \<and> bit crc_generator (i - k)})"
    using multiples_shifts [OF assms(1)] by blast
  have "K \<noteq> {}"
  proof
    assume "K = {}"
    then have "\<not> bit m i" for i using K(2) by simp
    then show False using \<open>m \<noteq> 0\<close> bit_eqI [of m 0] by simp
  qed
  let ?k = "Max K"
  have "k = ?k" if "k \<in> K" "bit crc_generator (?k + 16 - k)" for k
    using that Max_ge [OF K(1) that(1)] crc_generator_top(2) [of "?k + 16 - k"] by force
  then have "{k \<in> K. k \<le> ?k + 16 \<and> bit crc_generator (?k + 16 - k)} = {?k}"
    using Max_in [OF K(1) \<open>K \<noteq> {}\<close>] crc_generator_top(1) by auto
  then have "bit m (?k + 16)"
    using K(2) by simp
  then have "m div 2 ^ (?k + 16) \<noteq> 0"
    unfolding bit_iff_odd by (metis even_zero)
  then have "2 ^ (?k + 16) \<le> m"
    using div_less [of m "2 ^ (?k + 16)"] by (meson not_le)
  moreover have "(2::nat) ^ 16 \<le> 2 ^ (?k + 16)"
    by (rule power_increasing) auto
  ultimately show False using assms(2) by linarith
qed

lemma crc_value_unique:
  assumes "push_bit 16 (message_poly (blocks_of data) 0) XOR unat (r :: u16) \<in> multiples crc_generator"
  shows "r = crc_value data"
proof -
  let ?m = "push_bit 16 (message_poly (blocks_of data) 0)"
  have "(?m XOR unat (crc_value data)) XOR (?m XOR unat r) = unat (crc_value data XOR r)"
    by (rule bit_eqI) (auto simp: unsigned_xor_eq bit_xor_iff)
  with multiples_xor [OF assms crc_value_remainder [of data]]
  have "unat (crc_value data XOR r) \<in> multiples crc_generator"
    by (simp only:)
  then have "unat (crc_value data XOR r) = 0"
    using unsigned_less [of "crc_value data XOR r"] by (intro multiples_low_degree) simp_all
  then show ?thesis
    by (simp add: unat_eq_zero xor_eq_0_iff_word)
qed

section \<open>Properties\<close>

text \<open>C13 (functional). The checksum of every byte string is the remainder of its polynomial, shifted by
  sixteen places, modulo the generator: the in-place division never fails, what it returns
  differs from the shifted message by a multiple of the generator, and no other 16-bit value does.\<close>

theorem get_crc_is_remainder:
  "get_crc data = Some r \<longleftrightarrow>
    push_bit 16 (message_poly (blocks_of data) 0) XOR unat r \<in> multiples crc_generator"
  using crc_value_remainder [of data] crc_value_unique [of data r] by (auto simp: get_crc_eq)

text \<open>On an even number of bytes \<^verbatim>\<open>check_crc\<close> accepts the checksum that \<^verbatim>\<open>get_crc\<close>
  computes. It accepts exactly one other value, that checksum with the polynomial added, and
  rejects every remaining one.\<close>

lemma check_crc_accepts_even:
  assumes "get_crc data = Some r" "even (length data)"
  shows "check_crc data c = Some (c = r \<or> c = r XOR POLY)"
  using assms check_crc_even [OF assms(2)] by (simp add: get_crc_eq)

text \<open>On an odd number of bytes \<^verbatim>\<open>check_crc\<close> does not recognise the checksum \<^verbatim>\<open>get_crc\<close>
  computed for the same bytes: the checksum is appended across a block boundary. Only the
  values 0 and 20882 are still accepted.\<close>

lemma check_crc_rejects_odd:
  assumes "get_crc data = Some r" "odd (length data)"
  shows "check_crc data r = Some (r = 0 \<or> r = 20882)"
  using assms check_crc_odd [OF assms(2)] by (simp add: get_crc_eq)

end
