(* ===== verification/Common.thy ===== *)
theory Common
  imports Crc
begin

text \<open>
  What the tracker and the peers share: \<^verbatim>\<open>application/p2p/common.h\<close>, \<^verbatim>\<open>application/p2p/common.c\<close>
  and the address structures of \<^verbatim>\<open>application/p2p/db.h\<close>. Peer addresses, message headers and
  their memory images on x86-64, the construction and checking of frames, the datagram socket
  calls and port parsing. The frames this code builds pass its own check exactly when the payload
  checksum aligns, and every single-bit fault of an accepted frame that matters is detected.
\<close>

section \<open>Peer addresses\<close>

record peer_address =
  pa_family :: u16
  pa_port :: u16
  pa_addr :: u32

definition init_peer_address :: "u16 \<Rightarrow> u16 \<Rightarrow> u32 \<Rightarrow> peer_address" where
  "init_peer_address family port addr = \<lparr>pa_family = family, pa_port = port, pa_addr = addr\<rparr>"

text \<open>\<^verbatim>\<open>AF_INET\<close>, the only family in use.\<close>

definition DOMAIN :: u16 where
  "DOMAIN = 2"

definition cmp_peer_address :: "peer_address \<Rightarrow> peer_address \<Rightarrow> bool" where
  "cmp_peer_address pa1 pa2 \<longleftrightarrow>
     pa_family pa1 = pa_family pa2 \<and> pa_port pa1 = pa_port pa2 \<and> pa_addr pa1 = pa_addr pa2"

lemma cmp_peer_address_iff [simp]: "cmp_peer_address a b \<longleftrightarrow> a = b"
  by (auto simp: cmp_peer_address_def)

text \<open>The memory image of a \<^verbatim>\<open>struct peer_address\<close>: eight bytes without padding.\<close>

definition peer_address_bytes :: "peer_address \<Rightarrow> bytes" where
  "peer_address_bytes pa = le_bytes 2 (pa_family pa) @ le_bytes 2 (pa_port pa) @ le_bytes 4 (pa_addr pa)"

definition peer_address_of :: "bytes \<Rightarrow> peer_address" where
  "peer_address_of bs =
     \<lparr>pa_family = le_word (take 2 bs), pa_port = le_word (take 2 (drop 2 bs)),
      pa_addr = le_word (take 4 (drop 4 bs))\<rparr>"

lemma length_peer_address_bytes [simp, layout_simps]: "length (peer_address_bytes pa) = 8"
  by (simp add: peer_address_bytes_def)

lemma peer_address_of_bytes [simp]: "peer_address_of (peer_address_bytes pa @ rest) = pa"
  by (simp add: peer_address_of_def peer_address_bytes_def)

section \<open>Message headers\<close>

datatype message_type = HEARTBEAT | NETINFO | P2P | EXIT | ACKNOWLEDGENETINFO

text \<open>The enumeration is an unsigned 32-bit integer; a received one need not be a declared constant.\<close>

fun message_type_code :: "message_type \<Rightarrow> u32" where
  "message_type_code HEARTBEAT = 0"
| "message_type_code NETINFO = 1"
| "message_type_code P2P = 2"
| "message_type_code EXIT = 3"
| "message_type_code ACKNOWLEDGENETINFO = 4"

record message_header =
  mh_type :: u32
  mh_len :: size_t
  mh_data_checksum :: u16
  mh_header_checksum :: u16

text \<open>
  \<^verbatim>\<open>sizeof(struct message_header)\<close> is 24: the type at offset 0, four bytes of padding, the length
  at 8, the checksums at 16 and 18, and four bytes of padding. \<^verbatim>\<open>memset\<close> zeroes the padding.
\<close>

definition message_header_size :: nat where
  "message_header_size = 24"

definition message_header_bytes :: "message_header \<Rightarrow> bytes" where
  "message_header_bytes mh =
     le_bytes 4 (mh_type mh) @ replicate 4 0 @ le_bytes 8 (mh_len mh) @
     le_bytes 2 (mh_data_checksum mh) @ le_bytes 2 (mh_header_checksum mh) @ replicate 4 0"

definition message_header_of :: "bytes \<Rightarrow> message_header" where
  "message_header_of bs =
     \<lparr>mh_type = le_word (take 4 bs), mh_len = le_word (take 8 (drop 8 bs)),
      mh_data_checksum = le_word (take 2 (drop 16 bs)),
      mh_header_checksum = le_word (take 2 (drop 18 bs))\<rparr>"

lemma length_message_header_bytes [simp, layout_simps]: "length (message_header_bytes mh) = 24"
  by (simp add: message_header_bytes_def)

lemma message_header_of_bytes [simp]: "message_header_of (message_header_bytes mh @ rest) = mh"
  by (simp add: message_header_of_def message_header_bytes_def)

text \<open>
  The header checksum is computed while its own field is still zero, over the
  \<^verbatim>\<open>sizeof(message_header) - sizeof(message_header_checksum)\<close> = 22 leading bytes.
\<close>

definition init_message_header :: "message_type \<Rightarrow> size_t \<Rightarrow> u16 \<Rightarrow> message_header option" where
  "init_message_header type len data_checksum =
     (let mh = \<lparr>mh_type = message_type_code type, mh_len = len,
                mh_data_checksum = data_checksum, mh_header_checksum = 0\<rparr>
      in map_option (\<lambda>crc. mh\<lparr>mh_header_checksum := crc\<rparr>)
           (get_crc (take (message_header_size - 2) (message_header_bytes mh))))"

text \<open>A peer address behind a header, as heartbeats and acknowledgements are sent.\<close>

record peer_address_header =
  pah_message_header :: message_header
  pah_peer_address :: peer_address

definition peer_address_header_bytes :: "peer_address_header \<Rightarrow> bytes" where
  "peer_address_header_bytes pah =
     message_header_bytes (pah_message_header pah) @ peer_address_bytes (pah_peer_address pah)"

definition init_peer_address_header :: "peer_address \<Rightarrow> message_type \<Rightarrow> peer_address_header option" where
  "init_peer_address_header pa mtype =
     Option.bind (get_crc (peer_address_bytes pa)) (\<lambda>data_checksum.
     Option.bind (init_message_header mtype 32 data_checksum) (\<lambda>mh.
       Some \<lparr>pah_message_header = mh, pah_peer_address = pa\<rparr>))"

text \<open>
  \<^verbatim>\<open>init_network_information\<close> puts a header of type \<^verbatim>\<open>NETINFO\<close> before the data; \<^verbatim>\<open>broadcast\<close> and
  \<^verbatim>\<open>respond\<close> of \<^verbatim>\<open>peer.c\<close> do the same with type \<^verbatim>\<open>P2P\<close>. \<open>frame_of\<close> is the common sequence of
  calls: checksum the data, initialise the header with the total length, concatenate.
\<close>

definition frame_of :: "message_type \<Rightarrow> bytes \<Rightarrow> bytes option" where
  "frame_of mtype data =
     Option.bind (get_crc data) (\<lambda>data_checksum.
     Option.bind (init_message_header mtype (of_nat message_header_size + of_nat (length data)) data_checksum)
       (\<lambda>mh. Some (message_header_bytes mh @ data)))"

definition init_network_information :: "bytes \<Rightarrow> (bytes \<times> size_t) option" where
  "init_network_information data =
     map_option (\<lambda>frame. (frame, of_nat message_header_size + of_nat (length data))) (frame_of NETINFO data)"

section \<open>Checking a message\<close>

text \<open>
  \<^verbatim>\<open>check_message_crc\<close> zeroes the header checksum in place, checks the header, checks the payload
  unless the message is a bare header, and restores the field. The subtraction of the header size is
  the code's on \<open>size_t\<close>. No value: the code reads past the end of the buffer.
\<close>

definition check_message_crc :: "bytes \<Rightarrow> size_t \<Rightarrow> (bool \<times> bytes) option" where
  "check_message_crc data data_len =
     (if length data < message_header_size then None else
      let crc = mh_header_checksum (message_header_of data);
          zeroed = poke data 18 (le_bytes 2 (0 :: u16));
          finish = (\<lambda>retval. (retval, poke zeroed 18 (le_bytes 2 crc)))
      in Option.bind (check_crc (take (message_header_size - 2) zeroed) crc) (\<lambda>header_ok.
           if \<not> header_ok then Some (finish False)
           else if data_len = of_nat message_header_size then Some (finish True)
           else Option.bind (read_bytes zeroed message_header_size (unat (data_len - of_nat message_header_size)))
                  (\<lambda>payload. map_option finish
                     (check_crc payload (mh_data_checksum (message_header_of zeroed))))))"

text \<open>The buffer is left as it was.\<close>

lemma take_2_drop_18_header:
  "18 + 2 \<le> length data \<Longrightarrow>
    le_bytes 2 (mh_header_checksum (message_header_of data)) = take 2 (drop 18 data)"
proof -
  assume "18 + 2 \<le> length data"
  then have "length (take 2 (drop 18 data)) = 2" by simp
  then show ?thesis
    using le_bytes_le_word [of "take 2 (drop 18 data)", where 'a = 16] by (simp add: message_header_of_def)
qed

lemma check_message_crc_frame:
  assumes "check_message_crc data data_len = Some (ok, data')"
  shows "data' = data"
proof -
  have len: "18 + 2 \<le> length data"
    using assms by (auto simp: check_message_crc_def message_header_size_def split: if_splits)
  have "poke (poke data 18 (le_bytes 2 (0 :: u16))) 18 (le_bytes 2 (mh_header_checksum (message_header_of data)))
        = data"
    using len by (simp add: poke_poke_same take_2_drop_18_header poke_restore)
  with assms show ?thesis
    by (auto simp: check_message_crc_def Let_def bind_eq_Some_conv split: if_splits)
qed

section \<open>Bit faults\<close>

text \<open>
  \<^verbatim>\<open>_flip_random_bit\<close> on two values of \<^verbatim>\<open>rand()\<close>; the division by the length has no value for an empty
  buffer.
\<close>

definition flip_bit :: "bytes \<Rightarrow> nat \<Rightarrow> nat \<Rightarrow> bytes" where
  "flip_bit data r e = data[r := data ! r XOR push_bit e 1]"

definition flip_random_bit :: "nat \<Rightarrow> nat \<Rightarrow> bytes \<Rightarrow> bytes option" where
  "flip_random_bit rand1 rand2 data =
     (if data = [] then None else
      let e = rand1 mod 8; r = rand2 mod length data in Some (flip_bit data r e))"

text \<open>The configured chance, in percent, that a sent message is mutated.\<close>

definition BITFLIP_CHANCE :: nat where
  "BITFLIP_CHANCE = 0"

text \<open>
  \<^verbatim>\<open>send_message\<close> copies the message, mutates the copy with the given chance and hands it to the
  socket; the argument \<open>rands\<close> is the three next values of \<^verbatim>\<open>rand()\<close>.
\<close>

definition send_message :: "nat \<Rightarrow> nat \<times> nat \<times> nat \<Rightarrow> bytes \<Rightarrow> bytes option" where
  "send_message chance rands data =
     (let (rand0, rand1, rand2) = rands; r = rand0 mod 100
      in if r < chance then flip_random_bit rand1 rand2 data else Some data)"

section \<open>Datagram sockets\<close>

text \<open>
  A socket is the list of pending datagrams, oldest first, each with the address it came from.
  \<^verbatim>\<open>FIONREAD\<close> reports the size of the next datagram, so an empty datagram counts as no data;
  \<open>ioctl_rc\<close> is the return value of the call.
\<close>

record sockaddr_in =
  sin_family :: u16
  sin_port :: u16
  sin_addr :: u32

type_synonym socket = "(bytes \<times> sockaddr_in) list"

definition create_sockaddr_in :: "peer_address \<Rightarrow> sockaddr_in" where
  "create_sockaddr_in pa = \<lparr>sin_family = pa_family pa, sin_port = pa_port pa, sin_addr = pa_addr pa\<rparr>"

text \<open>Creating and binding the sockets; \<open>None\<close> is the exit of the process when a call fails.\<close>

definition initialize_srvr :: "int \<Rightarrow> int \<Rightarrow> peer_address \<Rightarrow> (int \<times> sockaddr_in) option" where
  "initialize_srvr socket_rc bind_rc pa =
     (let sockaddr = create_sockaddr_in pa
      in if socket_rc < 0 then None else if bind_rc < 0 then None else Some (socket_rc, sockaddr))"

definition initialize_clnt :: "int \<Rightarrow> peer_address \<Rightarrow> (int \<times> sockaddr_in) option" where
  "initialize_clnt socket_rc pa =
     (let sockaddr = create_sockaddr_in pa in if socket_rc < 0 then None else Some (socket_rc, sockaddr))"

definition is_data_available :: "int \<Rightarrow> socket \<Rightarrow> bool" where
  "is_data_available ioctl_rc sock =
     (if ioctl_rc = 0 then (case sock of [] \<Rightarrow> False | (d, _) # _ \<Rightarrow> 0 < length d) else False)"

text \<open>
  \<^verbatim>\<open>recvfrom\<close> copies at most the buffer's length and, unless it peeks, drops the whole datagram; the
  rest of the buffer keeps its contents. When it fails, buffer and sender address keep their contents;
  on an empty socket it blocks (\<open>None\<close>). The result is the number of bytes or -1, the buffer, the
  sender address and the socket.
\<close>

definition recv_message ::
  "bool \<Rightarrow> bool \<Rightarrow> bytes \<Rightarrow> sockaddr_in \<Rightarrow> socket \<Rightarrow> (int \<times> bytes \<times> sockaddr_in \<times> socket) option" where
  "recv_message recv_ok peek buf addr sock =
     (if \<not> recv_ok then Some (- 1, buf, addr, sock) else
      case sock of
        [] \<Rightarrow> None
      | (d, from) # rest \<Rightarrow>
          Some (int (min (length buf) (length d)), poke buf 0 (take (length buf) d), from,
            if peek then sock else rest))"

lemma recv_message_length:
  "recv_message recv_ok peek buf addr sock = Some (n, buf', from, sock') \<Longrightarrow> length buf' = length buf"
  by (auto simp: recv_message_def poke_def split: list.splits if_splits)

lemma recv_message_exact:
  "length buf = length d \<Longrightarrow> recv_message True peek buf addr ((d, from) # rest)
     = Some (int (length d), d, from, if peek then (d, from) # rest else rest)"
  by (simp add: recv_message_def poke_def)

section \<open>Single-bit faults of checksummed bytes\<close>

lemma blocks_of_single_byte:
  "\<exists>j. blocks_of (replicate r 0 @ [b] @ replicate m 0)
     = replicate (r div 2) 0 @ [if even r then ucast b else push_bit 8 (ucast b)] @ replicate j 0"
proof (induction r rule: nat_induct2)
  case 0
  have "\<exists>j. blocks_of (replicate m 0) = replicate j 0"
    for m by (induction m rule: nat_induct2) (auto intro: exI [of _ 0] exI [of _ 1] exI [of _ "Suc _"])
  then obtain j where "blocks_of (replicate (m - 1) 0) = replicate j 0"
    by blast
  then show ?case
    by (cases m) auto
next
  case 1
  have "\<exists>j. blocks_of (replicate m 0) = replicate j 0"
    by (induction m rule: nat_induct2) (auto intro: exI [of _ 0] exI [of _ 1] exI [of _ "Suc _"])
  then show ?case
    by auto
next
  case (step r)
  then show ?case by auto
qed

lemma flip_bit_xor:
  assumes "r < length data"
  shows "flip_bit data r e
    = xor_blocks data (replicate r 0 @ [push_bit e 1] @ replicate (length data - r - 1) 0)"
proof (rule nth_equalityI)
  fix i
  assume "i < length (flip_bit data r e)"
  then show "flip_bit data r e ! i
      = xor_blocks data (replicate r 0 @ [push_bit e 1] @ replicate (length data - r - 1) 0) ! i"
    using assms by (cases "i = r") (auto simp: flip_bit_def nth_append)
qed (use assms in \<open>simp add: flip_bit_def\<close>)

lemma length_flip_bit [simp]: "length (flip_bit data r e) = length data"
  by (simp add: flip_bit_def)

lemma flip_block_values:
  fixes b :: u16
  assumes "b = push_bit k 1" "k < 16"
  shows "b \<noteq> 0" "b \<noteq> POLY"
proof -
  have "bit b i \<longleftrightarrow> i = k" for i
    using assms by (auto simp: bit_exp_iff)
  then have "bit b 0 \<noteq> bit POLY 0 \<or> bit b 15 \<noteq> bit POLY 15" and "bit b k \<noteq> bit (0 :: u16) k"
    by (auto simp: bit_POLY)
  then show "b \<noteq> 0" "b \<noteq> POLY"
    by auto
qed

lemma check_crc_flip_bit:
  assumes ok: "check_crc data c = Some True" and r: "r < length data" and e: "e < 8"
  shows "check_crc (flip_bit data r e) c = Some False"
proof -
  let ?err = "replicate r 0 @ [push_bit e (1 :: u8)] @ replicate (length data - r - 1) 0"
  let ?v = "if even r then ucast (push_bit e (1 :: u8)) else push_bit 8 (ucast (push_bit e (1 :: u8))) :: u16"
  obtain j where blocks: "blocks_of ?err = replicate (r div 2) 0 @ [?v] @ replicate j 0"
    using blocks_of_single_byte by blast
  have "?v = push_bit (if even r then e else 8 + e) 1"
    using e by (intro bit_word_eqI) (auto simp: bit_push_bit_iff bit_ucast_iff bit_exp_iff)
  with e have "?v \<noteq> 0" "?v \<noteq> POLY"
    using flip_block_values [of ?v "if even r then e else 8 + e"] by auto
  then show ?thesis
    unfolding flip_bit_xor [OF r]
    by (intro check_crc_burst [OF ok _ blocks]) (use r in auto)
qed

text \<open>A flipped bit of an odd number of bytes does not repair the check of their own checksum.\<close>

lemma check_crc_flip_bit_odd:
  assumes odd: "odd (length data)" and r: "r < length data" and e: "e < 8"
  shows "check_crc (flip_bit data r e) (crc_value data) = Some False"
proof -
  let ?err = "replicate r 0 @ [push_bit e (1 :: u8)] @ replicate (length data - r - 1) 0"
  let ?v = "if even r then ucast (push_bit e (1 :: u8)) else push_bit 8 (ucast (push_bit e (1 :: u8))) :: u16"
  obtain j where blocks: "blocks_of ?err = replicate (r div 2) 0 @ [?v] @ replicate j 0"
    using blocks_of_single_byte by blast
  have "?v = push_bit (if even r then e else 8 + e) 1"
    using e by (intro bit_word_eqI) (auto simp: bit_push_bit_iff bit_ucast_iff bit_exp_iff)
  then have "odd_bits ?v"
    using odd_bits_basis [of "if even r then e else 8 + e"] e by (simp add: push_bit_eq_mult)
  then show ?thesis
    unfolding flip_bit_xor [OF r]
    by (intro check_crc_odd_burst [OF odd _ blocks]) (use r in auto)
qed

section \<open>Frames\<close>

lemma check_message_crc_split:
  assumes hb: "length hb = 24" and small: "length data < 2 ^ 63"
  shows "check_message_crc (hb @ data) (24 + of_nat (length data)) =
    Some (check_crc (take 22 (poke hb 18 (le_bytes 2 (0 :: u16)))) (le_word (take 2 (drop 18 hb))) = Some True
          \<and> (data = [] \<or> check_crc data (le_word (take 2 (drop 16 hb))) = Some True), hb @ data)"
proof -
  have zeroed: "poke (hb @ data) 18 (le_bytes 2 (0 :: u16)) = poke hb 18 (le_bytes 2 (0 :: u16)) @ data"
    by (simp add: poke_def hb)
  have crc: "mh_header_checksum (message_header_of (hb @ data)) = le_word (take 2 (drop 18 hb))"
    by (simp add: message_header_of_def hb)
  have data_crc: "mh_data_checksum (message_header_of (poke hb 18 (le_bytes 2 (0 :: u16)) @ data))
      = le_word (take 2 (drop 16 hb))"
    by (simp add: message_header_of_def hb poke_def min_def take_drop)
  have unat_len: "unat (of_nat (length data) :: size_t) = length data"
    using small by (simp add: unat_of_nat)
  then have len0: "of_nat (length data) = (0 :: size_t) \<longleftrightarrow> data = []"
    using unat_eq_zero [of "of_nat (length data) :: size_t"] by simp
  have payload: "read_bytes (poke hb 18 (le_bytes 2 (0 :: u16)) @ data) 24 (length data) = Some data"
    by (simp add: read_bytes_def hb)
  obtain ok pok where ok: "check_crc (take 22 (poke hb 18 (le_bytes 2 (0 :: u16)))) (le_word (take 2 (drop 18 hb))) = Some ok"
    and pok: "check_crc data (le_word (take 2 (drop 16 hb))) = Some pok"
    by (simp add: check_crc_eq)
  have "\<exists>b. check_message_crc (hb @ data) (24 + of_nat (length data))
      = Some (ok \<and> (data = [] \<or> pok), b)"
    by (simp add: check_message_crc_def message_header_size_def Let_def zeroed crc data_crc hb ok pok
        unat_len len0 payload)
  then show ?thesis
    using check_message_crc_frame ok pok by fastforce
qed

lemma zeroed_header:
  "take 22 (poke (message_header_bytes mh) 18 (le_bytes 2 (0 :: u16)))
    = take 22 (message_header_bytes (mh\<lparr>mh_header_checksum := 0\<rparr>))"
  by (simp add: poke_def message_header_bytes_def)

lemma frame_of_Some:
  "frame_of mtype data = Some frame \<longleftrightarrow>
    (\<exists>mh. frame = message_header_bytes mh @ data \<and> mh_type mh = message_type_code mtype \<and>
      mh_len mh = 24 + of_nat (length data) \<and> mh_data_checksum mh = crc_value data \<and>
      mh_header_checksum mh = crc_value (take 22 (message_header_bytes (mh\<lparr>mh_header_checksum := 0\<rparr>))))"
proof
  assume "frame_of mtype data = Some frame"
  then show "\<exists>mh. frame = message_header_bytes mh @ data \<and> mh_type mh = message_type_code mtype \<and>
      mh_len mh = 24 + of_nat (length data) \<and> mh_data_checksum mh = crc_value data \<and>
      mh_header_checksum mh = crc_value (take 22 (message_header_bytes (mh\<lparr>mh_header_checksum := 0\<rparr>)))"
    by (auto simp: frame_of_def init_message_header_def get_crc_eq message_header_size_def Let_def)
next
  assume "\<exists>mh. frame = message_header_bytes mh @ data \<and> mh_type mh = message_type_code mtype \<and>
      mh_len mh = 24 + of_nat (length data) \<and> mh_data_checksum mh = crc_value data \<and>
      mh_header_checksum mh = crc_value (take 22 (message_header_bytes (mh\<lparr>mh_header_checksum := 0\<rparr>)))"
  then obtain mh where mh: "frame = message_header_bytes mh @ data" "mh_type mh = message_type_code mtype"
      "mh_len mh = 24 + of_nat (length data)" "mh_data_checksum mh = crc_value data"
      "mh_header_checksum mh = crc_value (take 22 (message_header_bytes (mh\<lparr>mh_header_checksum := 0\<rparr>)))"
    by blast
  then have "mh = \<lparr>mh_type = message_type_code mtype, mh_len = 24 + of_nat (length data),
      mh_data_checksum = crc_value data, mh_header_checksum = mh_header_checksum mh\<rparr>"
    by simp
  then show "frame_of mtype data = Some frame"
    using mh(1,5)
    by (auto simp: frame_of_def init_message_header_def get_crc_eq message_header_size_def Let_def)
       (metis message_header.update_convs(4))
qed

lemma frame_of_total: "\<exists>frame. frame_of mtype data = Some frame"
  by (simp add: frame_of_def init_message_header_def get_crc_eq)

lemma length_frame_of: "frame_of mtype data = Some frame \<Longrightarrow> length frame = 24 + length data"
  by (auto simp: frame_of_Some)

lemma header_slices:
  "(le_word (take 2 (drop 18 (message_header_bytes mh))) :: u16) = mh_header_checksum mh"
  "(le_word (take 2 (drop 16 (message_header_bytes mh))) :: u16) = mh_data_checksum mh"
  by (simp_all add: message_header_bytes_def)

lemma header_check_own:
  assumes "mh_header_checksum mh = crc_value (take 22 (message_header_bytes (mh\<lparr>mh_header_checksum := 0\<rparr>)))"
  shows "check_crc (take 22 (poke (message_header_bytes mh) 18 (le_bytes 2 (0 :: u16)))) (mh_header_checksum mh)
    = Some True"
  using assms by (simp add: zeroed_header check_crc_even)

lemma payload_check_own:
  "check_crc data (crc_value data) = Some (even (length data) \<or> crc_value data \<in> {0, 20882})"
  by (cases "even (length data)") (simp_all add: check_crc_even check_crc_odd)

lemma check_frame_of:
  assumes "frame_of mtype data = Some frame" "length data < 2 ^ 63"
  shows "check_message_crc frame (24 + of_nat (length data))
    = Some (even (length data) \<or> crc_value data \<in> {0, 20882}, frame)"
proof -
  obtain mh where mh: "frame = message_header_bytes mh @ data" "mh_data_checksum mh = crc_value data"
    "mh_header_checksum mh = crc_value (take 22 (message_header_bytes (mh\<lparr>mh_header_checksum := 0\<rparr>)))"
    using assms(1) by (auto simp: frame_of_Some)
  show ?thesis
    unfolding mh(1)
    by (subst check_message_crc_split [OF _ assms(2)])
       (auto simp: header_slices header_check_own [OF mh(3)] mh(2) payload_check_own)
qed

text \<open>
  A single flipped bit of a frame. Offsets 22 and 23 are the padding at the end of
  the header, which no checksum covers.
\<close>

lemma flip_bit_append:
  "r < length xs \<Longrightarrow> flip_bit (xs @ ys) r e = flip_bit xs r e @ ys"
  "length xs \<le> r \<Longrightarrow> flip_bit (xs @ ys) r e = xs @ flip_bit ys (r - length xs) e"
  by (auto simp: flip_bit_def list_update_append nth_append)

lemma flip_header_zeroed:
  assumes "length hb = 24" "r < 22" "r \<noteq> 18" "r \<noteq> 19"
  shows "take 22 (poke (flip_bit hb r e) 18 (le_bytes 2 (0 :: u16)))
    = flip_bit (take 22 (poke hb 18 (le_bytes 2 (0 :: u16)))) r e"
    and "take 2 (drop 18 (flip_bit hb r e)) = take 2 (drop 18 hb)"
proof -
  have "r < 18 \<or> r = 20 \<or> r = 21"
    using assms(2-4) by arith
  then show "take 22 (poke (flip_bit hb r e) 18 (le_bytes 2 (0 :: u16)))
      = flip_bit (take 22 (poke hb 18 (le_bytes 2 (0 :: u16)))) r e"
    and "take 2 (drop 18 (flip_bit hb r e)) = take 2 (drop 18 hb)"
    using assms(1)
    by (auto simp: flip_bit_def poke_def le_bytes_2 take_update_swap drop_update_swap
        list_update_append nth_append list_update_beyond min_def)
qed

lemma flip_header_slices:
  assumes "length hb = 24" "r = 18 \<or> r = 19 \<or> r = 22 \<or> r = 23"
  shows "take 22 (poke (flip_bit hb r e) 18 (le_bytes 2 (0 :: u16))) = take 22 (poke hb 18 (le_bytes 2 (0 :: u16)))"
    and "take 2 (drop 16 (flip_bit hb r e)) = take 2 (drop 16 hb)"
    and "22 \<le> r \<Longrightarrow> take 2 (drop 18 (flip_bit hb r e)) = take 2 (drop 18 hb)"
    and "r < 22 \<Longrightarrow> take 2 (drop 18 (flip_bit hb r e)) = flip_bit (take 2 (drop 18 hb)) (r - 18) e"
  using assms
  by (auto simp: flip_bit_def poke_def take_update_swap drop_update_swap list_update_beyond)

lemma le_word_flip_bit:
  assumes "length bs = 2" "k < 2" "e < 8"
  shows "(le_word (flip_bit bs k e) :: u16) = le_word bs XOR push_bit (8 * k + e) 1"
proof -
  obtain x y where bs: "bs = [x, y]"
    using assms(1) by (auto simp: length_Suc_conv eval_nat_numeral)
  have "k = 0 \<or> k = 1" using assms(2) by auto
  moreover have "\<not> bit x (8 + e)"
    using bit_imp_le_length [of x "8 + e"] by auto
  ultimately show ?thesis
    using assms(3) unfolding bs
    by (intro bit_word_eqI)
       (auto simp: flip_bit_def bit_or_iff bit_xor_iff bit_push_bit_iff bit_ucast_iff bit_exp_iff)
qed

lemma check_crc_flip_checksum:
  assumes "check_crc data c = Some True" "even (length data)" "k < 16"
  shows "check_crc data (c XOR push_bit k 1) = Some False"
proof -
  have v: "push_bit k (1 :: u16) \<noteq> 0" "push_bit k (1 :: u16) \<noteq> POLY"
    using flip_block_values [OF refl assms(3)] by auto
  have "lfsr16 (crc_value data XOR c) = 0"
    using assms(1) by (simp add: check_crc_eq crc_value_append_even [OF assms(2)])
  then have "crc_value (data @ le_bytes 2 (c XOR push_bit k 1)) = lfsr16 (push_bit k 1)"
    unfolding crc_value_append_even [OF assms(2)] xor.assoc [symmetric] by (simp add: lfsr16_xor)
  then show ?thesis
    using v by (simp add: check_crc_eq lfsr16_eq_0_iff)
qed

lemma check_flipped_frame:
  assumes frame: "frame_of mtype data = Some frame" and len: "length data < 2 ^ 63"
    and flip: "r < length frame" "e < 8"
  shows "check_message_crc (flip_bit frame r e) (24 + of_nat (length data))
    = Some ((r = 22 \<or> r = 23) \<and> (even (length data) \<or> crc_value data \<in> {0, 20882}), flip_bit frame r e)"
proof -
  obtain mh where mh: "frame = message_header_bytes mh @ data" "mh_data_checksum mh = crc_value data"
    "mh_header_checksum mh = crc_value (take 22 (message_header_bytes (mh\<lparr>mh_header_checksum := 0\<rparr>)))"
    using frame by (auto simp: frame_of_Some)
  let ?hb = "message_header_bytes mh"
  have own: "check_crc (take 22 (poke ?hb 18 (le_bytes 2 (0 :: u16)))) (mh_header_checksum mh) = Some True"
    by (rule header_check_own [OF mh(3)])
  have pay: "check_crc data (mh_data_checksum mh) = Some (even (length data) \<or> crc_value data \<in> {0, 20882})"
    by (simp add: mh(2) payload_check_own)
  note split = check_message_crc_split [OF _ len]
  consider (pad) "r = 22 \<or> r = 23" | (crc) "r = 18 \<or> r = 19" | (head) "r < 22" "r \<noteq> 18" "r \<noteq> 19" | (data) "24 \<le> r"
    by linarith
  then show ?thesis
  proof cases
    case pad
    then have "r < length ?hb" by auto
    with pad show ?thesis
      unfolding mh(1) flip_bit_append(1) [OF \<open>r < length ?hb\<close>]
      by (subst split) (auto simp: flip_header_slices header_slices own pay)
  next
    case crc
    then have "r < length ?hb" by auto
    have "(le_word (take 2 (drop 18 (flip_bit ?hb r e))) :: u16)
        = mh_header_checksum mh XOR push_bit (8 * (r - 18) + e) 1"
      using crc flip(2) by (subst flip_header_slices(4)) (auto simp: le_word_flip_bit header_slices)
    then have "check_crc (take 22 (poke (flip_bit ?hb r e) 18 (le_bytes 2 (0 :: u16))))
        (le_word (take 2 (drop 18 (flip_bit ?hb r e)))) = Some False"
      using crc flip(2) check_crc_flip_checksum [OF own, of "8 * (r - 18) + e"]
      by (auto simp: flip_header_slices(1))
    with crc show ?thesis
      unfolding mh(1) flip_bit_append(1) [OF \<open>r < length ?hb\<close>] by (subst split) auto
  next
    case head
    then have "r < length ?hb" by auto
    have "check_crc (take 22 (poke (flip_bit ?hb r e) 18 (le_bytes 2 (0 :: u16))))
        (le_word (take 2 (drop 18 (flip_bit ?hb r e)))) = Some False"
      using head check_crc_flip_bit [OF own, of r e] flip(2)
      by (simp add: flip_header_zeroed header_slices)
    with head show ?thesis
      unfolding mh(1) flip_bit_append(1) [OF \<open>r < length ?hb\<close>] by (subst split) auto
  next
    case data
    then have "length ?hb \<le> r" by simp
    have "r - 24 < length data" "data \<noteq> []"
      using data flip(1) mh(1) by auto
    then have "check_crc (flip_bit data (r - 24) e) (mh_data_checksum mh) = Some False"
      using check_crc_flip_bit [of data "mh_data_checksum mh" "r - 24" e] check_crc_flip_bit_odd [of data "r - 24" e] pay flip(2)
      by (cases "even (length data)") (simp_all add: mh(2))
    then show ?thesis
      unfolding mh(1) flip_bit_append(2) [OF \<open>length ?hb \<le> r\<close>]
      using data \<open>data \<noteq> []\<close> check_message_crc_split [of ?hb "flip_bit data (r - 24) e"] len
      by (auto simp: header_slices flip_bit_def)
  qed
qed

text \<open>The header of a built frame passes its check and reads back.\<close>

lemma frame_head:
  assumes "frame_of mtype data = Some frame" "length data < 2 ^ 63"
  shows "message_header_of (take 24 frame) = message_header_of frame"
    "mh_type (message_header_of frame) = message_type_code mtype"
    "mh_len (message_header_of frame) = 24 + of_nat (length data)"
    "unat (mh_len (message_header_of frame)) = 24 + length data"
    "check_message_crc (take 24 frame) 24 = Some (True, take 24 frame)"
    "drop 24 frame = data" "length frame = 24 + length data"
proof -
  obtain mh where mh: "frame = message_header_bytes mh @ data" "mh_type mh = message_type_code mtype"
    "mh_len mh = 24 + of_nat (length data)"
    "mh_header_checksum mh = crc_value (take 22 (message_header_bytes (mh\<lparr>mh_header_checksum := 0\<rparr>)))"
    using assms(1) by (auto simp: frame_of_Some)
  have hdr: "take 24 frame = message_header_bytes mh"
    by (simp add: mh(1))
  show "message_header_of (take 24 frame) = message_header_of frame"
    using message_header_of_bytes [of mh data] message_header_of_bytes [of mh "[]"] by (simp add: hdr mh(1))
  have "mh_len mh = of_nat (24 + length data)"
    by (simp add: mh(3))
  then have "unat (mh_len mh) = 24 + length data"
    using assms(2) by (simp only: unat_of_nat) simp
  then show "mh_type (message_header_of frame) = message_type_code mtype"
    "mh_len (message_header_of frame) = 24 + of_nat (length data)"
    "unat (mh_len (message_header_of frame)) = 24 + length data"
    by (simp_all add: mh(1-3))
  show "check_message_crc (take 24 frame) 24 = Some (True, take 24 frame)"
    using check_message_crc_split [of "message_header_bytes mh" "[]"] header_check_own [OF mh(4)]
    by (simp add: hdr header_slices)
  show "drop 24 frame = data" "length frame = 24 + length data"
    by (simp_all add: mh(1))
qed

section \<open>Ports\<close>

definition EINVAL :: int where "EINVAL = 22"

definition ERANGE :: int where "ERANGE = 34"

text \<open>
  \<^verbatim>\<open>strtoul\<close> in base 10: white space, an optional sign, digits. Without digits the value is 0, and it is up
  to the library whether \<^verbatim>\<open>errno\<close> becomes \<^verbatim>\<open>EINVAL\<close> (the argument \<open>set_einval\<close>). A value above
  \<^verbatim>\<open>ULONG_MAX\<close> gives \<^verbatim>\<open>ULONG_MAX\<close> and \<^verbatim>\<open>ERANGE\<close>; a minus sign negates in \<^verbatim>\<open>unsigned long\<close>.
\<close>

definition isspace :: "char \<Rightarrow> bool" where
  "isspace c \<longleftrightarrow> (of_char c :: nat) \<in> {9, 10, 11, 12, 13, 32}"

definition isdigit :: "char \<Rightarrow> bool" where
  "isdigit c \<longleftrightarrow> 48 \<le> (of_char c :: nat) \<and> (of_char c :: nat) \<le> 57"

definition digits_value :: "string \<Rightarrow> nat" where
  "digits_value ds = foldl (\<lambda>v c. 10 * v + (of_char c - 48)) 0 ds"

definition strtoul :: "bool \<Rightarrow> int \<Rightarrow> string \<Rightarrow> u64 \<times> int" where
  "strtoul set_einval errno str =
     (let s = dropWhile isspace str;
          (neg, s') = (case s of c # cs \<Rightarrow> if c = CHR ''-'' then (True, cs) else if c = CHR ''+'' then (False, cs)
                         else (False, s) | [] \<Rightarrow> (False, []));
          ds = takeWhile isdigit s'; v = digits_value ds
      in if ds = [] then (0, if set_einval then EINVAL else errno)
         else if 2 ^ 64 \<le> v then (- 1, ERANGE)
         else (if neg then - of_nat v else of_nat v, errno))"

definition htons :: "u16 \<Rightarrow> u16" where
  "htons w = push_bit 8 w OR drop_bit 8 w"

text \<open>The return value, the port in network byte order and \<^verbatim>\<open>errno\<close>, from the string and the \<^verbatim>\<open>errno\<close> of earlier calls.\<close>

definition convert_port :: "bool \<Rightarrow> int \<Rightarrow> string \<Rightarrow> int \<times> u16 \<times> int" where
  "convert_port set_einval errno chport =
     (let (uliport, errno') = strtoul set_einval errno chport
      in if uliport = 0 \<and> (errno' = EINVAL \<or> errno' = ERANGE) then (- 1, 0, errno')
         else (0, htons (ucast uliport), errno'))"

text \<open>Decimal numerals.\<close>

fun decimal :: "nat \<Rightarrow> string" where
  "decimal n = (if n < 10 then [char_of (48 + n)] else decimal (n div 10) @ [char_of (48 + n mod 10)])"

declare decimal.simps [simp del]

lemma of_char_digit: "n < 10 \<Longrightarrow> of_char (char_of (48 + n) :: char) = (48 + n :: nat)"
  by simp

lemma decimal_digits: "\<forall>c \<in> set (decimal n). isdigit c"
proof (induction n rule: decimal.induct)
  case (1 n)
  show ?case
    by (subst decimal.simps) (use 1 in \<open>auto simp: isdigit_def\<close>)
qed

lemma decimal_value: "digits_value (decimal n) = n"
proof (induction n rule: decimal.induct)
  case (1 n)
  show ?case
    by (subst decimal.simps) (use 1 in \<open>auto simp: digits_value_def\<close>)
qed

lemma decimal_not_Nil [simp]: "decimal n \<noteq> []"
  by (subst decimal.simps) simp

lemma isdigit_not_sign: "isdigit c \<Longrightarrow> \<not> isspace c \<and> c \<noteq> CHR ''-'' \<and> c \<noteq> CHR ''+''"
  by (auto simp: isdigit_def isspace_def)

lemma strtoul_decimal:
  assumes "n < 2 ^ 64"
  shows "strtoul set_einval errno (decimal n) = (of_nat n, errno)"
proof -
  obtain c cs where cs: "decimal n = c # cs"
    by (cases "decimal n") auto
  have "isdigit c" "takeWhile isdigit cs = cs"
    using decimal_digits [of n] by (auto simp: cs takeWhile_eq_all_conv)
  then show ?thesis
    using assms isdigit_not_sign [of c] decimal_value [of n]
    by (simp add: strtoul_def cs Let_def del: takeWhile_eq_all_conv)
qed

lemma bit_word_of_nat: "bit (of_nat n :: 'a::len word) i \<longleftrightarrow> i < LENGTH('a) \<and> bit n i"
  by transfer (simp add: bit_of_nat_iff_bit)

lemma le_bytes_htons: "le_bytes 2 (htons w) = [ucast (drop_bit 8 w), ucast w]"
proof -
  have "ucast (push_bit 8 w OR drop_bit 8 w) = (ucast (drop_bit 8 w) :: u8)"
    by (rule bit_word_eqI) (auto simp: bit_or_iff bit_push_bit_iff bit_ucast_iff bit_drop_bit_eq)
  moreover have "ucast (drop_bit 8 (push_bit 8 w OR drop_bit 8 w)) = (ucast w :: u8)"
    by (rule bit_word_eqI)
       (auto simp: bit_or_iff bit_push_bit_iff bit_ucast_iff bit_drop_bit_eq dest: bit_imp_le_length)
  ultimately show ?thesis
    by (simp add: htons_def le_bytes_2)
qed

section \<open>Properties of frames and ports\<close>

text \<open>
  C29: Building a frame always succeeds. The frame is one header longer than its payload, and the code's own check
  reads it without leaving the buffer, leaves it unchanged and accepts it exactly when the payload has even length,
  or its checksum is one of the two fixed values 0 and 20882: frames around other payloads of odd length are rejected
  by every receiver.
\<close>

theorem frame_accepted_iff:
  assumes "length data < 2 ^ 63"
  shows "\<exists>frame. frame_of mtype data = Some frame \<and> length frame = 24 + length data \<and>
    check_message_crc frame (24 + of_nat (length data))
      = Some (even (length data) \<or> crc_value data \<in> {0, 20882}, frame)"
proof -
  obtain frame where "frame_of mtype data = Some frame"
    using frame_of_total by blast
  then show ?thesis
    using check_frame_of [OF _ assms] length_frame_of by blast
qed

theorem frame_accepted_iff_witness:
  "\<exists>frame. frame_of P2P [1 :: u8] = Some frame \<and> length frame = 24 + length [1 :: u8] \<and>
    check_message_crc frame (24 + of_nat (length [1 :: u8]))
      = Some (even (length [1 :: u8]) \<or> crc_value [1] \<in> {0, 20882}, frame)"
  by (rule frame_accepted_iff) simp

text \<open>
  C30: When \<^verbatim>\<open>send_message\<close> mutates a frame, the receiver's check rejects what was sent wherever the flipped bit is in the header or
  in the payload, whether the payload has even or odd length; only a bit in the two checked-by-nobody padding bytes 22 and 23 of
  the header leaves the verdict on the frame as it is without the mutation.
\<close>

theorem mutated_frame_rejected:
  assumes "frame_of mtype data = Some frame" "length data < 2 ^ 63" "rand0 mod 100 < chance"
  shows "\<exists>sent. send_message chance (rand0, rand1, rand2) frame = Some sent \<and>
    check_message_crc sent (24 + of_nat (length data)) =
      Some (rand2 mod length frame \<in> {22, 23} \<and> (even (length data) \<or> crc_value data \<in> {0, 20882}), sent)"
proof -
  have "frame \<noteq> []"
    using length_frame_of [OF assms(1)] by auto
  then have sent: "send_message chance (rand0, rand1, rand2) frame
      = Some (flip_bit frame (rand2 mod length frame) (rand1 mod 8))"
    using assms(3) by (simp add: send_message_def flip_random_bit_def Let_def)
  have "rand2 mod length frame < length frame" "rand1 mod 8 < 8"
    using \<open>frame \<noteq> []\<close> by auto
  from check_flipped_frame [OF assms(1,2) this] sent show ?thesis
    by auto
qed

text \<open>An even payload with a flip in the padding and an odd one with a flip in the payload.\<close>

theorem mutated_frame_rejected_witness:
  "(\<exists>frame sent. frame_of NETINFO [] = Some frame \<and> send_message 5 (104, 11, 22) frame = Some sent \<and>
      check_message_crc sent (24 + of_nat (length ([] :: bytes))) = Some (True, sent)) \<and>
   (\<exists>frame sent. frame_of P2P [1 :: u8] = Some frame \<and> send_message 5 (104, 11, 24) frame = Some sent \<and>
      check_message_crc sent (24 + of_nat (length [1 :: u8])) = Some (False, sent))"
proof -
  obtain frame frame' where frames: "frame_of NETINFO [] = Some frame" "frame_of P2P [1 :: u8] = Some frame'"
    using frame_of_total by blast
  then have "length frame = 24" "length frame' = 25"
    using length_frame_of by fastforce+
  with mutated_frame_rejected [OF frames(1), of 104 5 11 22] mutated_frame_rejected [OF frames(2), of 104 5 11 24] frames
  show ?thesis
    by auto
qed

text \<open>
  A decimal port is parsed to its value modulo 65536 in network byte order, whatever \<^verbatim>\<open>errno\<close> was: ports below
  65536 arrive exactly, larger ones are truncated without an error.
\<close>

lemma convert_port_decimal:
  assumes "0 < n" "n < 2 ^ 64"
  shows "\<exists>port. convert_port set_einval errno (decimal n) = (0, port, errno) \<and>
    le_bytes 2 port = [of_nat (n div 256), of_nat n]"
proof -
  have "of_nat n \<noteq> (0 :: u64)"
    using assms by (simp add: word_of_nat_eq_0_iff nat_dvd_not_less)
  then have "convert_port set_einval errno (decimal n) = (0, htons (ucast (of_nat n :: u64)), errno)"
    by (simp add: convert_port_def strtoul_decimal [OF assms(2)])
  moreover have div256: "n div 256 = drop_bit 8 n"
    by (simp add: drop_bit_eq_div)
  moreover have "ucast (drop_bit 8 (ucast (of_nat n :: u64) :: u16)) = (of_nat (n div 256) :: u8)"
    unfolding div256
    by (rule bit_word_eqI) (auto simp: bit_ucast_iff bit_drop_bit_eq bit_word_of_nat)
  moreover have "ucast (ucast (of_nat n :: u64) :: u16) = (of_nat n :: u8)"
    by (rule bit_word_eqI) (auto simp: bit_ucast_iff bit_word_of_nat)
  ultimately show ?thesis
    by (simp add: le_bytes_htons)
qed

text \<open>
  Where the library leaves \<^verbatim>\<open>errno\<close> alone on a string without digits, the documented error value is never returned for such a
  string after calls that went well: the port becomes 0 and the result is success.
\<close>

lemma convert_port_no_digits:
  assumes "\<forall>c \<in> set chport. \<not> isdigit c" "errno \<noteq> EINVAL" "errno \<noteq> ERANGE"
  shows "convert_port False errno chport = (0, 0, errno)"
proof -
  have nodigit: "takeWhile isdigit s = []" if "set s \<subseteq> set chport" for s
    using that assms(1) by (cases s) auto
  have "set (dropWhile isspace chport) \<subseteq> set chport"
    by (auto dest: set_dropWhileD)
  then have "takeWhile isdigit (dropWhile isspace chport) = []"
    "\<And>c cs. dropWhile isspace chport = c # cs \<Longrightarrow> takeWhile isdigit cs = []"
    by (auto intro!: nodigit simp del: takeWhile_eq_Nil_iff)
  then have "strtoul False errno chport = (0, errno)"
    by (auto simp: strtoul_def Let_def split: list.splits)
  then show ?thesis
    using assms by (simp add: convert_port_def htons_def)
qed

end
