(* ===== verification/Db.thy ===== *)
theory Db
  imports Common Refinement "HOL-Library.AList"
begin

text \<open>
  The tracker's table of peers, \<^verbatim>\<open>application/p2p/db.h\<close> and \<^verbatim>\<open>application/p2p/db.c\<close>. The adapter only
  issues SQL statements; the model is the meaning of those statements on the table
  \<^verbatim>\<open>PeerInfo\<close>, a list of rows in insertion order, with the current time an argument. The rows hold the
  BLOBs the code binds, and the result callbacks decode them again. The table refines a finite map
  from peer addresses to heartbeats.
\<close>

section \<open>Rows and statements\<close>

record peer_row =
  row_family :: bytes
  row_port :: bytes
  row_addr :: bytes
  row_heartbeat :: int

type_synonym peer_table = "peer_row list"

text \<open>
  How a call can fail: an SQL error is reported and ends the process; a result row written outside
  the array that was allocated for it corrupts the heap.
\<close>

datatype db_error = SqliteExit | HeapOverflow

text \<open>The three BLOBs bound for an address, \<^verbatim>\<open>_bind_sqlite3_peeraddress\<close>.\<close>

definition bind_peeraddress :: "peer_address \<Rightarrow> bytes \<times> bytes \<times> bytes" where
  "bind_peeraddress pa = (le_bytes 2 (pa_family pa), le_bytes 2 (pa_port pa), le_bytes 4 (pa_addr pa))"

definition row_key :: "peer_row \<Rightarrow> bytes \<times> bytes \<times> bytes" where
  "row_key r = (row_family r, row_port r, row_addr r)"

text \<open>
  Every operation takes whether SQLite prepared, bound and executed its statements without an error of
  its own; otherwise the process exits.
\<close>

definition db_peer_exists :: "bool \<Rightarrow> peer_table \<Rightarrow> peer_address \<Rightarrow> db_error + nat" where
  "db_peer_exists sqlite_ok t pa =
     (if sqlite_ok then Inr (length (filter (\<lambda>r. row_key r = bind_peeraddress pa) t)) else Inl SqliteExit)"

text \<open>\<^verbatim>\<open>INSERT\<close> fails on a row whose primary key is taken.\<close>

definition db_insert_peer :: "bool \<Rightarrow> int \<Rightarrow> peer_table \<Rightarrow> peer_address \<Rightarrow> db_error + peer_table" where
  "db_insert_peer sqlite_ok now t pa =
     (if sqlite_ok \<and> bind_peeraddress pa \<notin> row_key ` set t
      then Inr (t @ [case bind_peeraddress pa of (f, p, a) \<Rightarrow>
                  \<lparr>row_family = f, row_port = p, row_addr = a, row_heartbeat = now\<rparr>])
      else Inl SqliteExit)"

definition db_update_peer_heartbeat :: "bool \<Rightarrow> int \<Rightarrow> peer_table \<Rightarrow> peer_address \<Rightarrow> db_error + peer_table" where
  "db_update_peer_heartbeat sqlite_ok now t pa =
     (if sqlite_ok
      then Inr (map (\<lambda>r. if row_key r = bind_peeraddress pa then r\<lparr>row_heartbeat := now\<rparr> else r) t)
      else Inl SqliteExit)"

definition db_remove_outdated_peers :: "bool \<Rightarrow> int \<Rightarrow> peer_table \<Rightarrow> int \<Rightarrow> db_error + peer_table" where
  "db_remove_outdated_peers sqlite_ok now t timeout_threshold =
     (if sqlite_ok then Inr (filter (\<lambda>r. \<not> now - row_heartbeat r > timeout_threshold) t) else Inl SqliteExit)"

definition db_remove_peer :: "bool \<Rightarrow> peer_table \<Rightarrow> peer_address \<Rightarrow> db_error + peer_table" where
  "db_remove_peer sqlite_ok t pa =
     (if sqlite_ok then Inr (filter (\<lambda>r. row_key r \<noteq> bind_peeraddress pa) t) else Inl SqliteExit)"

text \<open>Opening creates the table unless the database file has it already.\<close>

definition db_open :: "bool \<Rightarrow> bool \<Rightarrow> peer_table option \<Rightarrow> db_error + peer_table" where
  "db_open open_ok create_ok existing =
     (if open_ok \<and> create_ok then Inr (case existing of Some t \<Rightarrow> t | None \<Rightarrow> []) else Inl SqliteExit)"

text \<open>The rows a query over live peers selects.\<close>

definition live :: "int \<Rightarrow> int \<Rightarrow> peer_row \<Rightarrow> bool" where
  "live now timeout_threshold r \<longleftrightarrow> now - row_heartbeat r < timeout_threshold"

definition get_number_of_peers :: "bool \<Rightarrow> int \<Rightarrow> peer_table \<Rightarrow> int \<Rightarrow> db_error + nat" where
  "get_number_of_peers sqlite_ok now t timeout_threshold =
     (if sqlite_ok then Inr (length (filter (live now timeout_threshold) t)) else Inl SqliteExit)"

section \<open>Reading rows back\<close>

definition bytosui :: "bytes \<Rightarrow> u16" where
  "bytosui bs = ucast (bs ! 0) + push_bit 8 (ucast (bs ! 1))"

definition bytoui :: "bytes \<Rightarrow> u32" where
  "bytoui bs = ucast (bytosui bs) + push_bit 16 (ucast (bytosui (drop 2 bs)))"

definition row_address :: "peer_row \<Rightarrow> peer_address" where
  "row_address r =
     \<lparr>pa_family = bytosui (row_family r), pa_port = bytosui (row_port r), pa_addr = bytoui (row_addr r)\<rparr>"

record peer_info =
  pi_sockaddr :: peer_address
  pi_heartbeat :: u64

text \<open>
  The callbacks store row number \<open>num\<close> (counted from 1 by \<^verbatim>\<open>ROW_NUMBER\<close>) at index \<open>num - 1\<close> of the
  allocated array, whose entries are \<open>None\<close> until written.
\<close>

definition fill_peeraddress_table ::
  "nat \<times> peer_row \<Rightarrow> peer_address option list \<Rightarrow> db_error + peer_address option list" where
  "fill_peeraddress_table = (\<lambda>(row_number, r) data.
     let num = row_number - 1
     in if num < length data then Inr (data[num := Some (row_address r)]) else Inl HeapOverflow)"

definition fill_peerinfo_table ::
  "nat \<times> peer_row \<Rightarrow> peer_info option list \<Rightarrow> db_error + peer_info option list" where
  "fill_peerinfo_table = (\<lambda>(row_number, r) data.
     let num = row_number - 1
     in if num < length data
        then Inr (data[num := Some \<lparr>pi_sockaddr = row_address r, pi_heartbeat = of_int (row_heartbeat r)\<rparr>])
        else Inl HeapOverflow)"

text \<open>\<^verbatim>\<open>sqlite3_exec\<close> calls the callback once per result row.\<close>

fun exec_rows :: "('r \<Rightarrow> 'd \<Rightarrow> 'e + 'd) \<Rightarrow> 'r list \<Rightarrow> 'd \<Rightarrow> 'e + 'd" where
  "exec_rows cb [] d = Inr d"
| "exec_rows cb (r # rs) d = (case cb r d of Inl e \<Rightarrow> Inl e | Inr d' \<Rightarrow> exec_rows cb rs d')"

definition number_rows :: "peer_row list \<Rightarrow> (nat \<times> peer_row) list" where
  "number_rows rs = zip [1..<Suc (length rs)] rs"

text \<open>
  The number of peers is fetched by one statement and the rows by a second one; other threads of the
  tracker may change the table in between, so the two statements have their own time and table.
\<close>

definition db_get_all_peer_addresses ::
  "bool \<Rightarrow> int \<times> peer_table \<Rightarrow> int \<times> peer_table \<Rightarrow> int \<Rightarrow> db_error + peer_address option list" where
  "db_get_all_peer_addresses sqlite_ok count_at select_at timeout_threshold =
     (let (now1, t1) = count_at; (now2, t2) = select_at
      in case get_number_of_peers sqlite_ok now1 t1 timeout_threshold of
           Inl e \<Rightarrow> Inl e
         | Inr n_items \<Rightarrow>
             exec_rows fill_peeraddress_table (number_rows (filter (live now2 timeout_threshold) t2))
               (replicate n_items None))"

definition db_get_all_peer_info ::
  "bool \<Rightarrow> int \<times> peer_table \<Rightarrow> int \<times> peer_table \<Rightarrow> int \<Rightarrow> db_error + peer_info option list" where
  "db_get_all_peer_info sqlite_ok count_at select_at timeout_threshold =
     (let (now1, t1) = count_at; (now2, t2) = select_at
      in case get_number_of_peers sqlite_ok now1 t1 timeout_threshold of
           Inl e \<Rightarrow> Inl e
         | Inr n_items \<Rightarrow>
             exec_rows fill_peerinfo_table (number_rows (filter (live now2 timeout_threshold) t2))
               (replicate n_items None))"

section \<open>Decoding\<close>

lemma bytosui_le_bytes [simp]: "bytosui (le_bytes 2 w @ rest) = w"
proof -
  have "ucast (ucast w :: u8) AND push_bit 8 (ucast (ucast (drop_bit 8 w) :: u8)) = (0 :: u16)"
    by (rule bit_word_eqI) (auto simp: bit_and_iff bit_push_bit_iff bit_ucast_iff dest: bit_imp_le_length)
  then show ?thesis
    by (simp add: bytosui_def le_bytes_2 disjunctive_add_eq_or block_of_le_bytes)
qed

lemma le_bytes_4_split: "le_bytes 4 (w :: u32) = le_bytes 2 (ucast w :: u16) @ le_bytes 2 (ucast (drop_bit 16 w) :: u16)"
proof -
  have "ucast (drop_bit k w) = (ucast (drop_bit k (ucast w :: u16)) :: u8)" if "k \<le> 8" for k
    by (rule bit_word_eqI) (use that in \<open>auto simp: bit_ucast_iff bit_drop_bit_eq\<close>)
  from this [of 0] this [of 8] show ?thesis
    by (simp add: eval_nat_numeral drop_bit_drop_bit) (auto intro!: bit_word_eqI simp: bit_ucast_iff bit_drop_bit_eq)
qed

lemma bytoui_le_bytes [simp]: "bytoui (le_bytes 4 w) = w"
proof -
  have "ucast (ucast w :: u16) AND push_bit 16 (ucast (ucast (drop_bit 16 w) :: u16)) = (0 :: u32)"
    by (rule bit_word_eqI) (auto simp: bit_and_iff bit_push_bit_iff bit_ucast_iff dest: bit_imp_le_length)
  moreover have "ucast (ucast w :: u16) OR push_bit 16 (ucast (ucast (drop_bit 16 w) :: u16)) = w"
    by (rule bit_word_eqI) (auto simp: bit_or_iff bit_push_bit_iff bit_ucast_iff bit_drop_bit_eq)
  ultimately show ?thesis
    using bytosui_le_bytes [of "ucast (drop_bit 16 w)" "[]"]
    by (simp add: bytoui_def le_bytes_4_split disjunctive_add_eq_or)
qed


definition address_row :: "peer_address \<Rightarrow> int \<Rightarrow> peer_row" where
  "address_row pa hb = (case bind_peeraddress pa of (f, p, a) \<Rightarrow>
     \<lparr>row_family = f, row_port = p, row_addr = a, row_heartbeat = hb\<rparr>)"

lemma address_row_simps [simp]:
  "row_key (address_row pa hb) = bind_peeraddress pa"
  "row_address (address_row pa hb) = pa"
  "row_heartbeat (address_row pa hb) = hb"
  using bytosui_le_bytes [of _ "[]"]
  by (simp_all add: address_row_def bind_peeraddress_def row_key_def row_address_def)

lemma row_update_heartbeat [simp]:
  "row_key (r\<lparr>row_heartbeat := hb\<rparr>) = row_key r" "row_address (r\<lparr>row_heartbeat := hb\<rparr>) = row_address r"
  by (simp_all add: row_key_def row_address_def)

section \<open>Well-formed tables\<close>

text \<open>Every row holds the BLOBs of the address it decodes to, and no address has two rows.\<close>

definition table_inv :: "peer_table \<Rightarrow> bool" where
  "table_inv t \<longleftrightarrow> (\<forall>r \<in> set t. row_key r = bind_peeraddress (row_address r)) \<and> distinct (map row_address t)"

lemma table_inv_Nil [simp]: "table_inv []"
  by (simp add: table_inv_def)

lemma bind_peeraddress_inj: "bind_peeraddress a = bind_peeraddress b \<longleftrightarrow> a = b"
  by (metis address_row_def address_row_simps(2))

lemma row_key_iff: "table_inv t \<Longrightarrow> r \<in> set t \<Longrightarrow> row_key r = bind_peeraddress pa \<longleftrightarrow> row_address r = pa"
  by (auto simp: table_inv_def bind_peeraddress_inj)

lemma key_in_table_iff:
  "table_inv t \<Longrightarrow> bind_peeraddress pa \<in> row_key ` set t \<longleftrightarrow> pa \<in> row_address ` set t"
  using row_key_iff [of t _ pa] by (metis (no_types, lifting) image_iff)

lemma table_inv_filter: "table_inv t \<Longrightarrow> table_inv (filter P t)"
  by (auto simp: table_inv_def distinct_map_filter)

lemma table_inv_insert:
  "table_inv t \<Longrightarrow> pa \<notin> row_address ` set t \<Longrightarrow> table_inv (t @ [address_row pa hb])"
  by (auto simp: table_inv_def)

lemma table_inv_heartbeat:
  "table_inv t \<Longrightarrow> table_inv (map (\<lambda>r. if P r then r\<lparr>row_heartbeat := hb\<rparr> else r) t)"
proof -
  have "map row_address (map (\<lambda>r. if P r then r\<lparr>row_heartbeat := hb\<rparr> else r) t) = map row_address t"
    by simp
  then show "table_inv t \<Longrightarrow> table_inv (map (\<lambda>r. if P r then r\<lparr>row_heartbeat := hb\<rparr> else r) t)"
    unfolding table_inv_def by (auto simp del: map_map)
qed

section \<open>Refinement of a finite map\<close>

text \<open>The specification of the table: the last heartbeat of every known address.\<close>

type_synonym peer_map = "peer_address \<Rightarrow> int option"

definition db_abs :: "peer_table \<Rightarrow> peer_map" where
  "db_abs t = map_of (map (\<lambda>r. (row_address r, row_heartbeat r)) t)"

lemma dom_db_abs: "dom (db_abs t) = row_address ` set t"
  by (simp add: db_abs_def dom_map_of_conv_image_fst image_image)

lemma finite_dom_db_abs [simp]: "finite (dom (db_abs t))"
  by (simp add: dom_db_abs)

lemma db_abs_eq_Some_iff:
  "table_inv t \<Longrightarrow> db_abs t pa = Some hb \<longleftrightarrow> (\<exists>r \<in> set t. row_address r = pa \<and> row_heartbeat r = hb)"
  by (subst db_abs_def, subst map_of_eq_Some_iff) (auto simp: table_inv_def o_def)

lemma db_abs_insert:
  "pa \<notin> row_address ` set t \<Longrightarrow> db_abs (t @ [address_row pa hb]) = (db_abs t)(pa \<mapsto> hb)"
proof (rule ext)
  fix x
  assume "pa \<notin> row_address ` set t"
  then have "db_abs t pa = None"
    using dom_db_abs by blast
  then show "db_abs (t @ [address_row pa hb]) x = ((db_abs t)(pa \<mapsto> hb)) x"
    by (cases "x = pa") (auto simp: db_abs_def map_add_def split: option.splits)
qed

lemma db_abs_filter:
  assumes "table_inv t"
  shows "db_abs (filter P t) = (\<lambda>pa. if \<exists>r \<in> set t. row_address r = pa \<and> P r then db_abs t pa else None)"
proof (rule ext)
  fix pa
  show "db_abs (filter P t) pa = (if \<exists>r \<in> set t. row_address r = pa \<and> P r then db_abs t pa else None)"
  proof (cases "db_abs (filter P t) pa")
    case None
    then have "pa \<notin> dom (db_abs (filter P t))" by blast
    with None show ?thesis by (auto simp: dom_db_abs)
  next
    case (Some hb)
    then show ?thesis
      using db_abs_eq_Some_iff [OF assms, of pa hb]
      by (auto simp: db_abs_eq_Some_iff [OF table_inv_filter [OF assms]])
  qed
qed

lemma db_abs_remove:
  "table_inv t \<Longrightarrow> db_abs (filter (\<lambda>r. row_key r \<noteq> bind_peeraddress pa) t) = (db_abs t)(pa := None)"
  unfolding db_abs_filter
proof (rule ext)
  fix x
  assume inv: "table_inv t"
  have "\<forall>r \<in> set t. row_address r \<noteq> x \<Longrightarrow> db_abs t x = None"
    using db_abs_eq_Some_iff [OF inv, of x] by (cases "db_abs t x") auto
  then show "(if \<exists>r \<in> set t. row_address r = x \<and> row_key r \<noteq> bind_peeraddress pa then db_abs t x else None)
      = ((db_abs t)(pa := None)) x"
    by (auto simp: row_key_iff [OF inv])
qed

lemma db_abs_outdated:
  assumes inv: "table_inv t"
  shows "db_abs (filter (\<lambda>r. \<not> now - row_heartbeat r > thr) t)
    = (\<lambda>pa. case db_abs t pa of Some hb \<Rightarrow> if now - hb > thr then None else Some hb | None \<Rightarrow> None)"
proof (rule ext)
  fix pa
  show "db_abs (filter (\<lambda>r. \<not> now - row_heartbeat r > thr) t) pa
    = (case db_abs t pa of Some hb \<Rightarrow> if now - hb > thr then None else Some hb | None \<Rightarrow> None)"
  proof (cases "db_abs t pa")
    case None
    then show ?thesis by (simp add: db_abs_filter [OF inv])
  next
    case (Some hb)
    then have "(\<exists>r \<in> set t. row_address r = pa \<and> \<not> now - row_heartbeat r > thr) \<longleftrightarrow> \<not> now - hb > thr"
      using db_abs_eq_Some_iff [OF inv] by (metis option.inject)
    with Some show ?thesis by (simp add: db_abs_filter [OF inv])
  qed
qed

lemma db_abs_heartbeat:
  assumes inv: "table_inv t"
  shows "db_abs (map (\<lambda>r. if row_key r = bind_peeraddress pa then r\<lparr>row_heartbeat := hb\<rparr> else r) t)
    = (if db_abs t pa = None then db_abs t else (db_abs t)(pa \<mapsto> hb))" (is "db_abs ?t' = _")
proof (rule ext)
  fix x
  have inv': "table_inv ?t'" by (rule table_inv_heartbeat [OF inv])
  have dom: "dom (db_abs ?t') = dom (db_abs t)"
    unfolding dom_db_abs set_map image_image by (rule image_cong) auto
  show "db_abs ?t' x = (if db_abs t pa = None then db_abs t else (db_abs t)(pa \<mapsto> hb)) x"
  proof (cases "db_abs ?t' x")
    case None
    then have "db_abs t x = None" using dom by blast
    with None show ?thesis by auto
  next
    case (Some y)
    then obtain r where r: "r \<in> set t" "row_address r = x"
      "y = (if row_key r = bind_peeraddress pa then hb else row_heartbeat r)"
      unfolding db_abs_eq_Some_iff [OF inv'] by (auto split: if_splits)
    then have "db_abs t x = Some (row_heartbeat r)"
      by (auto simp: db_abs_eq_Some_iff [OF inv])
    with Some r show ?thesis by (auto simp: row_key_iff [OF inv])
  qed
qed

text \<open>
  The statements of the adapter as operations; those that read or write heartbeats carry the second at
  which SQLite evaluates \<^verbatim>\<open>strftime\<close>. An SQL error leaves the table as it is.
\<close>

datatype db_op =
    PeerExists peer_address
  | InsertPeer int peer_address
  | UpdateHeartbeat int peer_address
  | RemoveOutdated int int
  | RemovePeer peer_address
  | NumberOfPeers int int

datatype db_result = DbNumber nat | DbDone | DbExit

definition db_write :: "(db_error + peer_table) \<Rightarrow> peer_table \<Rightarrow> db_result \<times> peer_table" where
  "db_write res t = (case res of Inl _ \<Rightarrow> (DbExit, t) | Inr t' \<Rightarrow> (DbDone, t'))"

definition db_read :: "(db_error + nat) \<Rightarrow> peer_table \<Rightarrow> db_result \<times> peer_table" where
  "db_read res t = (case res of Inl _ \<Rightarrow> (DbExit, t) | Inr n \<Rightarrow> (DbNumber n, t))"

fun db_step :: "db_op \<Rightarrow> peer_table \<Rightarrow> db_result \<times> peer_table" where
  "db_step (PeerExists pa) t = db_read (db_peer_exists True t pa) t"
| "db_step (InsertPeer now pa) t = db_write (db_insert_peer True now t pa) t"
| "db_step (UpdateHeartbeat now pa) t = db_write (db_update_peer_heartbeat True now t pa) t"
| "db_step (RemoveOutdated now thr) t = db_write (db_remove_outdated_peers True now t thr) t"
| "db_step (RemovePeer pa) t = db_write (db_remove_peer True t pa) t"
| "db_step (NumberOfPeers now thr) t = db_read (get_number_of_peers True now t thr) t"

fun map_step :: "db_op \<Rightarrow> peer_map \<Rightarrow> db_result \<times> peer_map" where
  "map_step (PeerExists pa) m = (DbNumber (if m pa = None then 0 else 1), m)"
| "map_step (InsertPeer now pa) m = (if m pa = None then (DbDone, m(pa \<mapsto> now)) else (DbExit, m))"
| "map_step (UpdateHeartbeat now pa) m = (DbDone, if m pa = None then m else m(pa \<mapsto> now))"
| "map_step (RemoveOutdated now thr) m =
     (DbDone, \<lambda>pa. case m pa of Some hb \<Rightarrow> if now - hb > thr then None else Some hb | None \<Rightarrow> None)"
| "map_step (RemovePeer pa) m = (DbDone, m(pa := None))"
| "map_step (NumberOfPeers now thr) m = (DbNumber (card {pa. \<exists>hb. m pa = Some hb \<and> now - hb < thr}), m)"

lemma db_insert_peer_eq:
  assumes "table_inv t"
  shows "db_insert_peer ok now t pa =
    (if ok \<and> pa \<notin> row_address ` set t then Inr (t @ [address_row pa now]) else Inl SqliteExit)"
  by (simp add: db_insert_peer_def key_in_table_iff [OF assms] address_row_def)

lemma matching_rows:
  "table_inv t \<Longrightarrow> length (filter (\<lambda>r. row_key r = bind_peeraddress pa) t) = (if pa \<in> row_address ` set t then 1 else 0)"
proof (induction t)
  case Nil
  then show ?case by simp
next
  case (Cons r t)
  then have inv: "table_inv t" "row_key r = bind_peeraddress (row_address r)" "row_address r \<notin> row_address ` set t"
    by (auto simp: table_inv_def)
  with Cons.IH show ?case by (auto simp: bind_peeraddress_inj)
qed

lemma db_peer_exists_eq:
  "table_inv t \<Longrightarrow> db_peer_exists ok t pa = (if ok then Inr (if pa \<in> row_address ` set t then 1 else 0) else Inl SqliteExit)"
  by (simp add: db_peer_exists_def matching_rows)

lemma live_addresses:
  assumes "table_inv t"
  shows "row_address ` set (filter (live now thr) t) = {pa. \<exists>hb. db_abs t pa = Some hb \<and> now - hb < thr}"
  by (auto simp: db_abs_eq_Some_iff [OF assms] live_def)

lemma distinct_live: "table_inv t \<Longrightarrow> distinct (map row_address (filter P t))"
  by (auto simp: table_inv_def distinct_map_filter)

lemma number_of_live:
  assumes "table_inv t"
  shows "length (filter (live now thr) t) = card {pa. \<exists>hb. db_abs t pa = Some hb \<and> now - hb < thr}"
  unfolding live_addresses [OF assms, symmetric] using distinct_card [OF distinct_live [OF assms]] by simp

lemma db_step_inv: "table_inv t \<Longrightarrow> table_inv (snd (db_step x t))"
  by (cases x)
     (auto simp: db_write_def db_read_def db_insert_peer_eq table_inv_insert db_update_peer_heartbeat_def
        db_remove_outdated_peers_def db_remove_peer_def table_inv_filter table_inv_heartbeat
        split: sum.splits if_splits)

lemma None_db_abs: "db_abs t pa = None \<longleftrightarrow> pa \<notin> row_address ` set t"
  using dom_db_abs [of t] by blast

lemma db_step_refines:
  assumes inv: "table_inv t"
  shows "map_step x (db_abs t) = (fst (db_step x t), db_abs (snd (db_step x t)))"
  by (cases x)
     (simp_all add: db_write_def db_read_def db_insert_peer_eq [OF inv] db_peer_exists_eq [OF inv]
        None_db_abs db_abs_insert db_update_peer_heartbeat_def db_abs_heartbeat [OF inv]
        db_remove_outdated_peers_def db_abs_outdated [OF inv, unfolded not_less] db_remove_peer_def db_abs_remove [OF inv]
        get_number_of_peers_def number_of_live [OF inv] not_less)

interpretation db_ref: data_refinement db_step table_inv map_step db_abs
  by unfold_locales (rule db_step_inv, assumption, rule db_step_refines)

section \<open>Listing the peers\<close>

lemma exec_rows_fill:
  assumes "\<And>n r d. n < length d \<Longrightarrow> cb (Suc n, r) d = Inr (d[n := Some (f r)])" "length pre = k"
  shows "exec_rows cb (zip [Suc k..<Suc (k + length rs)] rs) (pre @ replicate (length rs) None) =
    Inr (pre @ map (Some \<circ> f) rs)"
  using assms(2)
proof (induction rs arbitrary: pre k)
  case Nil
  then show ?case by simp
next
  case (Cons r rs)
  have "[Suc k..<Suc (k + length (r # rs))] = Suc k # [Suc (Suc k)..<Suc (Suc k + length rs)]"
    by (simp add: upt_rec)
  moreover have "cb (Suc k, r) (pre @ replicate (length (r # rs)) None)
      = Inr ((pre @ [Some (f r)]) @ replicate (length rs) None)"
    using Cons.prems by (simp add: assms(1) list_update_append)
  ultimately show ?case
    using Cons.IH [of "pre @ [Some (f r)]" "Suc k"] Cons.prems by simp
qed

lemma number_rows_snoc: "number_rows (rs @ [r]) = number_rows rs @ [(Suc (length rs), r)]"
proof -
  have "[1..<Suc (length (rs @ [r]))] = [1..<Suc (length rs)] @ [Suc (length rs)]"
    by simp
  then show ?thesis
    by (simp add: number_rows_def del: upt_Suc)
qed

lemma db_get_all_peer_addresses_eq:
  "db_get_all_peer_addresses True (now, t) (now, t) thr = Inr (map (Some \<circ> row_address) (filter (live now thr) t))"
  using exec_rows_fill [of fill_peeraddress_table row_address "[]" 0 "filter (live now thr) t"]
  by (simp add: db_get_all_peer_addresses_def get_number_of_peers_def number_rows_def fill_peeraddress_table_def)

lemma db_get_all_peer_info_eq:
  "db_get_all_peer_info True (now, t) (now, t) thr =
     Inr (map (Some \<circ> (\<lambda>r. \<lparr>pi_sockaddr = row_address r, pi_heartbeat = of_int (row_heartbeat r)\<rparr>))
       (filter (live now thr) t))"
  using exec_rows_fill [of fill_peerinfo_table
      "\<lambda>r. \<lparr>pi_sockaddr = row_address r, pi_heartbeat = of_int (row_heartbeat r)\<rparr>" "[]" 0 "filter (live now thr) t"]
  by (simp add: db_get_all_peer_info_def get_number_of_peers_def number_rows_def fill_peerinfo_table_def)

section \<open>Properties of the adapter\<close>

text \<open>
  C14: The adapter implements a finite map from peer addresses to heartbeats. Started on an empty
  table, every sequence of existence checks, insertions, heartbeat updates, removals and counts gives the results
  of the map and leaves a table that reads as that map: the BLOB encoding of addresses is lost nowhere, no address gets a
  second row, and inserting a known address ends the process.
\<close>

theorem db_refines_map:
  "run_ops map_step ops Map.empty =
     (fst (run_ops db_step ops []), db_abs (snd (run_ops db_step ops [])))"
  using db_ref.run_refines [of "[]" ops] by (simp add: db_abs_def)

text \<open>
  When nothing changes the table between its two statements, \<^verbatim>\<open>db_get_all_peer_addresses\<close> writes
  every entry of the array it allocates, and the entries are, without repetition, exactly the addresses
  whose heartbeat is less than the threshold old.
\<close>

lemma db_get_all_peer_addresses_exact:
  assumes "table_inv t"
  shows "\<exists>addrs. db_get_all_peer_addresses True (now, t) (now, t) timeout_threshold = Inr (map Some addrs) \<and>
    distinct addrs \<and> set addrs = {pa. \<exists>hb. db_abs t pa = Some hb \<and> now - hb < timeout_threshold}"
proof (intro exI conjI)
  let ?addrs = "map row_address (filter (live now timeout_threshold) t)"
  show "db_get_all_peer_addresses True (now, t) (now, t) timeout_threshold = Inr (map Some ?addrs)"
    by (simp add: db_get_all_peer_addresses_eq)
  show "distinct ?addrs"
    by (rule distinct_live [OF assms])
  show "set ?addrs = {pa. \<exists>hb. db_abs t pa = Some hb \<and> now - hb < timeout_threshold}"
    using live_addresses [OF assms] by simp
qed

text \<open>
  When another thread of the tracker registers a peer between the counting statement and the selecting
  one, the callback writes past the end of the array that was allocated.
\<close>

lemma db_get_all_peer_addresses_race:
  assumes "table_inv t" "pa \<notin> row_address ` set t" "0 < timeout_threshold"
    "db_insert_peer True now t pa = Inr t'"
  shows "db_get_all_peer_addresses True (now, t) (now, t') timeout_threshold = Inl HeapOverflow"
proof -
  let ?l = "filter (live now timeout_threshold) t"
  have t': "filter (live now timeout_threshold) t' = ?l @ [address_row pa now]"
    using assms by (auto simp: db_insert_peer_eq live_def)
  have rows: "number_rows (?l @ [address_row pa now]) = number_rows ?l @ [(Suc (length ?l), address_row pa now)]"
    by (rule number_rows_snoc)
  have app: "exec_rows cb (xs @ ys) d = (case exec_rows cb xs d of Inl e \<Rightarrow> Inl e | Inr d' \<Rightarrow> exec_rows cb ys d')"
    for cb :: "nat \<times> peer_row \<Rightarrow> peer_address option list \<Rightarrow> db_error + peer_address option list" and xs ys d
    by (induction xs arbitrary: d) (auto split: sum.splits)
  show ?thesis
    using db_get_all_peer_addresses_eq [of now t timeout_threshold]
    by (simp add: db_get_all_peer_addresses_def get_number_of_peers_def t' rows app fill_peeraddress_table_def)
qed

text \<open>
  Listing and expiring disagree at the threshold itself: a peer whose heartbeat is exactly the threshold old is
  listed no more, and \<^verbatim>\<open>db_remove_outdated_peers\<close> keeps it.
\<close>

lemma db_threshold_boundary:
  assumes "table_inv t" "db_abs t pa = Some hb" "now - hb = timeout_threshold"
  shows "\<exists>t' addrs. db_remove_outdated_peers True now t timeout_threshold = Inr t' \<and> db_abs t' pa = Some hb \<and>
    db_get_all_peer_addresses True (now, t) (now, t) timeout_threshold = Inr (map Some addrs) \<and> pa \<notin> set addrs"
proof (intro exI conjI)
  show "db_remove_outdated_peers True now t timeout_threshold
      = Inr (filter (\<lambda>r. \<not> now - row_heartbeat r > timeout_threshold) t)"
    by (simp add: db_remove_outdated_peers_def)
  show "db_abs (filter (\<lambda>r. \<not> now - row_heartbeat r > timeout_threshold) t) pa = Some hb"
    using assms by (simp add: db_abs_outdated)
  show "db_get_all_peer_addresses True (now, t) (now, t) timeout_threshold
      = Inr (map Some (map row_address (filter (live now timeout_threshold) t)))"
    by (simp add: db_get_all_peer_addresses_eq)
  show "pa \<notin> set (map row_address (filter (live now timeout_threshold) t))"
    using live_addresses [OF assms(1), of now timeout_threshold] assms(2,3) by auto
qed

end
