(* ===== verification/Tracker.thy ===== *)
theory Tracker
  imports Queue Db
begin

text \<open>
  The tracker, \<^verbatim>\<open>application/p2p/tracker.c\<close>: the mailbox thread that receives, checks and queues messages, the
  request loop that starts one thread per message, and the message handlers over the table of peers. The
  handlers are modelled twice: as they run undisturbed, and statement by statement, so that the statements of
  several threads interleave on the shared table.
\<close>

section \<open>Messages in memory\<close>

definition TIMEOUT_THRESHOLD :: int where
  "TIMEOUT_THRESHOLD = 60"

definition TRACKER_QUEUE_SIZE :: size_t where
  "TRACKER_QUEUE_SIZE = 20"

record queue_item =
  qi_message :: bytes
  qi_clntaddr :: sockaddr_in

text \<open>
  Ways the tracker can fail: a read or write outside an object, an exit of the process, a receive that
  blocks the mailbox.
\<close>

datatype tracker_error = MemoryError | ProcessExit | Blocked

definition or_fail :: "tracker_error \<Rightarrow> 'a option \<Rightarrow> ('a \<Rightarrow> tracker_error + 'b) \<Rightarrow> tracker_error + 'b" where
  "or_fail e x f = (case x of None \<Rightarrow> Inl e | Some y \<Rightarrow> f y)"

definition db_bind :: "db_error + 'a \<Rightarrow> ('a \<Rightarrow> tracker_error + 'b) \<Rightarrow> tracker_error + 'b" where
  "db_bind x f = (case x of Inl SqliteExit \<Rightarrow> Inl ProcessExit | Inl HeapOverflow \<Rightarrow> Inl MemoryError | Inr y \<Rightarrow> f y)"

text \<open>The fields the code reads through a cast to \<^verbatim>\<open>struct message_header*\<close> or \<^verbatim>\<open>struct peer_address_header*\<close>.\<close>

definition type_field :: "bytes \<Rightarrow> u32 option" where
  "type_field message = map_option le_word (read_bytes message 0 4)"

definition peer_address_field :: "bytes \<Rightarrow> peer_address option" where
  "peer_address_field message = map_option peer_address_of (read_bytes message message_header_size 8)"

section \<open>Handlers\<close>

definition handle_exit :: "bool \<Rightarrow> peer_table \<Rightarrow> queue_item \<Rightarrow> tracker_error + peer_table" where
  "handle_exit sqlite_ok db queue_item =
     or_fail MemoryError (peer_address_field (qi_message queue_item)) (\<lambda>pa.
     db_bind (db_remove_peer sqlite_ok db pa) Inr)"

definition handle_acknowledge_netinfo ::
  "bool \<Rightarrow> int \<Rightarrow> peer_table \<Rightarrow> queue_item \<Rightarrow> tracker_error + peer_table" where
  "handle_acknowledge_netinfo sqlite_ok now db queue_item =
     or_fail MemoryError (peer_address_field (qi_message queue_item)) (\<lambda>pa.
     db_bind (db_peer_exists sqlite_ok db pa) (\<lambda>exists.
       if exists = 0 then db_bind (db_insert_peer sqlite_ok now db pa) Inr
       else db_bind (db_update_peer_heartbeat sqlite_ok now db pa) Inr))"

text \<open>
  The reply to a heartbeat: the array of addresses in a \<^verbatim>\<open>NETINFO\<close> frame. An entry that no row was
  written to holds what \<^verbatim>\<open>malloc\<close> left there (\<open>junk\<close>).
\<close>

definition address_array_bytes :: "(nat \<Rightarrow> bytes) \<Rightarrow> peer_address option list \<Rightarrow> bytes" where
  "address_array_bytes junk addrs =
     concat (map2 (\<lambda>i a. case a of Some pa \<Rightarrow> peer_address_bytes pa | None \<Rightarrow> junk i) [0..<length addrs] addrs)"

definition netinfo_reply ::
  "(nat \<Rightarrow> bytes) \<Rightarrow> nat \<times> nat \<times> nat \<Rightarrow> sockaddr_in \<Rightarrow> peer_address option list \<Rightarrow> (bytes \<times> sockaddr_in) option" where
  "netinfo_reply junk rands clntaddr addrs =
     Option.bind (init_network_information (address_array_bytes junk addrs)) (\<lambda>(message, message_len).
     map_option (\<lambda>sent. (sent, clntaddr)) (send_message BITFLIP_CHANCE rands message))"

definition handle_heartbeat ::
  "bool \<Rightarrow> (nat \<Rightarrow> bytes) \<Rightarrow> nat \<times> nat \<times> nat \<Rightarrow> int \<Rightarrow> peer_table \<Rightarrow> queue_item \<Rightarrow>
     tracker_error + (bytes \<times> sockaddr_in) \<times> peer_table" where
  "handle_heartbeat sqlite_ok junk rands now db queue_item =
     db_bind (db_get_all_peer_addresses sqlite_ok (now, db) (now, db) TIMEOUT_THRESHOLD) (\<lambda>network_information.
     or_fail MemoryError (netinfo_reply junk rands (qi_clntaddr queue_item) network_information) (\<lambda>reply.
     or_fail MemoryError (peer_address_field (qi_message queue_item)) (\<lambda>pa.
     db_bind (db_peer_exists sqlite_ok db pa) (\<lambda>exists.
       if exists \<noteq> 0 then db_bind (db_update_peer_heartbeat sqlite_ok now db pa) (\<lambda>db'. Inr (reply, db'))
       else Inr (reply, db)))))"

text \<open>The switch of \<^verbatim>\<open>handle_request_thread\<close>: other types than the three are ignored.\<close>

definition handle_request ::
  "bool \<Rightarrow> (nat \<Rightarrow> bytes) \<Rightarrow> nat \<times> nat \<times> nat \<Rightarrow> int \<Rightarrow> peer_table \<Rightarrow> queue_item \<Rightarrow>
     tracker_error + (bytes \<times> sockaddr_in) list \<times> peer_table" where
  "handle_request sqlite_ok junk rands now db queue_item =
     or_fail MemoryError (type_field (qi_message queue_item)) (\<lambda>type.
       if type = message_type_code HEARTBEAT then
         (case handle_heartbeat sqlite_ok junk rands now db queue_item of
            Inl e \<Rightarrow> Inl e | Inr (reply, db') \<Rightarrow> Inr ([reply], db'))
       else if type = message_type_code EXIT then
         (case handle_exit sqlite_ok db queue_item of Inl e \<Rightarrow> Inl e | Inr db' \<Rightarrow> Inr ([], db'))
       else if type = message_type_code ACKNOWLEDGENETINFO then
         (case handle_acknowledge_netinfo sqlite_ok now db queue_item of Inl e \<Rightarrow> Inl e | Inr db' \<Rightarrow> Inr ([], db'))
       else Inr ([], db))"

section \<open>Request threads, statement by statement\<close>

text \<open>What a request thread executes next; \<open>HbSelect\<close> holds the number of peers it counted.\<close>

datatype request_pc =
    Dispatch | HbCount | HbSelect nat | HbExists | HbUpdate
  | AckExists | AckInsert | AckUpdate | ExitRemove | Finished

record request_thread =
  rt_item :: queue_item
  rt_pc :: request_pc

text \<open>
  One SQL statement (or the switch) of a request thread on the table of the moment: the next program point, the
  datagrams it sends and the table it leaves.
\<close>

definition thread_statement ::
  "bool \<Rightarrow> (nat \<Rightarrow> bytes) \<Rightarrow> nat \<times> nat \<times> nat \<Rightarrow> int \<Rightarrow> peer_table \<Rightarrow> request_thread \<Rightarrow>
     tracker_error + request_pc \<times> (bytes \<times> sockaddr_in) list \<times> peer_table" where
  "thread_statement sqlite_ok junk rands now db th =
     (let message = qi_message (rt_item th);
          with_addr = or_fail MemoryError (peer_address_field message)
      in case rt_pc th of
        Dispatch \<Rightarrow> or_fail MemoryError (type_field message) (\<lambda>type. Inr (
          if type = message_type_code HEARTBEAT then HbCount
          else if type = message_type_code EXIT then ExitRemove
          else if type = message_type_code ACKNOWLEDGENETINFO then AckExists
          else Finished, [], db))
      | HbCount \<Rightarrow> db_bind (get_number_of_peers sqlite_ok now db TIMEOUT_THRESHOLD) (\<lambda>n_items.
          Inr (HbSelect n_items, [], db))
      | HbSelect n_items \<Rightarrow>
          db_bind (exec_rows fill_peeraddress_table (number_rows (filter (live now TIMEOUT_THRESHOLD) db))
            (replicate n_items None)) (\<lambda>network_information.
          or_fail MemoryError (netinfo_reply junk rands (qi_clntaddr (rt_item th)) network_information) (\<lambda>reply.
          Inr (HbExists, [reply], db)))
      | HbExists \<Rightarrow> with_addr (\<lambda>pa. db_bind (db_peer_exists sqlite_ok db pa) (\<lambda>exists.
          Inr (if exists \<noteq> 0 then HbUpdate else Finished, [], db)))
      | HbUpdate \<Rightarrow> with_addr (\<lambda>pa. db_bind (db_update_peer_heartbeat sqlite_ok now db pa) (\<lambda>db'. Inr (Finished, [], db')))
      | AckExists \<Rightarrow> with_addr (\<lambda>pa. db_bind (db_peer_exists sqlite_ok db pa) (\<lambda>exists.
          Inr (if exists = 0 then AckInsert else AckUpdate, [], db)))
      | AckInsert \<Rightarrow> with_addr (\<lambda>pa. db_bind (db_insert_peer sqlite_ok now db pa) (\<lambda>db'. Inr (Finished, [], db')))
      | AckUpdate \<Rightarrow> with_addr (\<lambda>pa. db_bind (db_update_peer_heartbeat sqlite_ok now db pa) (\<lambda>db'. Inr (Finished, [], db')))
      | ExitRemove \<Rightarrow> with_addr (\<lambda>pa. db_bind (db_remove_peer sqlite_ok db pa) (\<lambda>db'. Inr (Finished, [], db')))
      | Finished \<Rightarrow> Inr (Finished, [], db))"

section \<open>The mailbox\<close>

text \<open>
  The local variables of \<^verbatim>\<open>handle_mailbox\<close> that live across its iterations: the header buffer, the address it was
  peeked from, and \<^verbatim>\<open>found\<close>, which only heartbeats assign.
\<close>

record mailbox =
  mb_header :: bytes
  mb_clntaddr :: sockaddr_in
  mb_found :: bool

text \<open>
  What the system answers during one iteration; \<open>me_malloc n\<close> is the block \<^verbatim>\<open>malloc(n)\<close> returns, with
  arbitrary contents, and \<open>me_item_addr\<close> the address field of the fresh queue item before a receive fills it.
\<close>

record mailbox_env =
  me_ioctl :: int
  me_peek_ok :: bool
  me_recv_ok :: bool
  me_item_addr :: sockaddr_in
  me_lock :: int
  me_unlock :: int
  me_malloc :: "nat \<Rightarrow> bytes option"

text \<open>The scan for a queued heartbeat of the same peer, newest entry first, over the indices still to visit.\<close>

fun mailbox_scan :: "queue_item queue_lock \<Rightarrow> bytes \<Rightarrow> nat list \<Rightarrow> bool option" where
  "mailbox_scan ql message [] = Some False"
| "mailbox_scan ql message (i # is) =
     Option.bind (q_data ql ! queue_slot ql (of_nat i)) (\<lambda>other.
     Option.bind (type_field (qi_message other)) (\<lambda>type.
       if type = message_type_code HEARTBEAT then
         Option.bind (peer_address_field (qi_message other)) (\<lambda>a.
         Option.bind (peer_address_field message) (\<lambda>b.
           if cmp_peer_address a b then Some True else mailbox_scan ql message is))
       else mailbox_scan ql message is))"

text \<open>
  The fate of a message that passed both checks: a heartbeat is searched for in the queue under the mutex and sets
  \<^verbatim>\<open>found\<close>; any other message is judged by the \<^verbatim>\<open>found\<close> of an earlier iteration.
\<close>

definition mailbox_place ::
  "mailbox_env \<Rightarrow> u32 \<Rightarrow> bool \<Rightarrow> queue_item \<Rightarrow> queue_item queue_lock \<Rightarrow>
     tracker_error + bool \<times> queue_item queue_lock" where
  "mailbox_place env header_type found item ql =
     (let scanned =
        (if header_type = message_type_code HEARTBEAT then
           if me_lock env = 0 then
             or_fail MemoryError (mailbox_scan ql (qi_message item) [1..<Suc (unat (q_size ql))]) (\<lambda>found.
               if me_unlock env \<noteq> 0 then Inl ProcessExit else Inr found)
           else Inl ProcessExit
         else Inr found)
      in case scanned of
           Inl e \<Rightarrow> Inl e
         | Inr found \<Rightarrow>
             if \<not> found then
               if \<not> queue_is_full ql then
                 or_fail ProcessExit (queue_enqueue (me_lock env) (me_unlock env) item ql) (\<lambda>(_, ql'). Inr (found, ql'))
               else Inr (found, ql)
             else Inr (found, ql))"

text \<open>The part of an iteration behind a good header.\<close>

definition mailbox_message ::
  "mailbox_env \<Rightarrow> message_header \<Rightarrow> mailbox \<Rightarrow> socket \<Rightarrow> queue_item queue_lock \<Rightarrow>
     tracker_error + mailbox \<times> socket \<times> queue_item queue_lock" where
  "mailbox_message env header mb sock ql =
     or_fail MemoryError (me_malloc env (unat (mh_len header))) (\<lambda>block.
     or_fail Blocked (recv_message (me_recv_ok env) False block (me_item_addr env) sock)
       (\<lambda>(_, message, clntaddr, sock).
     or_fail MemoryError (check_message_crc message (mh_len header)) (\<lambda>(message_ok, message).
       if message_ok then
         (case mailbox_place env (mh_type header) (mb_found mb)
                 \<lparr>qi_message = message, qi_clntaddr = clntaddr\<rparr> ql of
            Inl e \<Rightarrow> Inl e
          | Inr (found, ql) \<Rightarrow> Inr (mb\<lparr>mb_found := found\<rparr>, sock, ql))
       else Inr (mb, sock, ql))))"

text \<open>One iteration of the loop.\<close>

definition mailbox_iteration ::
  "mailbox_env \<Rightarrow> mailbox \<Rightarrow> socket \<Rightarrow> queue_item queue_lock \<Rightarrow>
     tracker_error + mailbox \<times> socket \<times> queue_item queue_lock" where
  "mailbox_iteration env mb sock ql =
     (if \<not> is_data_available (me_ioctl env) sock then Inr (mb, sock, ql) else
      or_fail Blocked (recv_message (me_peek_ok env) True (mb_header mb) (mb_clntaddr mb) sock)
        (\<lambda>(_, header, clntaddr, _).
      or_fail MemoryError (check_message_crc header (of_nat message_header_size)) (\<lambda>(header_ok, header).
      let mb = mb\<lparr>mb_header := header, mb_clntaddr := clntaddr\<rparr>
      in if header_ok then mailbox_message env (message_header_of header) mb sock ql
         else
           or_fail MemoryError (me_malloc env message_header_size) (\<lambda>block.
           or_fail Blocked (recv_message (me_recv_ok env) False block (me_item_addr env) sock)
             (\<lambda>(_, _, _, sock). Inr (mb, sock, ql))))))"

section \<open>Queued heartbeats\<close>

text \<open>The duplicate scan over the queue read as a list, newest entry first.\<close>

fun scan_items :: "bytes \<Rightarrow> queue_item list \<Rightarrow> bool option" where
  "scan_items message [] = Some False"
| "scan_items message (other # others) =
     Option.bind (type_field (qi_message other)) (\<lambda>type.
       if type = message_type_code HEARTBEAT then
         Option.bind (peer_address_field (qi_message other)) (\<lambda>a.
         Option.bind (peer_address_field message) (\<lambda>b.
           if cmp_peer_address a b then Some True else scan_items message others))
       else scan_items message others)"

lemma mailbox_scan_items:
  assumes inv: "queue_inv ql"
  shows "set is \<subseteq> {1..unat (q_size ql)} \<Longrightarrow>
    mailbox_scan ql message is = scan_items message (map (\<lambda>i. queue_list ql ! (unat (q_size ql) - i)) is)"
proof (induction "is")
  case Nil
  then show ?case by simp
next
  case (Cons i "is")
  have "i < 2 ^ 64"
    using Cons.prems unat_less_2p_size_t [of "q_size ql"] by simp
  then have "unat (of_nat i :: size_t) = i"
    by (simp add: unat_of_nat)
  then have "q_data ql ! queue_slot ql (of_nat i) = Some (queue_list ql ! (unat (q_size ql) - i))"
    using queue_slot_recent [OF inv, of "of_nat i"] Cons.prems by simp
  then show ?case
    using Cons by (simp cong: if_cong option.case_cong)
qed

lemma mailbox_scan_queue:
  assumes inv: "queue_inv ql"
  shows "mailbox_scan ql message [1..<Suc (unat (q_size ql))] = scan_items message (rev (queue_list ql))"
proof -
  have "map (\<lambda>i. queue_list ql ! (unat (q_size ql) - i)) [1..<Suc (unat (q_size ql))] = rev (queue_list ql)"
    by (rule nth_equalityI) (simp_all add: rev_nth del: upt_Suc)
  moreover have "set [1..<Suc (unat (q_size ql))] \<subseteq> {1..unat (q_size ql)}"
    by auto
  ultimately show ?thesis
    using mailbox_scan_items [OF inv] by metis
qed

text \<open>The addresses of the heartbeats among some items; \<open>None\<close> for one too short to hold an address.\<close>

definition heartbeat_peers :: "queue_item list \<Rightarrow> peer_address option list" where
  "heartbeat_peers items =
     map (\<lambda>item. peer_address_field (qi_message item))
       (filter (\<lambda>item. type_field (qi_message item) = Some (message_type_code HEARTBEAT)) items)"

lemma heartbeat_peers_simps [simp]:
  "heartbeat_peers [] = []"
  "heartbeat_peers (xs @ ys) = heartbeat_peers xs @ heartbeat_peers ys"
  "heartbeat_peers (x # xs) =
     (if type_field (qi_message x) = Some (message_type_code HEARTBEAT)
      then peer_address_field (qi_message x) # heartbeat_peers xs else heartbeat_peers xs)"
  "heartbeat_peers (rev xs) = rev (heartbeat_peers xs)"
  by (simp_all add: heartbeat_peers_def rev_map rev_filter)

lemma scan_items_False:
  "scan_items message items = Some False \<Longrightarrow> peer_address_field message \<notin> set (heartbeat_peers items)"
  by (induction items) (auto simp: bind_eq_Some_conv split: if_splits)

lemma scan_items_True:
  "scan_items message items = Some True \<Longrightarrow>
    peer_address_field message \<noteq> None \<and> peer_address_field message \<in> set (heartbeat_peers items)"
  by (induction items) (auto simp: bind_eq_Some_conv split: if_splits)

text \<open>On queued heartbeats and a message that all hold an address the scan decides the question.\<close>

lemma scan_items_decides:
  assumes "peer_address_field message \<noteq> None" "\<forall>item \<in> set items. type_field (qi_message item) \<noteq> None"
    "None \<notin> set (heartbeat_peers items)"
  shows "scan_items message items = Some (peer_address_field message \<in> set (heartbeat_peers items))"
  using assms(2,3)
proof (induction items)
  case Nil
  then show ?case by simp
next
  case (Cons x xs)
  then show ?case
    using assms(1) by (cases "peer_address_field (qi_message x)") (auto split: if_splits)
qed

section \<open>The mailbox never queues a peer's heartbeat twice\<close>

definition mailbox_inv :: "queue_item queue_lock \<Rightarrow> bool" where
  "mailbox_inv ql \<longleftrightarrow> queue_inv ql \<and> distinct (heartbeat_peers (queue_list ql))"

lemma type_field_poke:
  assumes "4 \<le> length d" "4 \<le> length buf"
  shows "type_field (poke buf 0 (take (length buf) d)) = Some (le_word (take 4 d))"
proof -
  have "take 4 (take (length buf) d @ drop (min (length d) (length buf)) buf) = take 4 d"
    using assms by (simp add: min_absorb1 min_def)
  then show ?thesis
    using assms by (simp add: type_field_def read_bytes_def poke_def)
qed

lemma type_field_header: "4 \<le> length h \<Longrightarrow> type_field h = Some (mh_type (message_header_of h))"
  by (simp add: type_field_def read_bytes_def message_header_of_def)

lemma check_message_crc_length:
  "check_message_crc data n = Some r \<Longrightarrow> 24 \<le> length data"
  by (auto simp: check_message_crc_def message_header_size_def split: if_splits)

lemma or_fail_Inr: "or_fail e x f = Inr y \<longleftrightarrow> (\<exists>z. x = Some z \<and> f z = Inr y)"
  by (auto simp: or_fail_def split: option.splits)

lemma queue_enqueue_0: "queue_enqueue l u x ql = Some r \<Longrightarrow> l = 0 \<and> u = 0"
  by (auto simp: queue_enqueue_def case_prod_beta Let_def split: if_splits)

text \<open>
  What an iteration needs from the system: the receives succeed and \<^verbatim>\<open>malloc\<close> returns blocks of
  the size it was asked for, or NULL.
\<close>

definition mailbox_env_ok :: "mailbox_env \<Rightarrow> bool" where
  "mailbox_env_ok env \<longleftrightarrow> me_peek_ok env \<and> me_recv_ok env \<and> (\<forall>n block. me_malloc env n = Some block \<longrightarrow> length block = n)"

text \<open>A message that passed the checks is dropped, or queued behind a scan that found nothing.\<close>

definition queued_after :: "queue_item queue_lock \<Rightarrow> queue_item queue_lock \<Rightarrow> bool" where
  "queued_after ql ql' \<longleftrightarrow> ql' = ql \<or>
     (\<exists>item r. \<not> queue_is_full ql \<and> queue_enqueue 0 0 item ql = Some (r, ql') \<and>
       type_field (qi_message item) \<noteq> None \<and>
       (type_field (qi_message item) = Some (message_type_code HEARTBEAT) \<longrightarrow>
         scan_items (qi_message item) (rev (queue_list ql)) = Some False))"

lemma queued_after_refl [simp]: "queued_after ql ql"
  by (simp add: queued_after_def)

lemma queued_after_enqueue:
  assumes "queue_enqueue l u item ql = Some (r, ql')" "\<not> queue_is_full ql" "type_field (qi_message item) = Some ty"
    "ty = message_type_code HEARTBEAT \<Longrightarrow> scan_items (qi_message item) (rev (queue_list ql)) = Some False"
  shows "queued_after ql ql'"
  using assms queue_enqueue_0 [OF assms(1)] unfolding queued_after_def by auto

lemma mailbox_place_queued:
  assumes "mailbox_place env header_type found item ql = Inr (found', ql')" "queue_inv ql"
    "type_field (qi_message item) = Some header_type"
  shows "queued_after ql ql'"
  using assms
  by (auto simp: mailbox_place_def Let_def or_fail_Inr mailbox_scan_queue
      intro: queued_after_enqueue split: if_splits sum.splits simp del: upt_Suc One_nat_def)

lemma mailbox_message_queued:
  assumes "mailbox_message env header mb ((d, from_addr) # rest) ql = Inr (mb', sock', ql')" "mailbox_env_ok env"
    "queue_inv ql" "4 \<le> length d" "mh_type header = le_word (take 4 d)"
  shows "mb_header mb' = mb_header mb \<and> sock' = rest \<and> queued_after ql ql'"
proof -
  obtain block where block: "me_malloc env (unat (mh_len header)) = Some block"
    using assms(1) by (auto simp: mailbox_message_def or_fail_Inr)
  let ?message = "poke block 0 (take (length block) d)"
  have recv: "recv_message (me_recv_ok env) False block a ((d, from_addr) # rest)
      = Some (int (min (length block) (length d)), ?message, from_addr, rest)" for a
    using assms(2) by (simp add: recv_message_def mailbox_env_ok_def)
  obtain message_ok message where check: "check_message_crc ?message (mh_len header) = Some (message_ok, message)"
    using assms(1) by (auto simp: mailbox_message_def or_fail_Inr block recv)
  then have "message = ?message" and "24 \<le> length block"
    using check_message_crc_frame check_message_crc_length by (fastforce simp: poke_def)+
  then have type: "type_field message = Some (mh_type header)"
    using assms(4,5) by (simp add: type_field_poke)
  show ?thesis
    using assms(1,3) type
    by (auto simp: mailbox_message_def or_fail_Inr block recv check
        dest!: mailbox_place_queued split: if_splits sum.splits)
qed

lemma mailbox_iteration_queued:
  assumes step: "mailbox_iteration env mb sock ql = Inr (mb', sock', ql')"
    and env: "mailbox_env_ok env" and inv: "queue_inv ql" and mb: "length (mb_header mb) = 24"
    and sock: "\<forall>(d, from) \<in> set sock. 4 \<le> length d"
  shows "length (mb_header mb') = 24 \<and> set sock' \<subseteq> set sock \<and> queued_after ql ql'"
proof (cases "is_data_available (me_ioctl env) sock")
  case False
  with step mb show ?thesis by (simp add: mailbox_iteration_def)
next
  case True
  then obtain d from_addr rest where s: "sock = (d, from_addr) # rest"
    by (auto simp: is_data_available_def split: list.splits if_splits)
  then have d: "4 \<le> length d"
    using sock by auto
  define header where "header = poke (mb_header mb) 0 (take 24 d)"
  have peek: "recv_message (me_peek_ok env) True (mb_header mb) (mb_clntaddr mb) sock
      = Some (int (min 24 (length d)), header, from_addr, sock)"
    using env mb by (simp add: recv_message_def s mailbox_env_ok_def header_def)
  have recv: "\<exists>n m. recv_message (me_recv_ok env) False block a sock = Some (n, m, from_addr, rest)" for block a
    using env by (simp add: recv_message_def s mailbox_env_ok_def)
  have header: "length header = 24" "mh_type (message_header_of header) = le_word (take 4 d)"
    using mb type_field_poke [OF d, of "mb_header mb"] type_field_header [of header]
    by (simp_all add: poke_def header_def)
  obtain header_ok header' where check: "check_message_crc header (of_nat message_header_size) = Some (header_ok, header')"
    using step True by (auto simp: mailbox_iteration_def or_fail_Inr peek)
  then have [simp]: "header' = header"
    by (rule check_message_crc_frame)
  show ?thesis
  proof (cases header_ok)
    case True
    then have "mailbox_message env (message_header_of header) (mb\<lparr>mb_header := header, mb_clntaddr := from_addr\<rparr>)
        ((d, from_addr) # rest) ql = Inr (mb', sock', ql')"
      using step \<open>is_data_available (me_ioctl env) sock\<close> by (simp add: mailbox_iteration_def or_fail_def peek check s [symmetric])
    from mailbox_message_queued [OF this env inv d header(2)] header(1) s show ?thesis
      by auto
  next
    case False
    then obtain block n m a where "me_malloc env message_header_size = Some block"
      "mb' = mb\<lparr>mb_header := header, mb_clntaddr := from_addr\<rparr>" "ql' = ql"
      "recv_message (me_recv_ok env) False block (me_item_addr env) sock = Some (n, m, a, sock')"
      using step \<open>is_data_available (me_ioctl env) sock\<close> recv
      by (auto simp: mailbox_iteration_def or_fail_Inr peek check)
    then show ?thesis
      using header(1) recv [of block "me_item_addr env"] s by auto
  qed
qed

lemma queued_after_inv:
  assumes "mailbox_inv ql" "queued_after ql ql'"
  shows "mailbox_inv ql' \<and>
    set (queue_list ql') \<subseteq> set (queue_list ql) \<union> {item. type_field (qi_message item) \<noteq> None}"
proof (cases "ql' = ql")
  case False
  then obtain item r where item: "\<not> queue_is_full ql" "queue_enqueue 0 0 item ql = Some (r, ql')"
    "type_field (qi_message item) \<noteq> None"
    "type_field (qi_message item) = Some (message_type_code HEARTBEAT) \<Longrightarrow>
      scan_items (qi_message item) (rev (queue_list ql)) = Some False"
    using assms(2) by (auto simp: queued_after_def)
  have "queue_inv ql'" "queue_list ql' = queue_list ql @ [item]"
    using queue_enqueue_room [of ql item] assms(1) item(1,2) by (auto simp: mailbox_inv_def)
  then show ?thesis
    using assms(1) item(3) scan_items_False [OF item(4)] by (auto simp: mailbox_inv_def)
qed (use assms in auto)

section \<open>The running tracker\<close>

text \<open>
  The state the threads of the tracker share, the mailbox thread's own variables, the request threads and what was
  sent. An event is a datagram arriving, an iteration of the mailbox or of the request loop, or a statement of a
  request thread; their order is arbitrary.
\<close>

record tracker_state =
  ts_mailbox :: mailbox
  ts_socket :: socket
  ts_queue :: "queue_item queue_lock"
  ts_threads :: "request_thread list"
  ts_db :: peer_table
  ts_sent :: "(bytes \<times> sockaddr_in) list"

datatype tracker_event =
    Arrive bytes sockaddr_in
  | MailboxIteration mailbox_env
  | RequestLoop int int bool
  | ThreadStatement nat bool "nat \<Rightarrow> bytes" "nat \<times> nat \<times> nat" int

text \<open>
  An iteration of \<^verbatim>\<open>handle_requests\<close>: the queue is tested without its mutex, then an item is dequeued and handed to
  a new thread; a failing \<^verbatim>\<open>pthread_create\<close> ends the process.
\<close>

definition handle_requests_iteration ::
  "int \<Rightarrow> int \<Rightarrow> bool \<Rightarrow> queue_item queue_lock \<Rightarrow> tracker_error + request_thread list \<times> queue_item queue_lock" where
  "handle_requests_iteration lock_rc unlock_rc create_ok ql =
     (if queue_is_empty ql then Inr ([], ql) else
      or_fail ProcessExit (queue_dequeue lock_rc unlock_rc ql) (\<lambda>(item, ql').
      if \<not> create_ok then Inl ProcessExit
      else or_fail MemoryError item (\<lambda>item. Inr ([\<lparr>rt_item = item, rt_pc = Dispatch\<rparr>], ql'))))"

fun tracker_step :: "tracker_event \<Rightarrow> tracker_state \<Rightarrow> tracker_error + tracker_state" where
  "tracker_step (Arrive d from_addr) s = Inr (s\<lparr>ts_socket := ts_socket s @ [(d, from_addr)]\<rparr>)"
| "tracker_step (MailboxIteration env) s =
     (case mailbox_iteration env (ts_mailbox s) (ts_socket s) (ts_queue s) of
        Inl e \<Rightarrow> Inl e
      | Inr (mb, sock, ql) \<Rightarrow> Inr (s\<lparr>ts_mailbox := mb, ts_socket := sock, ts_queue := ql\<rparr>))"
| "tracker_step (RequestLoop lock_rc unlock_rc create_ok) s =
     (case handle_requests_iteration lock_rc unlock_rc create_ok (ts_queue s) of
        Inl e \<Rightarrow> Inl e
      | Inr (ths, ql) \<Rightarrow> Inr (s\<lparr>ts_threads := ts_threads s @ ths, ts_queue := ql\<rparr>))"
| "tracker_step (ThreadStatement i sqlite_ok junk rands now) s =
     (if i < length (ts_threads s) then
        (case thread_statement sqlite_ok junk rands now (ts_db s) (ts_threads s ! i) of
           Inl e \<Rightarrow> Inl e
         | Inr (pc, out, db) \<Rightarrow>
             Inr (s\<lparr>ts_threads := (ts_threads s)[i := (ts_threads s ! i)\<lparr>rt_pc := pc\<rparr>],
                    ts_sent := ts_sent s @ out, ts_db := db\<rparr>))
      else Inr s)"

text \<open>
  \<^verbatim>\<open>main\<close>. What it gets from the system: the library functions of the address conversion, the return codes of \<^verbatim>\<open>socket\<close>,
  \<^verbatim>\<open>bind\<close> and \<^verbatim>\<open>pthread_create\<close>, whether SQLite opens the database and creates the table, the tables of existing database
  files, and the uninitialised variables of the mailbox thread. The result is the address the socket is bound to and the state
  from which the threads run; the clean-up behind the endless \<^verbatim>\<open>handle_requests\<close> is never reached.
\<close>

record tracker_system =
  tm_inet_addr :: "string \<Rightarrow> u32"
  tm_set_einval :: bool
  tm_errno :: int
  tm_socket :: int
  tm_bind :: int
  tm_sqlite :: "bool \<times> bool"
  tm_files :: "string \<Rightarrow> peer_table option"
  tm_create :: int
  tm_mailbox :: mailbox

definition tracker_main :: "tracker_system \<Rightarrow> string list \<Rightarrow> tracker_error + sockaddr_in \<times> tracker_state" where
  "tracker_main sys argv =
     (if length argv \<noteq> 4 then Inl ProcessExit else
      let addr = tm_inet_addr sys (argv ! 1);
          (rc, port, _) = convert_port (tm_set_einval sys) (tm_errno sys) (argv ! 2)
      in if rc < 0 then Inl ProcessExit else
      let pa = init_peer_address DOMAIN port addr in
      or_fail ProcessExit (initialize_srvr (tm_socket sys) (tm_bind sys) pa) (\<lambda>(_, sockaddr).
      db_bind (db_open (fst (tm_sqlite sys)) (snd (tm_sqlite sys)) (tm_files sys (argv ! 3))) (\<lambda>db.
      let ql = queue_init TRACKER_QUEUE_SIZE in
      if tm_create sys \<noteq> 0 then Inl ProcessExit
      else Inr (sockaddr, \<lparr>ts_mailbox = tm_mailbox sys, ts_socket = [], ts_queue = ql, ts_threads = [], ts_db = db,
                           ts_sent = []\<rparr>))))"

text \<open>
  The header buffer has the size of a header, and an existing database file holds a table that an earlier tracker left.
\<close>

definition tracker_system_ok :: "tracker_system \<Rightarrow> bool" where
  "tracker_system_ok sys \<longleftrightarrow>
     length (mb_header (tm_mailbox sys)) = 24 \<and> (\<forall>name t. tm_files sys name = Some t \<longrightarrow> table_inv t)"

text \<open>
  The environment considered: datagrams hold at least a message type, receives and \<^verbatim>\<open>malloc\<close> keep their contracts.
\<close>

fun tracker_env :: "tracker_event \<Rightarrow> bool" where
  "tracker_env (Arrive d from_addr) = (4 \<le> length d)"
| "tracker_env (MailboxIteration env) = mailbox_env_ok env"
| "tracker_env _ = True"

text \<open>The statements a thread of each message type goes through.\<close>

fun pc_type :: "request_pc \<Rightarrow> message_type option" where
  "pc_type HbCount = Some HEARTBEAT"
| "pc_type (HbSelect n) = Some HEARTBEAT"
| "pc_type HbExists = Some HEARTBEAT"
| "pc_type HbUpdate = Some HEARTBEAT"
| "pc_type AckExists = Some ACKNOWLEDGENETINFO"
| "pc_type AckInsert = Some ACKNOWLEDGENETINFO"
| "pc_type AckUpdate = Some ACKNOWLEDGENETINFO"
| "pc_type ExitRemove = Some EXIT"
| "pc_type _ = None"

definition thread_inv :: "request_thread \<Rightarrow> bool" where
  "thread_inv th \<longleftrightarrow> (case pc_type (rt_pc th) of
     None \<Rightarrow> True | Some ty \<Rightarrow> type_field (qi_message (rt_item th)) = Some (message_type_code ty))"

definition tracker_inv :: "tracker_state \<Rightarrow> bool" where
  "tracker_inv s \<longleftrightarrow>
     length (mb_header (ts_mailbox s)) = 24 \<and> (\<forall>(d, from_addr) \<in> set (ts_socket s). 4 \<le> length d) \<and>
     mailbox_inv (ts_queue s) \<and> q_max_size (ts_queue s) = TRACKER_QUEUE_SIZE \<and>
     table_inv (ts_db s) \<and> (\<forall>th \<in> set (ts_threads s). thread_inv th)"

lemma db_bind_Inr: "db_bind x f = Inr y \<longleftrightarrow> (\<exists>z. x = Inr z \<and> f z = Inr y)"
  by (auto simp: db_bind_def split: sum.splits db_error.splits)

lemma db_results_inv:
  "db_remove_peer ok t pa = Inr t' \<Longrightarrow> table_inv t \<Longrightarrow> table_inv t'"
  "db_insert_peer ok now t pa = Inr t' \<Longrightarrow> table_inv t \<Longrightarrow> table_inv t'"
  "db_update_peer_heartbeat ok now t pa = Inr t' \<Longrightarrow> table_inv t \<Longrightarrow> table_inv t'"
  by (auto simp: db_remove_peer_def db_insert_peer_eq db_update_peer_heartbeat_def table_inv_filter
      table_inv_insert table_inv_heartbeat split: if_splits)

definition known :: "peer_address \<Rightarrow> peer_table \<Rightarrow> bool" where
  "known pa t \<longleftrightarrow> pa \<in> row_address ` set t"

lemma db_results_known:
  "db_remove_peer ok t a = Inr t' \<Longrightarrow> known pa t' \<Longrightarrow> known pa t"
  "db_insert_peer ok now t a = Inr t' \<Longrightarrow> table_inv t \<Longrightarrow> known pa t' \<Longrightarrow> known pa t \<or> pa = a"
  "db_update_peer_heartbeat ok now t a = Inr t' \<Longrightarrow> known pa t' \<Longrightarrow> known pa t"
  by (auto simp: known_def db_remove_peer_def db_insert_peer_eq db_update_peer_heartbeat_def split: if_splits)

lemma thread_statement_inv:
  assumes "thread_statement ok junk rands now db th = Inr (pc, out, db')" "table_inv db" "thread_inv th"
  shows "table_inv db' \<and> thread_inv (th\<lparr>rt_pc := pc\<rparr>)"
  using assms
  by (cases "rt_pc th")
     (auto simp: thread_statement_def Let_def or_fail_Inr db_bind_Inr thread_inv_def dest: db_results_inv split: if_splits)

lemma queue_max_size:
  "queue_enqueue l u x ql = Some (r, ql') \<Longrightarrow> q_max_size ql' = q_max_size ql"
  "queue_dequeue l u ql = Some (r', ql') \<Longrightarrow> q_max_size ql' = q_max_size ql"
  by (auto simp: queue_enqueue_def queue_dequeue_def Let_def case_prod_beta split: if_splits)

lemma queue_dequeue_0: "queue_dequeue l u ql = Some r \<Longrightarrow> l = 0 \<and> u = 0"
  by (auto simp: queue_dequeue_def case_prod_beta Let_def split: if_splits)

lemma handle_requests_iteration_inv:
  assumes "handle_requests_iteration l u create_ok ql = Inr (ths, ql')" "mailbox_inv ql"
  shows "mailbox_inv ql' \<and> q_max_size ql' = q_max_size ql \<and> (\<forall>th \<in> set ths. thread_inv th)"
proof (cases "queue_is_empty ql")
  case False
  then obtain item where deq: "queue_dequeue l u ql = Some (Some item, ql')" "ths = [\<lparr>rt_item = item, rt_pc = Dispatch\<rparr>]"
    using assms(1) by (auto simp: handle_requests_iteration_def or_fail_Inr split: if_splits)
  have inv: "queue_inv ql"
    using assms(2) by (simp add: mailbox_inv_def)
  have "queue_dequeue 0 0 ql = Some (Some item, ql')"
    using deq(1) queue_dequeue_0 [OF deq(1)] by simp
  then have "queue_inv ql'" "queue_list ql = item # queue_list ql'"
    using queue_dequeue_cases [OF inv] by (cases "queue_list ql"; auto)+
  then show ?thesis
    using assms(2) deq queue_max_size(2) [OF deq(1)]
    by (auto simp: mailbox_inv_def thread_inv_def split: if_splits)
qed (use assms in \<open>auto simp: handle_requests_iteration_def\<close>)

lemma queued_after_max_size: "queued_after ql ql' \<Longrightarrow> q_max_size ql' = q_max_size ql"
  by (auto simp: queued_after_def dest: queue_max_size)

lemma tracker_step_inv:
  assumes "tracker_inv s" "tracker_env ev" "tracker_step ev s = Inr s'"
  shows "tracker_inv s'"
proof (cases ev)
  case (Arrive d from_addr)
  then show ?thesis
    using assms by (auto simp: tracker_inv_def)
next
  case (MailboxIteration env)
  obtain mb sock ql where step: "mailbox_iteration env (ts_mailbox s) (ts_socket s) (ts_queue s) = Inr (mb, sock, ql)"
    "s' = s\<lparr>ts_mailbox := mb, ts_socket := sock, ts_queue := ql\<rparr>"
    using assms(3) MailboxIteration by (auto split: sum.splits)
  have inv: "queue_inv (ts_queue s)" "length (mb_header (ts_mailbox s)) = 24"
    "\<forall>(d, from) \<in> set (ts_socket s). 4 \<le> length d" "mailbox_env_ok env"
    using assms(1,2) MailboxIteration by (auto simp: tracker_inv_def mailbox_inv_def)
  have "length (mb_header mb) = 24 \<and> set sock \<subseteq> set (ts_socket s) \<and> queued_after (ts_queue s) ql"
    by (rule mailbox_iteration_queued [OF step(1) inv(4,1-3)])
  then show ?thesis
    using assms(1) step(2) queued_after_inv [of "ts_queue s" ql] queued_after_max_size [of "ts_queue s" ql]
    by (auto simp: tracker_inv_def)
next
  case (RequestLoop l u c)
  then show ?thesis
    using assms handle_requests_iteration_inv [of l u c "ts_queue s"]
    by (fastforce simp: tracker_inv_def split: sum.splits)
next
  case (ThreadStatement i ok junk rands now)
  show ?thesis
  proof (cases "i < length (ts_threads s)")
    case True
    then obtain pc out db where step: "thread_statement ok junk rands now (ts_db s) (ts_threads s ! i) = Inr (pc, out, db)"
      "s' = s\<lparr>ts_threads := (ts_threads s)[i := (ts_threads s ! i)\<lparr>rt_pc := pc\<rparr>],
              ts_sent := ts_sent s @ out, ts_db := db\<rparr>"
      using assms(3) ThreadStatement by (auto split: sum.splits)
    have "table_inv (ts_db s)" "thread_inv (ts_threads s ! i)"
      using assms(1) True by (auto simp: tracker_inv_def)
    from thread_statement_inv [OF step(1) this] show ?thesis
      using assms(1) step(2) set_update_subset_insert [of "ts_threads s" i] by (auto simp: tracker_inv_def)
  qed (use assms ThreadStatement in auto)
qed

interpretation tracker_sys: guarded_system tracker_step tracker_env tracker_inv
  by unfold_locales (rule tracker_step_inv)

text \<open>
  The part of the invariant that needs no assumption on the environment: the queue is well formed and keeps its capacity, and
  the table is well formed, also when datagrams are shorter than a message type, receives fail or \<^verbatim>\<open>malloc\<close> misbehaves.
\<close>

definition tracker_safe :: "tracker_state \<Rightarrow> bool" where
  "tracker_safe s \<longleftrightarrow>
     queue_inv (ts_queue s) \<and> q_max_size (ts_queue s) = TRACKER_QUEUE_SIZE \<and> table_inv (ts_db s)"

lemma mailbox_place_safe:
  assumes "mailbox_place env ty found item ql = Inr (found', ql')" "queue_inv ql"
  shows "queue_inv ql' \<and> q_max_size ql' = q_max_size ql"
proof (cases "ql' = ql")
  case False
  then obtain r where "\<not> queue_is_full ql" "queue_enqueue (me_lock env) (me_unlock env) item ql = Some (r, ql')"
    using assms(1) by (auto simp: mailbox_place_def Let_def or_fail_Inr split: if_splits sum.splits)
  then show ?thesis
    using queue_enqueue_0 [of "me_lock env"] queue_max_size(1) queue_enqueue_room [OF assms(2), of item] by fastforce
qed (use assms(2) in simp)

lemma mailbox_message_safe:
  assumes "mailbox_message env header mb sock ql = Inr (mb', sock', ql')" "queue_inv ql"
  shows "queue_inv ql' \<and> q_max_size ql' = q_max_size ql"
  using assms
  by (auto simp: mailbox_message_def or_fail_Inr dest: mailbox_place_safe split: if_split_asm sum.split_asm prod.split_asm)

lemma mailbox_iteration_safe:
  assumes "mailbox_iteration env mb sock ql = Inr (mb', sock', ql')" "queue_inv ql"
  shows "queue_inv ql' \<and> q_max_size ql' = q_max_size ql"
  using assms
  by (auto simp: mailbox_iteration_def Let_def or_fail_Inr dest: mailbox_message_safe split: if_split_asm prod.split_asm)

lemma handle_requests_iteration_safe:
  assumes "handle_requests_iteration l u create_ok ql = Inr (ths, ql')" "queue_inv ql"
  shows "queue_inv ql' \<and> q_max_size ql' = q_max_size ql"
proof (cases "queue_is_empty ql")
  case False
  then obtain item where deq: "queue_dequeue l u ql = Some (Some item, ql')"
    using assms(1) by (auto simp: handle_requests_iteration_def or_fail_Inr split: if_splits)
  then have "queue_dequeue 0 0 ql = Some (Some item, ql')"
    using queue_dequeue_0 [OF deq] by simp
  then have "queue_inv ql'"
    using queue_dequeue_cases [OF assms(2)] by (cases "queue_list ql"; auto)
  then show ?thesis
    using queue_max_size(2) [OF deq] by blast
qed (use assms in \<open>auto simp: handle_requests_iteration_def\<close>)

lemma thread_statement_table:
  assumes "thread_statement ok junk rands now db th = Inr (pc, out, db')" "table_inv db"
  shows "table_inv db'"
  using assms
  by (cases "rt_pc th")
     (auto simp: thread_statement_def Let_def or_fail_Inr db_bind_Inr dest: db_results_inv split: if_splits)

lemma tracker_step_safe:
  assumes "tracker_safe s" "tracker_step ev s = Inr s'"
  shows "tracker_safe s'"
proof (cases ev)
  case (MailboxIteration env)
  then show ?thesis
    using assms mailbox_iteration_safe [of env "ts_mailbox s" "ts_socket s" "ts_queue s"]
    by (auto simp: tracker_safe_def split: sum.splits)
next
  case (RequestLoop l u c)
  then show ?thesis
    using assms handle_requests_iteration_safe [of l u c "ts_queue s"] by (auto simp: tracker_safe_def split: sum.splits)
next
  case (ThreadStatement i ok junk rands now)
  then show ?thesis
    using assms thread_statement_table [of ok junk rands now "ts_db s" "ts_threads s ! i"]
    by (auto simp: tracker_safe_def split: sum.splits if_splits)
qed (use assms in \<open>auto simp: tracker_safe_def\<close>)

interpretation tracker_any: guarded_system tracker_step "\<lambda>_. True" tracker_safe
  by unfold_locales (rule tracker_step_safe)

lemma tracker_main_inv:
  assumes "tracker_main sys argv = Inr (addr, s)" "tracker_system_ok sys"
  shows "tracker_inv s"
proof -
  have "8 * unat TRACKER_QUEUE_SIZE < 2 ^ 64"
    by (simp add: TRACKER_QUEUE_SIZE_def)
  then have "mailbox_inv (queue_init TRACKER_QUEUE_SIZE)"
    by (simp add: mailbox_inv_def queue_init_inv)
  moreover have "q_max_size (queue_init TRACKER_QUEUE_SIZE :: queue_item queue_lock) = TRACKER_QUEUE_SIZE"
    by (simp add: queue_init_def)
  ultimately show ?thesis
    using assms
    by (auto simp: tracker_main_def tracker_inv_def tracker_system_ok_def Let_def or_fail_Inr db_bind_Inr db_open_def
        split: if_splits prod.splits option.splits)
qed

lemma reachable_inv:
  "tracker_main sys argv = Inr (addr, s0) \<Longrightarrow> tracker_system_ok sys \<Longrightarrow> reaches tracker_step tracker_env s0 s \<Longrightarrow>
    tracker_inv s"
  by (rule tracker_sys.reaches_inv [OF _ tracker_main_inv])

text \<open>A start on an idle machine with a new database.\<close>

definition idle_system :: "mailbox \<Rightarrow> tracker_system" where
  "idle_system mb =
     \<lparr>tm_inet_addr = (\<lambda>_. 1), tm_set_einval = False, tm_errno = 0, tm_socket = 3, tm_bind = 0, tm_sqlite = (True, True),
      tm_files = (\<lambda>_. None), tm_create = 0, tm_mailbox = mb\<rparr>"

definition idle_start :: "mailbox \<Rightarrow> tracker_state" where
  "idle_start mb =
     \<lparr>ts_mailbox = mb, ts_socket = [], ts_queue = queue_init TRACKER_QUEUE_SIZE, ts_threads = [], ts_db = [], ts_sent = []\<rparr>"

lemma tracker_main_idle:
  "\<exists>addr. tracker_main (idle_system mb) [''tracker'', ''127.0.0.1'', ''any'', ''peers.db''] = Inr (addr, idle_start mb)"
proof -
  have "convert_port False 0 ''any'' = (0, 0, 0)"
    by (rule convert_port_no_digits) (auto simp: isdigit_def EINVAL_def ERANGE_def)
  then show ?thesis
    by (simp add: tracker_main_def idle_system_def idle_start_def Let_def or_fail_def db_bind_def db_open_def
        initialize_srvr_def)
qed

lemma idle_system_ok: "length (mb_header mb) = 24 \<Longrightarrow> tracker_system_ok (idle_system mb)"
  by (simp add: tracker_system_ok_def idle_system_def)

section \<open>Valid frames in the mailbox\<close>

lemma mailbox_iteration_frame:
  assumes frame: "frame_of mtype data = Some frame" "length data < 2 ^ 63" "even (length data)"
    and env: "mailbox_env_ok env" "me_ioctl env = 0" "me_malloc env (24 + length data) = Some block"
    and mb: "length (mb_header mb) = 24"
  shows "mailbox_iteration env mb ((frame, from_addr) # rest) ql =
    (case mailbox_place env (message_type_code mtype) (mb_found mb)
        \<lparr>qi_message = frame, qi_clntaddr = from_addr\<rparr> ql of
       Inl e \<Rightarrow> Inl e
     | Inr (found, ql') \<Rightarrow>
         Inr (\<lparr>mb_header = take 24 frame, mb_clntaddr = from_addr, mb_found = found\<rparr>, rest, ql'))"
proof -
  note hdr = frame_head [OF frame(1,2)]
  have len: "length frame = 24 + length data"
    by (rule length_frame_of [OF frame(1)])
  have check: "check_message_crc frame (mh_len (message_header_of frame)) = Some (True, frame)"
    using check_frame_of [OF frame(1,2)] frame(3) hdr(3) by simp
  have block: "length block = length frame"
    using env len by (auto simp: mailbox_env_ok_def)
  have ok: "me_peek_ok env" "me_recv_ok env"
    using env by (auto simp: mailbox_env_ok_def)
  have peek: "poke (mb_header mb) 0 (take 24 frame) = take 24 frame"
    using mb len by (simp add: poke_def)
  have mb_eq: "mb\<lparr>mb_header := take 24 frame, mb_clntaddr := from_addr, mb_found := found\<rparr>
      = \<lparr>mb_header = take 24 frame, mb_clntaddr = from_addr, mb_found = found\<rparr>" for found
    by (cases mb) simp
  have recv: "recv_message True False block a ((frame, from_addr) # rest)
      = Some (int (length frame), frame, from_addr, rest)" for a
    using recv_message_exact [OF block, of False a] by simp
  have msg: "mailbox_message env (message_header_of frame) mb' ((frame, from_addr) # rest) ql =
    (case mailbox_place env (message_type_code mtype) (mb_found mb')
        \<lparr>qi_message = frame, qi_clntaddr = from_addr\<rparr> ql of
       Inl e \<Rightarrow> Inl e | Inr (found, ql) \<Rightarrow> Inr (mb'\<lparr>mb_found := found\<rparr>, rest, ql))" for mb'
    by (simp add: mailbox_message_def or_fail_def ok recv check hdr(2,4) env(3))
  have "frame \<noteq> []"
    using len by auto
  then show ?thesis
    using mb
    by (simp add: mailbox_iteration_def is_data_available_def env(2) ok recv_message_def [of True True] or_fail_def peek
        message_header_size_def hdr(1,5) msg mb_eq split: sum.split)
qed

section \<open>Handlers on the map of peers\<close>

lemma handle_exit_abs:
  assumes "table_inv db" "peer_address_field (qi_message item) = Some pa"
  shows "\<exists>db'. handle_exit True db item = Inr db' \<and> table_inv db' \<and> db_abs db' = (db_abs db)(pa := None)"
  using assms
  by (auto simp: handle_exit_def or_fail_def db_bind_def db_remove_peer_def table_inv_filter db_abs_remove)

lemma handle_acknowledge_netinfo_abs:
  assumes "table_inv db" "peer_address_field (qi_message item) = Some pa"
  shows "\<exists>db'. handle_acknowledge_netinfo True now db item = Inr db' \<and> table_inv db' \<and>
    db_abs db' = (db_abs db)(pa \<mapsto> now)"
proof (cases "pa \<in> row_address ` set db")
  case True
  then have "db_abs db pa \<noteq> None" by (simp add: None_db_abs)
  with True assms show ?thesis
    by (auto simp: handle_acknowledge_netinfo_def or_fail_def db_bind_def db_peer_exists_eq
        db_update_peer_heartbeat_def table_inv_heartbeat db_abs_heartbeat)
next
  case False
  with assms show ?thesis
    by (simp add: handle_acknowledge_netinfo_def or_fail_def db_bind_def db_peer_exists_eq
        db_insert_peer_eq table_inv_insert db_abs_insert)
qed

lemma address_array_bytes_full:
  "address_array_bytes junk (map Some addrs) = concat (map peer_address_bytes addrs)"
proof -
  have "map2 (\<lambda>i a. case a of Some pa \<Rightarrow> peer_address_bytes pa | None \<Rightarrow> junk i) is (map Some addrs)
      = map peer_address_bytes addrs" if "length is = length addrs" for "is"
    using that by (induction "is" addrs rule: list_induct2) auto
  then show ?thesis
    by (simp add: address_array_bytes_def)
qed

lemma length_addresses: "length (concat (map peer_address_bytes addrs)) = 8 * length addrs"
  by (induction addrs) auto

lemma handle_heartbeat_abs:
  assumes inv: "table_inv db" and pa: "peer_address_field (qi_message item) = Some pa"
  shows "\<exists>addrs frame db'. handle_heartbeat True junk rands now db item = Inr ((frame, qi_clntaddr item), db') \<and>
    distinct addrs \<and> set addrs = {pa. \<exists>hb. db_abs db pa = Some hb \<and> now - hb < TIMEOUT_THRESHOLD} \<and>
    frame_of NETINFO (concat (map peer_address_bytes addrs)) = Some frame \<and> table_inv db' \<and>
    db_abs db' = (if db_abs db pa = None then db_abs db else (db_abs db)(pa \<mapsto> now))"
proof -
  define addrs where "addrs = map row_address (filter (live now TIMEOUT_THRESHOLD) db)"
  have addrs: "distinct addrs" "set addrs = {pa. \<exists>hb. db_abs db pa = Some hb \<and> now - hb < TIMEOUT_THRESHOLD}"
    using distinct_live [OF inv] live_addresses [OF inv] by (simp_all add: addrs_def)
  obtain frame where frame: "frame_of NETINFO (concat (map peer_address_bytes addrs)) = Some frame"
    using frame_of_total by blast
  then have reply: "netinfo_reply junk rands (qi_clntaddr item) (map Some addrs) = Some (frame, qi_clntaddr item)"
    by (cases rands)
       (simp add: netinfo_reply_def init_network_information_def send_message_def BITFLIP_CHANCE_def address_array_bytes_full)
  have list: "db_get_all_peer_addresses True (now, db) (now, db) TIMEOUT_THRESHOLD = Inr (map Some addrs)"
    by (simp add: db_get_all_peer_addresses_eq addrs_def)
  have "\<exists>db'. handle_heartbeat True junk rands now db item = Inr ((frame, qi_clntaddr item), db') \<and> table_inv db' \<and>
    db_abs db' = (if db_abs db pa = None then db_abs db else (db_abs db)(pa \<mapsto> now))"
    by (simp add: handle_heartbeat_def list db_bind_def or_fail_def pa reply db_peer_exists_eq [OF inv]
        db_update_peer_heartbeat_def table_inv_heartbeat [OF inv] inv db_abs_heartbeat [OF inv] None_db_abs)
  with addrs frame show ?thesis
    by blast
qed

section \<open>Undisturbed threads\<close>

text \<open>A request thread run to its end on a table that no other thread touches.\<close>

fun run_thread ::
  "nat \<Rightarrow> bool \<Rightarrow> (nat \<Rightarrow> bytes) \<Rightarrow> nat \<times> nat \<times> nat \<Rightarrow> int \<Rightarrow> peer_table \<Rightarrow> request_thread \<Rightarrow>
     tracker_error + (bytes \<times> sockaddr_in) list \<times> peer_table" where
  "run_thread 0 sqlite_ok junk rands now db th = Inr ([], db)"
| "run_thread (Suc n) sqlite_ok junk rands now db th =
     (case thread_statement sqlite_ok junk rands now db th of
        Inl e \<Rightarrow> Inl e
      | Inr (pc, out, db') \<Rightarrow>
          (case run_thread n sqlite_ok junk rands now db' (th\<lparr>rt_pc := pc\<rparr>) of
             Inl e \<Rightarrow> Inl e
           | Inr (out', db'') \<Rightarrow> Inr (out @ out', db'')))"

lemma run_thread_Finished [simp]:
  "run_thread n ok junk rands now db \<lparr>rt_item = item, rt_pc = Finished\<rparr> = Inr ([], db)"
  by (induction n) (simp_all add: thread_statement_def)

lemmas thread_simps = thread_statement_def or_fail_def db_bind_def

lemma case_or_fail:
  "(case or_fail e x f of Inl err \<Rightarrow> Inl err | Inr y \<Rightarrow> g y) = or_fail e x (\<lambda>z. case f z of Inl err \<Rightarrow> Inl err | Inr y \<Rightarrow> g y)"
  "(case db_bind x' f' of Inl err \<Rightarrow> Inl err | Inr y \<Rightarrow> g y) = db_bind x' (\<lambda>z. case f' z of Inl err \<Rightarrow> Inl err | Inr y \<Rightarrow> g y)"
  by (auto simp: or_fail_def db_bind_def split: option.splits sum.splits db_error.splits)

lemma run_thread_one:
  "run_thread (Suc n) ok junk rands now db th =
    (case thread_statement ok junk rands now db th of
       Inl e \<Rightarrow> Inl e
     | Inr (pc, out, db') \<Rightarrow>
         (case run_thread n ok junk rands now db' \<lparr>rt_item = rt_item th, rt_pc = pc\<rparr> of
            Inl e \<Rightarrow> Inl e | Inr (out', db'') \<Rightarrow> Inr (out @ out', db'')))"
  by (cases th) (simp split: sum.splits)

lemma run_thread_exit:
  "run_thread (Suc n) ok junk rands now db \<lparr>rt_item = item, rt_pc = ExitRemove\<rparr> =
    (case handle_exit ok db item of Inl e \<Rightarrow> Inl e | Inr db' \<Rightarrow> Inr ([], db'))"
  by (simp add: run_thread_one thread_statement_def handle_exit_def case_or_fail del: run_thread.simps cong: sum.case_cong)

lemma run_thread_update:
  "run_thread (Suc n) ok junk rands now db \<lparr>rt_item = item, rt_pc = AckInsert\<rparr> =
    or_fail MemoryError (peer_address_field (qi_message item)) (\<lambda>pa.
      db_bind (db_insert_peer ok now db pa) (\<lambda>db'. Inr ([], db')))"
  "run_thread (Suc n) ok junk rands now db \<lparr>rt_item = item, rt_pc = AckUpdate\<rparr> =
    or_fail MemoryError (peer_address_field (qi_message item)) (\<lambda>pa.
      db_bind (db_update_peer_heartbeat ok now db pa) (\<lambda>db'. Inr ([], db')))"
  "run_thread (Suc n) ok junk rands now db \<lparr>rt_item = item, rt_pc = HbUpdate\<rparr> =
    or_fail MemoryError (peer_address_field (qi_message item)) (\<lambda>pa.
      db_bind (db_update_peer_heartbeat ok now db pa) (\<lambda>db'. Inr ([], db')))"
  by (simp_all add: run_thread_one thread_statement_def case_or_fail del: run_thread.simps cong: sum.case_cong)

lemma db_bind_cong: "(\<And>y. f y = g y) \<Longrightarrow> db_bind x f = db_bind x g"
  by (simp add: db_bind_def split: sum.splits db_error.splits)

lemma run_thread_ack:
  "run_thread (Suc (Suc n)) ok junk rands now db \<lparr>rt_item = item, rt_pc = AckExists\<rparr> =
    (case handle_acknowledge_netinfo ok now db item of Inl e \<Rightarrow> Inl e | Inr db' \<Rightarrow> Inr ([], db'))"
  unfolding run_thread_one [of "Suc n"] handle_acknowledge_netinfo_def
  by (cases "peer_address_field (qi_message item)")
     (simp_all add: thread_statement_def or_fail_def case_or_fail del: run_thread.simps cong: sum.case_cong,
      auto intro!: db_bind_cong simp: run_thread_update or_fail_def case_or_fail simp del: run_thread.simps)

lemma run_thread_HbExists:
  "run_thread (Suc (Suc n)) ok junk rands now db \<lparr>rt_item = item, rt_pc = HbExists\<rparr> =
    or_fail MemoryError (peer_address_field (qi_message item)) (\<lambda>pa.
      db_bind (db_peer_exists ok db pa) (\<lambda>exists.
        if exists \<noteq> 0 then db_bind (db_update_peer_heartbeat ok now db pa) (\<lambda>db'. Inr ([], db')) else Inr ([], db)))"
  unfolding run_thread_one [of "Suc n"]
  by (cases "peer_address_field (qi_message item)")
     (simp_all add: thread_statement_def or_fail_def case_or_fail del: run_thread.simps cong: sum.case_cong,
      auto intro!: db_bind_cong simp: run_thread_update or_fail_def case_or_fail simp del: run_thread.simps)

lemma run_thread_HbSelect:
  "run_thread (Suc (Suc (Suc n))) ok junk rands now db \<lparr>rt_item = item, rt_pc = HbSelect n_items\<rparr> =
    db_bind (exec_rows fill_peeraddress_table (number_rows (filter (live now TIMEOUT_THRESHOLD) db))
      (replicate n_items None)) (\<lambda>network_information.
    or_fail MemoryError (netinfo_reply junk rands (qi_clntaddr item) network_information) (\<lambda>reply.
      case run_thread (Suc (Suc n)) ok junk rands now db \<lparr>rt_item = item, rt_pc = HbExists\<rparr> of
        Inl e \<Rightarrow> Inl e | Inr (out, db') \<Rightarrow> Inr (reply # out, db')))"
  by (subst run_thread.simps(2)) (simp add: thread_statement_def case_or_fail del: run_thread.simps cong: sum.case_cong)

lemma run_thread_HbCount:
  "run_thread (Suc n) ok junk rands now db \<lparr>rt_item = item, rt_pc = HbCount\<rparr> =
    db_bind (get_number_of_peers ok now db TIMEOUT_THRESHOLD) (\<lambda>n_items.
      run_thread n ok junk rands now db \<lparr>rt_item = item, rt_pc = HbSelect n_items\<rparr>)"
  unfolding run_thread_one [of n]
  by (simp add: thread_statement_def case_or_fail del: run_thread.simps cong: sum.case_cong)
     (auto intro!: db_bind_cong split: sum.splits simp del: run_thread.simps)

lemma db_bind_get_all:
  "db_bind (get_number_of_peers ok now db thr) (\<lambda>n_items.
     db_bind (exec_rows fill_peeraddress_table (number_rows (filter (live now thr) db)) (replicate n_items None)) f)
   = db_bind (db_get_all_peer_addresses ok (now, db) (now, db) thr) f"
  by (auto simp: db_get_all_peer_addresses_def db_bind_def split: sum.splits db_error.splits)

lemma run_thread_heartbeat:
  "run_thread (Suc (Suc (Suc (Suc n)))) ok junk rands now db \<lparr>rt_item = item, rt_pc = HbCount\<rparr> =
    (case handle_heartbeat ok junk rands now db item of Inl e \<Rightarrow> Inl e | Inr (reply, db') \<Rightarrow> Inr ([reply], db'))"
  unfolding run_thread_HbCount run_thread_HbSelect db_bind_get_all run_thread_HbExists handle_heartbeat_def case_or_fail
  by (simp add: if_distrib case_or_fail cong: if_cong)

lemma mailbox_place_other:
  assumes "me_lock env = 0" "me_unlock env = 0" "queue_inv ql" "header_type \<noteq> message_type_code HEARTBEAT"
  shows "\<exists>ql'. mailbox_place env header_type found item ql = Inr (found, ql') \<and>
    queue_list ql' = (if found \<or> queue_is_full ql then queue_list ql else queue_list ql @ [item]) \<and> queue_inv ql'"
  using assms queue_enqueue_room [OF assms(3), of item] by (auto simp: mailbox_place_def or_fail_def)

lemma mailbox_place_heartbeat:
  assumes "me_lock env = 0" "me_unlock env = 0" "queue_inv ql"
    "scan_items (qi_message item) (rev (queue_list ql)) = Some dup"
  shows "\<exists>ql'. mailbox_place env (message_type_code HEARTBEAT) found item ql = Inr (dup, ql') \<and>
    queue_list ql' = (if dup \<or> queue_is_full ql then queue_list ql else queue_list ql @ [item])"
  using assms queue_enqueue_room [OF assms(3), of item]
  by (auto simp: mailbox_place_def or_fail_def mailbox_scan_queue simp del: upt_Suc One_nat_def)

section \<open>Properties of the tracker\<close>

text \<open>
  C3: In every state that a tracker can reach once \<^verbatim>\<open>main\<close> has started it, on a new database or one an earlier tracker left,
  the queue holds at most its 20 entries and the table of peers is well formed with one row per address: whatever datagrams
  arrive, of any length, whichever receives, allocations, locks and SQLite calls fail, and however the mailbox, the request
  loop and the statements of the request threads interleave. No peer has two heartbeats in the queue as long as every datagram
  holds at least a message type, the receives succeed and \<^verbatim>\<open>malloc\<close> returns blocks of the requested size: the mailbox checks
  none of this, and scans for a queued heartbeat by the type in its header buffer, where a shorter datagram or a failed receive
  leaves an earlier header (\<open>short_datagrams_queue_twice\<close> is a run that queues two heartbeats of one peer so).
\<close>

theorem tracker_reachable_wellformed:
  assumes "tracker_main sys argv = Inr (addr, s0)" "tracker_system_ok sys" "reaches tracker_step (\<lambda>_. True) s0 s"
  shows "length (queue_list (ts_queue s)) \<le> 20 \<and> table_inv (ts_db s) \<and>
    (reaches tracker_step tracker_env s0 s \<longrightarrow> distinct (heartbeat_peers (queue_list (ts_queue s))))"
proof -
  have "tracker_safe s0"
    using tracker_main_inv [OF assms(1,2)] by (simp add: tracker_inv_def mailbox_inv_def tracker_safe_def)
  from tracker_any.reaches_inv [OF assms(3) this] have "length (queue_list (ts_queue s)) \<le> 20 \<and> table_inv (ts_db s)"
    by (auto simp: tracker_safe_def queue_inv_def TRACKER_QUEUE_SIZE_def)
  moreover have "distinct (heartbeat_peers (queue_list (ts_queue s)))" if "reaches tracker_step tracker_env s0 s"
    using reachable_inv [OF assms(1,2) that] by (simp add: tracker_inv_def mailbox_inv_def)
  ultimately show ?thesis
    by blast
qed

text \<open>A datagram of one byte, which the environment of the last clause excludes, and one of four, which it admits.\<close>

theorem tracker_reachable_wellformed_witness:
  "(\<exists>s :: tracker_state. ts_socket s = [([7], \<lparr>sin_family = 2, sin_port = 7, sin_addr = 9\<rparr>)] \<and>
      length (queue_list (ts_queue s)) \<le> 20 \<and> table_inv (ts_db s)) \<and>
   (\<exists>s :: tracker_state. ts_socket s = [([1, 2, 3, 4], \<lparr>sin_family = 2, sin_port = 7, sin_addr = 9\<rparr>)] \<and>
      distinct (heartbeat_peers (queue_list (ts_queue s))))"
proof -
  let ?mb = "\<lparr>mb_header = replicate 24 0, mb_clntaddr = \<lparr>sin_family = 0, sin_port = 0, sin_addr = 0\<rparr>, mb_found = True\<rparr>"
  let ?ev = "\<lambda>d. Arrive d \<lparr>sin_family = 2, sin_port = 7, sin_addr = 9\<rparr>"
  let ?s = "\<lambda>d. idle_start ?mb\<lparr>ts_socket := [(d, \<lparr>sin_family = 2, sin_port = 7, sin_addr = 9\<rparr>)]\<rparr>"
  obtain addr where main: "tracker_main (idle_system ?mb) [''tracker'', ''127.0.0.1'', ''any'', ''peers.db''] = Inr (addr, idle_start ?mb)"
    using tracker_main_idle by blast
  have step: "tracker_step (?ev d) (idle_start ?mb) = Inr (?s d)" for d
    by (simp add: idle_start_def)
  have any: "reaches tracker_step (\<lambda>_. True) (idle_start ?mb) (?s d)" for d
    by (rule reaches_step [OF reaches_refl, where e = "?ev d"]) (use step in simp_all)
  have env: "reaches tracker_step tracker_env (idle_start ?mb) (?s [1, 2, 3, 4])"
    by (rule reaches_step [OF reaches_refl, where e = "?ev [1, 2, 3, 4]"]) (use step in simp_all)
  have "tracker_system_ok (idle_system ?mb)"
    by (rule idle_system_ok) simp
  note main_ok = tracker_reachable_wellformed [OF main this any]
  have "length (queue_list (ts_queue (?s [7]))) \<le> 20 \<and> table_inv (ts_db (?s [7]))"
    using main_ok [of "[7]"] by blast
  moreover have "distinct (heartbeat_peers (queue_list (ts_queue (?s [1, 2, 3, 4]))))"
    using main_ok [of "[1, 2, 3, 4]"] env by blast
  ultimately show ?thesis
    by (intro conjI exI [of _ "?s [7]"] exI [of _ "?s [1, 2, 3, 4]"]) (simp_all add: idle_start_def)
qed

lemma frame_fields:
  assumes "frame_of mtype (peer_address_bytes pa) = Some frame"
  shows "type_field frame = Some (message_type_code mtype)" "peer_address_field frame = Some pa"
proof -
  obtain mh where mh: "frame = message_header_bytes mh @ peer_address_bytes pa" "mh_type mh = message_type_code mtype"
    using assms by (auto simp: frame_of_Some)
  show "type_field frame = Some (message_type_code mtype)"
    by (simp add: mh type_field_header)
  show "peer_address_field frame = Some pa"
    using peer_address_of_bytes [of pa "[]"]
    by (simp add: mh(1) peer_address_field_def read_bytes_def message_header_size_def)
qed

text \<open>
  Why the last clause of the property above needs its condition. A datagram of one byte \<open>0\<close> is read over a header that is left from
  before, of a type that is no request; the block that \<^verbatim>\<open>malloc\<close> returns still holds a heartbeat. The heartbeat passes the check and
  is queued without a scan, as often as such a datagram comes.
\<close>

lemma short_datagram_iteration:
  assumes hb: "frame_of HEARTBEAT (peer_address_bytes pa) = Some frame"
    and mh: "mh_type mh = 256" "mh_len mh = 32"
      "mh_header_checksum mh = crc_value (take 22 (message_header_bytes (mh\<lparr>mh_header_checksum := 0\<rparr>)))"
    and env: "mailbox_env_ok env" "me_ioctl env = 0" "me_lock env = 0" "me_unlock env = 0" "me_malloc env 32 = Some frame"
    and q: "queue_inv ql" "\<not> queue_is_full ql"
  shows "\<exists>ql'. mailbox_iteration env \<lparr>mb_header = message_header_bytes mh, mb_clntaddr = a, mb_found = False\<rparr> [([0], a)] ql =
      Inr (\<lparr>mb_header = message_header_bytes mh, mb_clntaddr = a, mb_found = False\<rparr>, [], ql') \<and>
    queue_inv ql' \<and> queue_list ql' = queue_list ql @ [\<lparr>qi_message = frame, qi_clntaddr = a\<rparr>]"
proof -
  let ?hb = "message_header_bytes mh"
  let ?mb = "\<lparr>mb_header = ?hb, mb_clntaddr = a, mb_found = False\<rparr>"
  let ?item = "\<lparr>qi_message = frame, qi_clntaddr = a\<rparr>"
  have frame: "poke frame 0 [0] = frame" "length frame = 32"
    using hb length_frame_of [OF hb] by (auto simp: frame_of_Some message_header_bytes_def poke_def eval_nat_numeral)
  have "le_bytes (Suc 3) (256 :: u32) = 0 # le_bytes 3 (drop_bit 8 (256 :: u32))"
    by (simp only: le_bytes.simps) simp
  then have header: "poke ?hb 0 [0] = ?hb"
    by (simp add: message_header_bytes_def poke_def mh(1))
  have avail: "is_data_available (me_ioctl env) [([0], a)]"
    by (simp add: is_data_available_def env(2))
  have peek: "recv_message (me_peek_ok env) True ?hb a [([0], a)] = Some (1, ?hb, a, [([0], a)])"
    using env(1) header by (simp add: recv_message_def mailbox_env_ok_def)
  have recv: "recv_message (me_recv_ok env) False frame from [([0], a)] = Some (1, frame, a, [])" for "from"
    using env(1) frame by (simp add: recv_message_def mailbox_env_ok_def)
  have check: "check_message_crc ?hb 24 = Some (True, ?hb)"
    using check_message_crc_split [of ?hb "[]"] header_check_own [OF mh(3)] by (simp add: header_slices)
  have fields: "message_header_of ?hb = mh"
    using message_header_of_bytes [of mh "[]"] by simp
  have frame_check: "check_message_crc frame 32 = Some (True, frame)"
    using check_frame_of [OF hb] by simp
  obtain ql' where place: "mailbox_place env 256 False ?item ql = Inr (False, ql')" "queue_inv ql'"
    "queue_list ql' = queue_list ql @ [?item]"
    using mailbox_place_other [OF env(3,4) q(1), of 256 False ?item] q(2) by auto
  have "mailbox_message env mh ?mb [([0], a)] ql = Inr (?mb, [], ql')"
    by (simp add: mailbox_message_def or_fail_def mh(1,2) env(5) recv frame_check place(1))
  then have "mailbox_iteration env ?mb [([0], a)] ql = Inr (?mb, [], ql')"
    by (simp add: mailbox_iteration_def avail or_fail_def peek check fields message_header_size_def)
  with place show ?thesis
    by blast
qed

lemma short_datagrams_queue_twice:
  fixes pa :: peer_address
  shows "\<exists>mb s. length (mb_header mb) = 24 \<and> reaches tracker_step (\<lambda>_. True) (idle_start mb) s \<and>
    heartbeat_peers (queue_list (ts_queue s)) = [Some pa, Some pa]"
proof -
  obtain frame where hb: "frame_of HEARTBEAT (peer_address_bytes pa) = Some frame"
    using frame_of_total by blast
  define mh0 where "mh0 = \<lparr>mh_type = 256, mh_len = 32, mh_data_checksum = 0, mh_header_checksum = 0\<rparr>"
  define mh where "mh = mh0\<lparr>mh_header_checksum := crc_value (take 22 (message_header_bytes mh0))\<rparr>"
  have mh: "mh_type mh = 256" "mh_len mh = 32"
    "mh_header_checksum mh = crc_value (take 22 (message_header_bytes (mh\<lparr>mh_header_checksum := 0\<rparr>)))"
    by (simp_all add: mh_def mh0_def)
  define env where "env = \<lparr>me_ioctl = 0, me_peek_ok = True, me_recv_ok = True, me_item_addr = a,
    me_lock = 0, me_unlock = 0, me_malloc = (\<lambda>n. if n = 32 then Some frame else None)\<rparr>"
  have env: "mailbox_env_ok env" "me_ioctl env = 0" "me_lock env = 0" "me_unlock env = 0" "me_malloc env 32 = Some frame"
    using length_frame_of [OF hb] by (simp_all add: env_def mailbox_env_ok_def)
  define mb where "mb = \<lparr>mb_header = message_header_bytes mh, mb_clntaddr = a, mb_found = False\<rparr>"
  define item where "item = \<lparr>qi_message = frame, qi_clntaddr = a\<rparr>"
  define q0 :: "queue_item queue_lock" where "q0 = queue_init TRACKER_QUEUE_SIZE"
  have q0: "queue_inv q0" "queue_list q0 = []" "q_max_size q0 = 20"
    unfolding q0_def by (rule queue_init_inv, simp add: TRACKER_QUEUE_SIZE_def, simp)
      (simp add: queue_init_def TRACKER_QUEUE_SIZE_def)
  note iteration = short_datagram_iteration [OF hb mh env, of _ a, folded mb_def item_def]
  obtain q1 where q1: "mailbox_iteration env mb [([0], a)] q0 = Inr (mb, [], q1)" "queue_inv q1" "queue_list q1 = [item]"
    using iteration [OF q0(1)] queue_is_full_iff [OF q0(1)] q0 by auto
  have "q_max_size q1 = 20"
    using mailbox_iteration_safe [OF q1(1) q0(1)] q0(3) by simp
  then obtain q2 where q2: "mailbox_iteration env mb [([0], a)] q1 = Inr (mb, [], q2)" "queue_list q2 = [item, item]"
    using iteration [OF q1(2)] queue_is_full_iff [OF q1(2)] q1(3) by auto
  let ?s = "\<lambda>sock q. idle_start mb\<lparr>ts_socket := sock, ts_queue := q\<rparr>"
  let ?R = "reaches tracker_step (\<lambda>_. True) (idle_start mb)"
  have "?R (?s [] q0)"
    using reaches_refl [of tracker_step "\<lambda>_. True" "idle_start mb"] by (simp add: idle_start_def q0_def)
  then have "?R (?s [([0], a)] q0)"
    by (rule reaches_step [where e = "Arrive [0] a"]) (simp_all add: idle_start_def)
  then have "?R (?s [] q1)"
    by (rule reaches_step [where e = "MailboxIteration env"]) (use q1(1) in \<open>simp_all add: idle_start_def\<close>)
  then have "?R (?s [([0], a)] q1)"
    by (rule reaches_step [where e = "Arrive [0] a"]) (simp_all add: idle_start_def)
  then have "?R (?s [] q2)"
    by (rule reaches_step [where e = "MailboxIteration env"]) (use q2(1) in \<open>simp_all add: idle_start_def\<close>)
  moreover have "heartbeat_peers (queue_list (ts_queue (?s [] q2))) = [Some pa, Some pa]"
    using frame_fields [OF hb] q2(2) by (simp add: item_def)
  ultimately show ?thesis
    by (intro exI [of _ mb] exI [of _ "?s [] q2"]) (simp add: mb_def)
qed

text \<open>A run of the tracker that receives, queues and starts to handle one acknowledgement.\<close>

lemma acknowledgement_run:
  fixes pa :: peer_address
  shows "\<exists>mb s frame. length (mb_header mb) = 24 \<and> reaches tracker_step tracker_env (idle_start mb) s \<and>
    frame_of ACKNOWLEDGENETINFO (peer_address_bytes pa) = Some frame \<and> ts_db s = [] \<and>
    ts_threads s = [\<lparr>rt_item = \<lparr>qi_message = frame, qi_clntaddr = a\<rparr>, rt_pc = AckInsert\<rparr>]"
proof -
  obtain frame where frame: "frame_of ACKNOWLEDGENETINFO (peer_address_bytes pa) = Some frame"
    using frame_of_total by blast
  define mb where "mb = \<lparr>mb_header = replicate 24 0, mb_clntaddr = a, mb_found = False\<rparr>"
  define env where "env = \<lparr>me_ioctl = 0, me_peek_ok = True, me_recv_ok = True, me_item_addr = a,
    me_lock = 0, me_unlock = 0, me_malloc = (\<lambda>n. Some (replicate n (0 :: u8)))\<rparr>"
  define item where "item = \<lparr>qi_message = frame, qi_clntaddr = a\<rparr>"
  define q0 :: "queue_item queue_lock" where "q0 = queue_init TRACKER_QUEUE_SIZE"
  have q0: "queue_inv q0" "queue_list q0 = []" "\<not> queue_is_full q0"
    unfolding q0_def by (rule queue_init_inv, simp add: TRACKER_QUEUE_SIZE_def, simp)
      (simp add: queue_is_full_def queue_init_def TRACKER_QUEUE_SIZE_def)
  have env: "mailbox_env_ok env" "me_ioctl env = 0" "me_malloc env (24 + length (peer_address_bytes pa)) = Some (replicate 32 0)"
    "me_lock env = 0" "me_unlock env = 0"
    by (simp_all add: env_def mailbox_env_ok_def)
  obtain ql where ql: "mailbox_place env (message_type_code ACKNOWLEDGENETINFO) False item q0 = Inr (False, ql)"
    "queue_list ql = [item]" "queue_inv ql"
    using mailbox_place_other [OF env(4,5) q0(1), of "message_type_code ACKNOWLEDGENETINFO" False item] q0 by auto
  obtain ql' where ql': "queue_dequeue 0 0 ql = Some (Some item, ql')"
    using queue_dequeue_cases [OF ql(3)] ql(2) by auto
  have fields: "type_field (qi_message item) = Some 4" "peer_address_field (qi_message item) = Some pa"
    using frame_fields [OF frame] by (simp_all add: item_def)
  let ?mb' = "\<lparr>mb_header = take 24 frame, mb_clntaddr = a, mb_found = False\<rparr>"
  let ?s1 = "idle_start mb\<lparr>ts_socket := [(frame, a)]\<rparr>"
  let ?s2 = "idle_start mb\<lparr>ts_mailbox := ?mb', ts_queue := ql\<rparr>"
  let ?s3 = "\<lambda>pc. idle_start mb\<lparr>ts_mailbox := ?mb', ts_queue := ql', ts_threads := [\<lparr>rt_item = item, rt_pc = pc\<rparr>]\<rparr>"
  let ?t = "ThreadStatement 0 True (\<lambda>_. []) (0, 0, 0) 0"
  let ?R = "reaches tracker_step tracker_env (idle_start mb)"
  have "?R (idle_start mb)" by (rule reaches_refl)
  then have "?R ?s1"
    by (rule reaches_step [where e = "Arrive frame a"])
       (use length_frame_of [OF frame] in \<open>simp_all add: idle_start_def\<close>)
  then have "?R ?s2"
    by (rule reaches_step [where e = "MailboxIteration env"])
       (use mailbox_iteration_frame [OF frame _ _ env(1-3), of mb a "[]" q0] ql(1) env(1) in
         \<open>simp_all add: idle_start_def q0_def mb_def item_def\<close>)
  then have "?R (?s3 Dispatch)"
    by (rule reaches_step [where e = "RequestLoop 0 0 True"])
       (use ql ql' in \<open>simp_all add: handle_requests_iteration_def or_fail_def queue_is_empty_iff idle_start_def\<close>)
  then have "?R (?s3 AckExists)"
    by (rule reaches_step [where e = ?t]) (simp_all add: thread_statement_def or_fail_def fields idle_start_def)
  then have "?R (?s3 AckInsert)"
    by (rule reaches_step [where e = ?t])
       (simp_all add: thread_statement_def or_fail_def db_bind_def db_peer_exists_def fields idle_start_def)
  then show ?thesis
    using frame by (intro exI [of _ mb] exI [of _ "?s3 AckInsert"] exI [of _ frame]) (simp add: mb_def idle_start_def item_def)
qed

text \<open>
  C11: A peer enters the table only by the insertion of a thread that handles an acknowledgement carrying exactly its address:
  no heartbeat, exit message or message of another type ever registers anybody, in any interleaving.
\<close>

theorem only_acknowledgements_register:
  assumes "tracker_main sys argv = Inr (addr, s0)" "tracker_system_ok sys" "reaches tracker_step tracker_env s0 s"
    "tracker_step ev s = Inr s'" "pa \<in> dom (db_abs (ts_db s'))" "pa \<notin> dom (db_abs (ts_db s))"
  shows "\<exists>th \<in> set (ts_threads s). rt_pc th = AckInsert \<and>
    type_field (qi_message (rt_item th)) = Some (message_type_code ACKNOWLEDGENETINFO) \<and>
    peer_address_field (qi_message (rt_item th)) = Some pa"
proof -
  have inv: "table_inv (ts_db s)" "\<forall>th \<in> set (ts_threads s). thread_inv th"
    using reachable_inv [OF assms(1-3)] by (auto simp: tracker_inv_def)
  have "ts_db s' \<noteq> ts_db s"
    using assms(5,6) by auto
  then obtain i ok junk rands now pc out where i: "i < length (ts_threads s)"
    and stm: "thread_statement ok junk rands now (ts_db s) (ts_threads s ! i) = Inr (pc, out, ts_db s')"
    using assms(4) by (cases ev) (auto split: sum.splits if_splits)
  let ?th = "ts_threads s ! i"
  have "known pa (ts_db s')" "\<not> known pa (ts_db s)"
    using assms(5,6) by (simp_all only: dom_db_abs known_def not_False_eq_True)
  then have "rt_pc ?th = AckInsert \<and> peer_address_field (qi_message (rt_item ?th)) = Some pa"
    using stm
    by (cases "rt_pc ?th")
       (auto simp: thread_statement_def Let_def or_fail_Inr db_bind_Inr inv(1) dest: db_results_known split: if_splits)
  then show ?thesis
    using inv(2) nth_mem [OF i] by (force simp: thread_inv_def intro!: bexI [of _ ?th])
qed

theorem only_acknowledgements_register_witness:
  "\<exists>mb s s'. (\<exists>addr. tracker_main (idle_system mb) [''tracker'', ''127.0.0.1'', ''any'', ''peers.db''] = Inr (addr, idle_start mb)) \<and>
    reaches tracker_step tracker_env (idle_start mb) s \<and>
    tracker_step (ThreadStatement 0 True (\<lambda>_. []) (0, 0, 0) 9) s = Inr s' \<and>
    init_peer_address 2 80 1 \<in> dom (db_abs (ts_db s')) \<and>
    (\<exists>th \<in> set (ts_threads s). rt_pc th = AckInsert \<and>
      type_field (qi_message (rt_item th)) = Some (message_type_code ACKNOWLEDGENETINFO) \<and>
      peer_address_field (qi_message (rt_item th)) = Some (init_peer_address 2 80 1))"
proof -
  let ?pa = "init_peer_address 2 80 1"
  obtain mb s frame where run: "length (mb_header mb) = 24" "reaches tracker_step tracker_env (idle_start mb) s"
    "frame_of ACKNOWLEDGENETINFO (peer_address_bytes ?pa) = Some frame" "ts_db s = []"
    "ts_threads s = [\<lparr>rt_item = \<lparr>qi_message = frame, qi_clntaddr = \<lparr>sin_family = 2, sin_port = 9, sin_addr = 1\<rparr>\<rparr>, rt_pc = AckInsert\<rparr>]"
    using acknowledgement_run by blast
  obtain s' where s': "tracker_step (ThreadStatement 0 True (\<lambda>_. []) (0, 0, 0) 9) s = Inr s'" "ts_db s' = [address_row ?pa 9]"
    using run(4,5) frame_fields [OF run(3)]
    by (auto simp: thread_statement_def or_fail_def db_bind_def db_insert_peer_eq)
  have new: "?pa \<in> dom (db_abs (ts_db s'))" "?pa \<notin> dom (db_abs (ts_db s))"
    by (simp_all add: s'(2) run(4) db_abs_def)
  obtain addr where main: "tracker_main (idle_system mb) [''tracker'', ''127.0.0.1'', ''any'', ''peers.db''] = Inr (addr, idle_start mb)"
    using tracker_main_idle by blast
  from only_acknowledgements_register [OF main idle_system_ok [OF run(1)] run(2) s'(1) new] main run(2) s'(1) new(1) show ?thesis
    by blast
qed

text \<open>
  Two acknowledgements of one unregistered peer, handled by two threads whose statements alternate, end the tracker: both
  find the peer missing, and the second insertion violates the primary key.
\<close>

lemma concurrent_acknowledgements_exit:
  assumes "table_inv (ts_db s)" "i < length (ts_threads s)" "j < length (ts_threads s)" "i \<noteq> j"
    "rt_pc (ts_threads s ! i) = AckExists" "rt_pc (ts_threads s ! j) = AckExists"
    "peer_address_field (qi_message (rt_item (ts_threads s ! i))) = Some pa"
    "peer_address_field (qi_message (rt_item (ts_threads s ! j))) = Some pa"
    "db_abs (ts_db s) pa = None"
  shows "run_events tracker_step
    [ThreadStatement i True junk rands now, ThreadStatement j True junk rands now,
     ThreadStatement i True junk rands now, ThreadStatement j True junk rands now] s = Inl ProcessExit"
  using assms
  by (simp add: thread_statement_def or_fail_def db_bind_def db_peer_exists_eq None_db_abs db_insert_peer_eq
      table_inv_insert)

definition ack_thread :: "bytes \<Rightarrow> request_thread" where
  "ack_thread data =
     \<lparr>rt_item = \<lparr>qi_message = replicate 24 0 @ data, qi_clntaddr = \<lparr>sin_family = 0, sin_port = 0, sin_addr = 0\<rparr>\<rparr>,
      rt_pc = AckExists\<rparr>"

text \<open>
  Undisturbed by other threads, the statements of a request thread together do what the handler of its message type does as
  one piece of code, errors included. Both translate the same lines; what they do is the subject of the property below.
\<close>

lemma request_thread_implements_handler:
  "run_thread (5 + n) sqlite_ok junk rands now db \<lparr>rt_item = item, rt_pc = Dispatch\<rparr>
    = handle_request sqlite_ok junk rands now db item"
proof -
  have "run_thread (Suc (Suc (Suc (Suc (Suc n))))) sqlite_ok junk rands now db \<lparr>rt_item = item, rt_pc = Dispatch\<rparr>
    = handle_request sqlite_ok junk rands now db item"
    unfolding run_thread_one [of "Suc (Suc (Suc (Suc n)))"] handle_request_def
    by (cases "type_field (qi_message item)")
       (auto simp: thread_statement_def or_fail_def run_thread_heartbeat run_thread_exit run_thread_ack
          split: sum.splits simp del: run_thread.simps)
  moreover have "5 + n = Suc (Suc (Suc (Suc (Suc n))))"
    by simp
  ultimately show ?thesis
    by (simp only:)
qed

text \<open>
  A handled acknowledgement registers its peer or renews its heartbeat, an exit message removes its peer, and messages of a type that
  is no request change nothing; none of them is answered.
\<close>

lemma handle_request_updates:
  assumes "table_inv db" "type_field (qi_message item) = Some ty" "peer_address_field (qi_message item) = Some pa"
    "ty \<noteq> message_type_code HEARTBEAT"
  shows "\<exists>db'. handle_request True junk rands now db item = Inr ([], db') \<and> table_inv db' \<and>
    db_abs db' =
      (if ty = message_type_code ACKNOWLEDGENETINFO then (db_abs db)(pa \<mapsto> now)
       else if ty = message_type_code EXIT then (db_abs db)(pa := None)
       else db_abs db)"
  using assms(2,4) assms(1) handle_exit_abs [OF assms(1,3)] handle_acknowledge_netinfo_abs [OF assms(1,3), of now]
  by (auto simp: handle_request_def or_fail_def)

text \<open>
  A handled heartbeat is answered, to the address it came from, with one \<^verbatim>\<open>NETINFO\<close> frame that lists exactly the peers whose
  heartbeat is less than 60 seconds old and passes the receiver's check; the heartbeat renews a registered peer and registers no
  other.
\<close>

theorem handle_request_heartbeat:
  assumes "table_inv db" "type_field (qi_message item) = Some (message_type_code HEARTBEAT)"
    "peer_address_field (qi_message item) = Some pa" "8 * length db < 2 ^ 63"
  shows "\<exists>addrs frame db'. handle_request True junk rands now db item = Inr ([(frame, qi_clntaddr item)], db') \<and>
    distinct addrs \<and> set addrs = {pa. \<exists>hb. db_abs db pa = Some hb \<and> now - hb < 60} \<and>
    frame_of NETINFO (concat (map peer_address_bytes addrs)) = Some frame \<and>
    check_message_crc frame (24 + of_nat (8 * length addrs)) = Some (True, frame) \<and> table_inv db' \<and>
    db_abs db' = (if db_abs db pa = None then db_abs db else (db_abs db)(pa \<mapsto> now))"
proof -
  obtain addrs frame db' where
    hb: "handle_heartbeat True junk rands now db item = Inr ((frame, qi_clntaddr item), db')"
      "distinct addrs" "set addrs = {pa. \<exists>hb. db_abs db pa = Some hb \<and> now - hb < TIMEOUT_THRESHOLD}"
      "frame_of NETINFO (concat (map peer_address_bytes addrs)) = Some frame"
      "table_inv db'" "db_abs db' = (if db_abs db pa = None then db_abs db else (db_abs db)(pa \<mapsto> now))"
    using handle_heartbeat_abs [OF assms(1,3)] by blast
  have "set addrs \<subseteq> row_address ` set db"
    using live_addresses [OF assms(1), of now TIMEOUT_THRESHOLD] hb(3) by (metis (no_types, lifting) filter_is_subset image_mono)
  then have "length addrs \<le> length db"
    using hb(2) by (metis List.finite_set card_image_le card_length card_mono distinct_card finite_imageI le_trans)
  then have "check_message_crc frame (24 + of_nat (8 * length addrs)) = Some (True, frame)"
    using check_frame_of [OF hb(4)] assms(4) by (simp add: length_addresses)
  then show ?thesis
    using hb assms(2) by (auto simp: handle_request_def or_fail_def TIMEOUT_THRESHOLD_def)
qed

theorem handle_request_heartbeat_witness:
  "\<exists>addrs frame db'. handle_request True (\<lambda>_. []) (0, 0, 0) 70 [address_row (init_peer_address 2 80 1) 11]
      \<lparr>qi_message = le_bytes 4 (0 :: u32) @ replicate 20 0 @ peer_address_bytes (init_peer_address 2 81 1),
       qi_clntaddr = \<lparr>sin_family = 2, sin_port = 9, sin_addr = 1\<rparr>\<rparr>
      = Inr ([(frame, \<lparr>sin_family = 2, sin_port = 9, sin_addr = 1\<rparr>)], db') \<and>
    addrs = [init_peer_address 2 80 1]"
proof -
  let ?db = "[address_row (init_peer_address 2 80 1) 11]"
  let ?item = "\<lparr>qi_message = le_bytes 4 (0 :: u32) @ replicate 20 0 @ peer_address_bytes (init_peer_address 2 81 1),
       qi_clntaddr = \<lparr>sin_family = 2, sin_port = 9, sin_addr = 1\<rparr>\<rparr>"
  have "type_field (qi_message ?item) = Some (message_type_code HEARTBEAT)"
    "peer_address_field (qi_message ?item) = Some (init_peer_address 2 81 1)" "table_inv ?db"
    using peer_address_of_bytes [of _ "[]"]
    by (simp_all add: type_field_def peer_address_field_def read_bytes_def message_header_size_def table_inv_def)
  from handle_request_heartbeat [OF this(3,1,2), of "\<lambda>_. []" "(0, 0, 0)" 70] obtain addrs frame db' where
    r: "handle_request True (\<lambda>_. []) (0, 0, 0) 70 ?db ?item = Inr ([(frame, qi_clntaddr ?item)], db')"
      "distinct addrs" "set addrs = {pa. \<exists>hb. db_abs ?db pa = Some hb \<and> 70 - hb < 60}"
    by auto
  have "set addrs = {init_peer_address 2 80 1}"
    unfolding r(3) by (auto simp: db_abs_def)
  with r(2) have "addrs = [init_peer_address 2 80 1]"
    by (cases addrs; cases "tl addrs") auto
  with r(1) show ?thesis
    by auto
qed

text \<open>What a request means on the map from registered addresses to the times of their heartbeats.\<close>

definition served :: "u32 \<Rightarrow> peer_address \<Rightarrow> int \<Rightarrow> (peer_address \<Rightarrow> int option) \<Rightarrow> peer_address \<Rightarrow> int option" where
  "served ty pa now peers =
     (if ty = message_type_code HEARTBEAT then (if peers pa = None then peers else peers(pa \<mapsto> now))
      else if ty = message_type_code ACKNOWLEDGENETINFO then peers(pa \<mapsto> now)
      else if ty = message_type_code EXIT then peers(pa := None)
      else peers)"



text \<open>
  C32: A valid frame of an even payload that is not a heartbeat is appended to the queue with its sender, unless the queue is full or
  \<^verbatim>\<open>found\<close> is still set: the variable is assigned by heartbeats only, and after a duplicate heartbeat every exit
  message and acknowledgement is dropped.
\<close>

theorem mailbox_delivers_unless_found:
  assumes "frame_of mtype data = Some frame" "length data < 2 ^ 63" "even (length data)" "mtype \<noteq> HEARTBEAT"
    "mailbox_env_ok env" "me_ioctl env = 0" "me_lock env = 0" "me_unlock env = 0"
    "me_malloc env (24 + length data) = Some block" "length (mb_header mb) = 24" "queue_inv ql"
  shows "\<exists>mb' ql'. mailbox_iteration env mb ((frame, from_addr) # rest) ql = Inr (mb', rest, ql') \<and>
    mb_found mb' = mb_found mb \<and>
    queue_list ql' = (if mb_found mb \<or> queue_is_full ql then queue_list ql
                      else queue_list ql @ [\<lparr>qi_message = frame, qi_clntaddr = from_addr\<rparr>])"
proof -
  have "message_type_code mtype \<noteq> message_type_code HEARTBEAT"
    using assms(4) by (cases mtype) auto
  from mailbox_place_other [OF assms(7,8,11) this, of "mb_found mb" "\<lparr>qi_message = frame, qi_clntaddr = from_addr\<rparr>"]
  show ?thesis
    unfolding mailbox_iteration_frame [OF assms(1-3,5,6,9,10)] by auto
qed

theorem mailbox_delivers_unless_found_witness:
  "\<exists>frame mb' ql'. frame_of EXIT [1, 2, 3, 4, 5, 6, 7, 8] = Some frame \<and>
    mailbox_iteration
      \<lparr>me_ioctl = 0, me_peek_ok = True, me_recv_ok = True, me_item_addr = \<lparr>sin_family = 0, sin_port = 0, sin_addr = 0\<rparr>,
       me_lock = 0, me_unlock = 0, me_malloc = (\<lambda>n. Some (replicate n 0))\<rparr>
      \<lparr>mb_header = replicate 24 0, mb_clntaddr = \<lparr>sin_family = 0, sin_port = 0, sin_addr = 0\<rparr>, mb_found = True\<rparr>
      [(frame, \<lparr>sin_family = 2, sin_port = 9, sin_addr = 1\<rparr>)] (queue_init TRACKER_QUEUE_SIZE)
    = Inr (mb', [], ql') \<and> mb_found mb' \<and> queue_list ql' = []"
proof -
  obtain frame where frame: "frame_of EXIT [1, 2, 3, 4, 5, 6, 7, 8] = Some frame"
    using frame_of_total by blast
  show ?thesis
    using mailbox_delivers_unless_found [OF frame, where ql = "queue_init TRACKER_QUEUE_SIZE" and rest = "[]"
        and from_addr = "\<lparr>sin_family = 2, sin_port = 9, sin_addr = 1\<rparr>"
        and env = "\<lparr>me_ioctl = 0, me_peek_ok = True, me_recv_ok = True,
          me_item_addr = \<lparr>sin_family = 0, sin_port = 0, sin_addr = 0\<rparr>,
          me_lock = 0, me_unlock = 0, me_malloc = (\<lambda>n. Some (replicate n 0))\<rparr>"
        and mb = "\<lparr>mb_header = replicate 24 0, mb_clntaddr = \<lparr>sin_family = 0, sin_port = 0, sin_addr = 0\<rparr>, mb_found = True\<rparr>"]
      frame queue_init_inv [of TRACKER_QUEUE_SIZE, where 'a = queue_item]
    by (simp add: mailbox_env_ok_def TRACKER_QUEUE_SIZE_def)
qed

text \<open>
  A valid heartbeat is appended to the queue exactly when there is room and no heartbeat of the same peer is queued, and sets
  \<^verbatim>\<open>found\<close> to whether there was one, provided the heartbeats in the queue are long enough to hold an address.
\<close>

lemma mailbox_suppresses_duplicate_heartbeats:
  assumes "frame_of HEARTBEAT data = Some frame" "length data < 2 ^ 63" "even (length data)"
    "mailbox_env_ok env" "me_ioctl env = 0" "me_lock env = 0" "me_unlock env = 0"
    "me_malloc env (24 + length data) = Some block" "length (mb_header mb) = 24" "queue_inv ql"
    "peer_address_field frame \<noteq> None" "\<forall>item \<in> set (queue_list ql). type_field (qi_message item) \<noteq> None"
    "None \<notin> set (heartbeat_peers (queue_list ql))"
  shows "\<exists>mb' ql'. mailbox_iteration env mb ((frame, from_addr) # rest) ql = Inr (mb', rest, ql') \<and>
    mb_found mb' = (peer_address_field frame \<in> set (heartbeat_peers (queue_list ql))) \<and>
    queue_list ql' = (if mb_found mb' \<or> queue_is_full ql then queue_list ql
                      else queue_list ql @ [\<lparr>qi_message = frame, qi_clntaddr = from_addr\<rparr>])"
proof -
  have "scan_items frame (rev (queue_list ql)) = Some (peer_address_field frame \<in> set (heartbeat_peers (queue_list ql)))"
    using scan_items_decides [of frame "rev (queue_list ql)"] assms(11-13) by simp
  then have scan: "scan_items (qi_message \<lparr>qi_message = frame, qi_clntaddr = from_addr\<rparr>) (rev (queue_list ql))
      = Some (peer_address_field frame \<in> set (heartbeat_peers (queue_list ql)))"
    by simp
  define dup where "dup = (peer_address_field frame \<in> set (heartbeat_peers (queue_list ql)))"
  from mailbox_place_heartbeat [OF assms(6,7,10) scan, of "mb_found mb"] show ?thesis
    unfolding mailbox_iteration_frame [OF assms(1-5,8,9)] dup_def [symmetric]
    by (auto intro!: exI [of _ "\<lparr>mb_header = take 24 frame, mb_clntaddr = from_addr, mb_found = dup\<rparr>"])
qed

text \<open>
  An empty datagram at the head of the socket stops the mailbox for good: no event, from any environment, ever removes it or
  lets a message behind it through.
\<close>

lemma empty_datagram_blocks_mailbox:
  assumes "reaches tracker_step ok s s'" "ts_socket s = ([], a) # rest"
  shows "\<exists>more. ts_socket s' = ([], a) # rest @ more \<and> ts_mailbox s' = ts_mailbox s \<and>
    q_top (ts_queue s') = q_top (ts_queue s)"
  using assms
proof (induction rule: reaches.induct)
  case reaches_refl
  then show ?case by simp
next
  case (reaches_step s s' e s'')
  then obtain more where more: "ts_socket s' = ([], a) # rest @ more" "ts_mailbox s' = ts_mailbox s"
    "q_top (ts_queue s') = q_top (ts_queue s)"
    by auto
  have "q_top ql' = q_top ql" if "queue_dequeue l u ql = Some (r, ql')" for l u r and ql ql' :: "queue_item queue_lock"
    using that by (auto simp: queue_dequeue_def Let_def split: if_splits)
  then show ?case
    using reaches_step.hyps(3) more
    by (cases e)
       (auto simp: mailbox_iteration_def is_data_available_def handle_requests_iteration_def or_fail_Inr
         split: sum.splits if_splits)
qed

end
