(* ===== verification/Peer.thy ===== *)
theory Peer
  imports Common Refinement
begin

text \<open>
  The peer side of the network, \<^verbatim>\<open>application/p2p/peer.h\<close> and \<^verbatim>\<open>application/p2p/peer.c\<close>: broadcasting,
  receiving and answering messages, the communication with the tracker that keeps the list of other peers and
  the online state, and start and end of a peer. Datagrams that a function sends are part of its result.
\<close>

section \<open>State\<close>

definition HEARTBEAT_PERIOD :: int where
  "HEARTBEAT_PERIOD = 5"

text \<open>
  \<^verbatim>\<open>struct peer\<close>; the pointers of its \<^verbatim>\<open>netinfo_lock\<close> point to the members themselves. \<open>None\<close> is the \<^verbatim>\<open>NULL\<close> list.
  \<open>p_open\<close> counts the socket descriptors the process has open: no function closes one.
\<close>

record peer =
  p_tracker_socket :: socket
  p_tracker_sockaddr :: sockaddr_in
  p_own_socket :: socket
  p_own_pa :: peer_address
  p_network_info :: "peer_address list option"
  p_n_peers :: nat
  p_was_offline :: bool
  p_is_online :: bool
  p_thread :: bool
  p_open :: nat

type_synonym datagrams = "(bytes \<times> sockaddr_in) list"

text \<open>
  What the system answers to the calls of one operation: the descriptor limit, the values of \<^verbatim>\<open>rand()\<close> at the
  \<open>i\<close>-th send, the return codes of \<^verbatim>\<open>ioctl\<close> and of the mutex, the success of the two receives and the blocks of
  \<^verbatim>\<open>malloc\<close>.
\<close>

record peer_env =
  pe_limit :: nat
  pe_rands :: "nat \<Rightarrow> nat \<times> nat \<times> nat"
  pe_ioctl :: int
  pe_lock :: int
  pe_unlock :: int
  pe_peek_ok :: bool
  pe_recv_ok :: bool
  pe_malloc :: "nat \<Rightarrow> bytes option"

text \<open>A new socket for a client: the return value of \<^verbatim>\<open>socket\<close> is negative when the limit is reached.\<close>

definition client_socket :: "nat \<Rightarrow> peer_address \<Rightarrow> nat \<Rightarrow> (sockaddr_in \<times> nat) option" where
  "client_socket limit pa n_open =
     map_option (\<lambda>(_, sockaddr). (sockaddr, n_open + 1))
       (initialize_clnt (if n_open < limit then int n_open else - 1) pa)"

section \<open>Sending\<close>

text \<open>The loop of \<^verbatim>\<open>broadcast\<close> over the entries from index \<open>i\<close> on.\<close>

fun broadcast_loop ::
  "peer_env \<Rightarrow> bytes \<Rightarrow> peer_address \<Rightarrow> peer_address list \<Rightarrow> nat \<Rightarrow> nat \<Rightarrow> datagrams \<Rightarrow>
     (nat \<times> nat \<times> datagrams) option" where
  "broadcast_loop env message own_pa [] n_sent n_open out = Some (n_sent, n_open, out)"
| "broadcast_loop env message own_pa (pa # pas) n_sent n_open out =
     (if \<not> cmp_peer_address pa own_pa then
        Option.bind (client_socket (pe_limit env) pa n_open) (\<lambda>(sockaddr, n_open).
        Option.bind (send_message BITFLIP_CHANCE (pe_rands env n_sent) message) (\<lambda>sent.
          broadcast_loop env message own_pa pas (n_sent + 1) n_open (out @ [(sent, sockaddr)])))
      else broadcast_loop env message own_pa pas n_sent n_open out)"

definition broadcast :: "peer_env \<Rightarrow> peer \<Rightarrow> bytes \<Rightarrow> (nat \<times> peer \<times> datagrams) option" where
  "broadcast env p data =
     Option.bind (frame_of P2P data) (\<lambda>message.
     if pe_lock env = 0 then
       Option.bind
         (case p_network_info p of
            Some network_info \<Rightarrow>
              if length network_info < p_n_peers p then None
              else broadcast_loop env message (p_own_pa p) (take (p_n_peers p) network_info) 0 (p_open p) []
          | None \<Rightarrow> Some (0, p_open p, []))
         (\<lambda>(n_messages_sent, n_open, out).
           if pe_unlock env \<noteq> 0 then None else Some (n_messages_sent, p\<lparr>p_open := n_open\<rparr>, out))
     else None)"

definition respond :: "peer_env \<Rightarrow> peer \<Rightarrow> bytes \<Rightarrow> peer_address \<Rightarrow> (peer \<times> datagrams) option" where
  "respond env p message pa =
     Option.bind (frame_of P2P message) (\<lambda>data.
     Option.bind (client_socket (pe_limit env) pa (p_open p)) (\<lambda>(clntaddr, n_open).
     Option.bind (send_message BITFLIP_CHANCE (pe_rands env 0) data) (\<lambda>sent.
       Some (p\<lparr>p_open := n_open\<rparr>, [(sent, clntaddr)]))))"

definition send_netinfo :: "peer_env \<Rightarrow> sockaddr_in \<Rightarrow> peer_address \<Rightarrow> message_type \<Rightarrow> datagrams option" where
  "send_netinfo env srvraddr pa mtype =
     Option.bind (init_peer_address_header pa mtype) (\<lambda>header.
     map_option (\<lambda>sent. [(sent, srvraddr)])
       (send_message BITFLIP_CHANCE (pe_rands env 0) (peer_address_header_bytes header)))"

section \<open>Receiving\<close>

text \<open>
  \<^verbatim>\<open>receive\<close> writes its results through pointers: \<open>out\<close> is what the caller's variables \<^verbatim>\<open>message\<close> and
  \<^verbatim>\<open>message_len\<close> held before the call. They keep their contents when the header fails its check.
\<close>

definition receive ::
  "peer_env \<Rightarrow> peer \<Rightarrow> sockaddr_in \<Rightarrow> bytes \<Rightarrow> bytes option \<times> size_t \<Rightarrow>
     ((bytes option \<times> size_t) \<times> sockaddr_in \<times> peer) option" where
  "receive env p clntaddr uninit out =
     (if is_data_available (pe_ioctl env) (p_own_socket p) then
        Option.bind (recv_message (pe_peek_ok env) True uninit clntaddr (p_own_socket p)) (\<lambda>(_, header, clntaddr, _).
        Option.bind (check_message_crc header (of_nat message_header_size)) (\<lambda>(header_ok, header).
          if header_ok then
            (let mh = message_header_of header in
             Option.bind (pe_malloc env (unat (mh_len mh))) (\<lambda>block.
             Option.bind (recv_message (pe_recv_ok env) False block clntaddr (p_own_socket p))
               (\<lambda>(_, data, clntaddr, sock).
             Option.bind (check_message_crc data (mh_len mh)) (\<lambda>(data_ok, data).
               if data_ok \<and> mh_type mh = message_type_code P2P then
                 (let message_len = mh_len mh - of_nat message_header_size in
                  Option.bind (pe_malloc env (unat message_len)) (\<lambda>_.
                  Option.bind (read_bytes data message_header_size (unat message_len)) (\<lambda>message.
                    Some ((Some message, message_len), clntaddr, p\<lparr>p_own_socket := sock\<rparr>))))
               else Some ((None, 0), clntaddr, p\<lparr>p_own_socket := sock\<rparr>)))))
          else
            Option.bind (recv_message (pe_recv_ok env) False header clntaddr (p_own_socket p))
              (\<lambda>(_, _, clntaddr, sock). Some (out, clntaddr, p\<lparr>p_own_socket := sock\<rparr>))))
      else Some ((None, 0), clntaddr, p))"

text \<open>An array of \<open>n\<close> addresses in memory.\<close>

definition addresses_of :: "nat \<Rightarrow> bytes \<Rightarrow> peer_address list" where
  "addresses_of n bs = map (\<lambda>i. peer_address_of (drop (8 * i) bs)) [0..<n]"

definition receive_netinfo :: "peer_env \<Rightarrow> peer \<Rightarrow> bytes \<Rightarrow> peer option" where
  "receive_netinfo env p uninit =
     Option.bind (recv_message (pe_peek_ok env) True uninit (p_tracker_sockaddr p) (p_tracker_socket p))
       (\<lambda>(_, header, srvraddr, _).
     Option.bind (check_message_crc header (of_nat message_header_size)) (\<lambda>(header_ok, header).
       let mh = message_header_of header in
       if header_ok \<and> mh_type mh = message_type_code NETINFO then
         Option.bind (pe_malloc env (unat (mh_len mh))) (\<lambda>block.
         Option.bind (recv_message (pe_recv_ok env) False block srvraddr (p_tracker_socket p))
           (\<lambda>(_, message, srvraddr, sock).
         let p = p\<lparr>p_tracker_socket := sock, p_tracker_sockaddr := srvraddr\<rparr> in
         Option.bind (check_message_crc message (mh_len mh)) (\<lambda>(message_ok, message).
           if message_ok then
             (let data_len = unat (mh_len mh - of_nat message_header_size) in
              if pe_lock env = 0 then
                Option.bind (pe_malloc env data_len) (\<lambda>_.
                Option.bind (read_bytes message message_header_size data_len) (\<lambda>network_info.
                  if pe_unlock env \<noteq> 0 then None
                  else Some (p\<lparr>p_network_info := Some (addresses_of (data_len div 8) network_info),
                               p_n_peers := data_len div 8\<rparr>)))
              else None)
           else Some p)))
       else
         Option.bind (recv_message (pe_recv_ok env) False header srvraddr (p_tracker_socket p))
           (\<lambda>(_, _, srvraddr, sock). Some (p\<lparr>p_tracker_socket := sock, p_tracker_sockaddr := srvraddr\<rparr>))))"

definition is_present :: "peer \<Rightarrow> bool" where
  "is_present p =
     (case p_network_info p of
        Some network_info \<Rightarrow> list_ex (\<lambda>pa. cmp_peer_address pa (p_own_pa p)) (take (p_n_peers p) network_info)
      | None \<Rightarrow> False)"

definition should_refresh :: "peer \<Rightarrow> bool \<times> peer" where
  "should_refresh p = (let was_offline = p_was_offline p in (was_offline, p\<lparr>p_was_offline := False\<rparr>))"

section \<open>The thread that talks to the tracker\<close>

text \<open>The body of the inner \<^verbatim>\<open>while\<close>, with the loop counter \<open>i\<close>.\<close>

definition tracker_poll :: "peer_env \<Rightarrow> bytes \<Rightarrow> int \<Rightarrow> peer \<Rightarrow> (int \<times> peer \<times> datagrams) option" where
  "tracker_poll env uninit i p =
     Option.bind (receive_netinfo env p uninit) (\<lambda>p.
       if \<not> is_present p then
         (let p = p\<lparr>p_is_online := False\<rparr> in
          Option.bind (send_netinfo env (p_tracker_sockaddr p) (p_own_pa p) ACKNOWLEDGENETINFO) (\<lambda>out.
            Some (0, p\<lparr>p_was_offline := True\<rparr>, out)))
       else Some (i, p\<lparr>p_is_online := True\<rparr>, []))"

text \<open>The inner \<^verbatim>\<open>while\<close>: one environment per iteration; it ends when no data is available or the environments run out.\<close>

fun tracker_poll_loop :: "(peer_env \<times> bytes) list \<Rightarrow> int \<Rightarrow> peer \<Rightarrow> datagrams \<Rightarrow> (int \<times> peer \<times> datagrams) option" where
  "tracker_poll_loop [] i p out = Some (i, p, out)"
| "tracker_poll_loop ((env, uninit) # envs) i p out =
     (if is_data_available (pe_ioctl env) (p_tracker_socket p)
      then Option.bind (tracker_poll env uninit i p) (\<lambda>(i, p, sent). tracker_poll_loop envs i p (out @ sent))
      else Some (i, p, out))"

text \<open>
  The \<^verbatim>\<open>for\<close> loop between two heartbeats. Datagrams arrive while the thread sleeps: \<open>seconds\<close> lists, for each
  iteration that the run performs, the arrivals and the environments of its inner loop.
\<close>

fun tracker_wait :: "(socket \<times> (peer_env \<times> bytes) list) list \<Rightarrow> int \<Rightarrow> peer \<Rightarrow> datagrams \<Rightarrow> (peer \<times> datagrams) option" where
  "tracker_wait [] i p out = Some (p, out)"
| "tracker_wait ((arrivals, envs) # seconds) i p out =
     (if i < HEARTBEAT_PERIOD then
        Option.bind (tracker_poll_loop envs i (p\<lparr>p_tracker_socket := p_tracker_socket p @ arrivals\<rparr>) out)
          (\<lambda>(i, p, out). tracker_wait seconds (i + 1) p out)
      else Some (p, out))"

text \<open>One round of \<^verbatim>\<open>tracker_communication\<close>: a heartbeat, then the wait.\<close>

definition tracker_round ::
  "peer_env \<Rightarrow> (socket \<times> (peer_env \<times> bytes) list) list \<Rightarrow> peer \<Rightarrow> (peer \<times> datagrams) option" where
  "tracker_round env seconds p =
     Option.bind (send_netinfo env (p_tracker_sockaddr p) (p_own_pa p) HEARTBEAT) (\<lambda>out.
       tracker_wait seconds 0 p out)"

section \<open>Start and end\<close>

text \<open>
  \<^verbatim>\<open>inet_addr\<close> is the library's; \<open>codes\<close> are the return values of \<^verbatim>\<open>pthread_mutex_init\<close>, \<^verbatim>\<open>pthread_create\<close>, the two
  \<^verbatim>\<open>socket\<close> calls and \<^verbatim>\<open>bind\<close>. No value: the process exits.
\<close>

definition init_peer ::
  "(string \<Rightarrow> u32) \<Rightarrow> bool \<Rightarrow> int \<Rightarrow> int \<times> int \<times> int \<times> int \<times> int \<Rightarrow>
     string \<Rightarrow> string \<Rightarrow> string \<Rightarrow> string \<Rightarrow> peer option" where
  "init_peer inet_addr set_einval errno codes c_tracker_addr c_tracker_port c_addr c_port =
     (let (mutex_rc, create_rc, clnt_rc, srvr_rc, bind_rc) = codes;
          (rc, tracker_port, errno) = convert_port set_einval errno c_tracker_port
      in if rc < 0 then None else
         let tracker_pa = init_peer_address DOMAIN tracker_port (inet_addr c_tracker_addr);
             (rc, own_port, errno) = convert_port set_einval errno c_port
         in if rc < 0 then None else
            let own_pa = init_peer_address DOMAIN own_port (inet_addr c_addr) in
            Option.bind (initialize_clnt clnt_rc tracker_pa) (\<lambda>(_, tracker_sockaddr).
            if mutex_rc \<noteq> 0 then None else
            if create_rc \<noteq> 0 then None else
            Option.bind (initialize_srvr srvr_rc bind_rc own_pa) (\<lambda>_.
              Some \<lparr>p_tracker_socket = [], p_tracker_sockaddr = tracker_sockaddr, p_own_socket = [], p_own_pa = own_pa,
                    p_network_info = None, p_n_peers = 0, p_was_offline = True, p_is_online = False,
                    p_thread = True, p_open = 2\<rparr>)))"

text \<open>Ending a peer frees the list and stops the thread; it sends nothing.\<close>

definition exit_peer :: "peer \<Rightarrow> peer \<times> datagrams" where
  "exit_peer p = (p\<lparr>p_network_info := None, p_thread := False\<rparr>, [])"

section \<open>What is sent\<close>

lemma send_message_faithful [simp]: "send_message BITFLIP_CHANCE rands message = Some message"
  by (cases rands) (simp add: send_message_def BITFLIP_CHANCE_def)

lemma client_socket_eq:
  "client_socket limit pa n_open = (if n_open < limit then Some (create_sockaddr_in pa, n_open + 1) else None)"
  by (simp add: client_socket_def initialize_clnt_def Let_def)

lemma broadcast_loop_eq:
  "broadcast_loop env message own_pa pas n n_open out =
    (let others = filter (\<lambda>pa. pa \<noteq> own_pa) pas in
     if others = [] \<or> n_open + length others \<le> pe_limit env
     then Some (n + length others, n_open + length others, out @ map (\<lambda>pa. (message, create_sockaddr_in pa)) others)
     else None)"
  by (induction pas arbitrary: n n_open out) (auto simp: client_socket_eq Let_def)

lemma send_netinfo_eq:
  "send_netinfo env a pa mtype = map_option (\<lambda>frame. [(frame, a)]) (frame_of mtype (peer_address_bytes pa))"
  by (simp add: send_netinfo_def init_peer_address_header_def frame_of_def peer_address_header_bytes_def
      message_header_size_def init_message_header_def get_crc_eq option.map_comp)

section \<open>What is received\<close>

definition peer_env_ok :: "peer_env \<Rightarrow> bool" where
  "peer_env_ok env \<longleftrightarrow> pe_ioctl env = 0 \<and> pe_lock env = 0 \<and> pe_unlock env = 0 \<and> pe_peek_ok env \<and> pe_recv_ok env \<and>
     (\<forall>n. \<exists>block. pe_malloc env n = Some block \<and> length block = n)"

lemma recv_peek:
  "length buf = 24 \<Longrightarrow> 24 \<le> length d \<Longrightarrow>
    recv_message True True buf a ((d, from_addr) # rest) = Some (24, take 24 d, from_addr, (d, from_addr) # rest)"
  by (simp add: recv_message_def poke_def)

lemma recv_exact:
  "length buf = length d \<Longrightarrow>
    recv_message True False buf a ((d, from_addr) # rest) = Some (int (length d), d, from_addr, rest)"
  by (simp add: recv_message_exact)

lemma receive_frame:
  assumes frame: "frame_of mtype data = Some frame" "length data < 2 ^ 63"
    and env: "peer_env_ok env" and sock: "p_own_socket p = (frame, from_addr) # rest" and buf: "length uninit = 24"
  shows "receive env p clntaddr uninit out =
    Some (if mtype = P2P \<and> (even (length data) \<or> crc_value data \<in> {0, 20882})
          then (Some data, of_nat (length data)) else (None, 0), from_addr, p\<lparr>p_own_socket := rest\<rparr>)"
proof -
  note hd = frame_head [OF frame]
  have ok: "pe_ioctl env = 0" "pe_peek_ok env" "pe_recv_ok env"
    using env by (auto simp: peer_env_ok_def)
  obtain block where block: "pe_malloc env (24 + length data) = Some block" "length block = length frame"
    using env hd(7) by (metis peer_env_ok_def)
  obtain block' where block': "pe_malloc env (length data) = Some block'"
    using env by (metis peer_env_ok_def)
  have check: "check_message_crc frame (24 + of_nat (length data)) =
      Some (even (length data) \<or> crc_value data \<in> {0, 20882}, frame)"
    by (rule check_frame_of [OF frame])
  have len: "unat (of_nat (length data) :: size_t) = length data"
    using frame(2) by (simp add: unat_of_nat)
  have ulen: "unat (24 + of_nat (length data) :: size_t) = 24 + length data"
    using hd(3,4) by simp
  have type: "message_type_code mtype = message_type_code P2P \<longleftrightarrow> mtype = P2P"
    by (cases mtype) auto
  have "frame \<noteq> []"
    using hd(7) by auto
  then have avail: "is_data_available 0 ((frame, from_addr) # rest)"
    by (simp add: is_data_available_def)
  have pay: "read_bytes frame 24 (length data) = Some data"
    using hd(6,7) by (simp add: read_bytes_def)
  show ?thesis
    unfolding receive_def sock
    by (simp add: ok avail recv_peek [OF buf] hd(1,2,3,5,7) ulen recv_exact [OF block(2)] block(1) check message_header_size_def Let_def
        block' len pay del: message_type_code.simps) (auto simp: type simp del: message_type_code.simps)
qed

text \<open>A datagram whose header fails its check is consumed, and the caller's variables stay as they were.\<close>

lemma receive_bad_header:
  assumes env: "peer_env_ok env" and sock: "p_own_socket p = (d, from_addr) # rest" and buf: "length uninit = 24"
    and d: "24 \<le> length d" "check_message_crc (take 24 d) 24 = Some (False, take 24 d)"
  shows "receive env p clntaddr uninit out = Some (out, from_addr, p\<lparr>p_own_socket := rest\<rparr>)"
proof -
  have ok: "pe_ioctl env = 0" "pe_peek_ok env" "pe_recv_ok env"
    using env by (auto simp: peer_env_ok_def)
  have "d \<noteq> []"
    using d(1) by auto
  then have avail: "is_data_available 0 ((d, from_addr) # rest)"
    by (simp add: is_data_available_def)
  have drop_it: "recv_message True False (take 24 d) a ((d, from_addr) # rest) = Some (24, take 24 d, from_addr, rest)" for a
    using d(1) by (simp add: recv_message_def poke_def)
  show ?thesis
    unfolding receive_def sock
    by (simp add: ok avail recv_peek [OF buf d(1)] d(2) drop_it message_header_size_def)
qed

lemma addresses_of_bytes: "addresses_of (length pas) (concat (map peer_address_bytes pas)) = pas"
proof -
  have "drop (8 * i) (concat (map peer_address_bytes pas))
      = peer_address_bytes (pas ! i) @ concat (map peer_address_bytes (drop (Suc i) pas))" if "i < length pas" for i
    using that
  proof (induction pas arbitrary: i)
    case (Cons pa pas)
    then show ?case by (cases i) simp_all
  qed simp
  then show ?thesis
    by (intro nth_equalityI) (simp_all add: addresses_of_def)
qed

lemma length_address_bytes: "length (concat (map peer_address_bytes pas)) = 8 * length pas"
  by (induction pas) auto

lemma receive_netinfo_frame:
  assumes frame: "frame_of NETINFO (concat (map peer_address_bytes pas)) = Some frame" "8 * length pas < 2 ^ 63"
    and env: "peer_env_ok env" and sock: "p_tracker_socket p = (frame, from_addr) # rest" and buf: "length uninit = 24"
  shows "receive_netinfo env p uninit = Some (p\<lparr>p_tracker_socket := rest, p_tracker_sockaddr := from_addr,
    p_network_info := Some pas, p_n_peers := length pas\<rparr>)"
proof -
  let ?data = "concat (map peer_address_bytes pas)"
  have small: "length ?data < 2 ^ 63"
    using frame(2) by (simp add: length_address_bytes)
  note hd = frame_head [OF frame(1) small]
  have ok: "pe_lock env = 0" "pe_unlock env = 0" "pe_peek_ok env" "pe_recv_ok env"
    using env by (auto simp: peer_env_ok_def)
  obtain block where block: "pe_malloc env (24 + length ?data) = Some block" "length block = length frame"
    using env hd(7) by (metis peer_env_ok_def)
  obtain block' where block': "pe_malloc env (length ?data) = Some block'"
    using env by (metis peer_env_ok_def)
  have "even (length ?data)"
    by (simp add: length_address_bytes)
  then have check: "check_message_crc frame (24 + of_nat (length ?data)) = Some (True, frame)"
    using check_frame_of [OF frame(1) small] by simp
  have len: "unat (of_nat (length ?data) :: size_t) = length ?data"
    using small by (simp add: unat_of_nat)
  have ulen: "unat (24 + of_nat (length ?data) :: size_t) = 24 + length ?data"
    using hd(3,4) by simp
  have pay: "read_bytes frame 24 (length ?data) = Some ?data"
    using hd(6,7) by (simp add: read_bytes_def)
  have parse: "addresses_of (length ?data div 8) ?data = pas"
    using addresses_of_bytes [of pas] by (simp add: length_address_bytes)
  have n: "length ?data div 8 = length pas"
    by (simp add: length_address_bytes)
  show ?thesis
    unfolding receive_netinfo_def sock
    by (simp add: ok recv_peek [OF buf] hd(1,2,3,5,7) ulen recv_exact [OF block(2)] block(1) check message_header_size_def
        Let_def block' len pay parse n addresses_of_bytes del: length_concat message_type_code.simps)
qed

lemma is_present_iff: "p_network_info p = Some pas \<Longrightarrow> p_n_peers p = length pas \<Longrightarrow> is_present p \<longleftrightarrow> p_own_pa p \<in> set pas"
  by (auto simp: is_present_def list_ex_iff)

lemma tracker_poll_frame:
  assumes frame: "frame_of NETINFO (concat (map peer_address_bytes pas)) = Some frame" "8 * length pas < 2 ^ 63"
    and env: "peer_env_ok env" and sock: "p_tracker_socket p = (frame, from_addr) # rest" and buf: "length uninit = 24"
  shows "\<exists>ack. frame_of ACKNOWLEDGENETINFO (peer_address_bytes (p_own_pa p)) = Some ack \<and>
    tracker_poll env uninit i p =
      (let p' = p\<lparr>p_tracker_socket := rest, p_tracker_sockaddr := from_addr, p_network_info := Some pas,
                   p_n_peers := length pas, p_is_online := (p_own_pa p \<in> set pas)\<rparr>
       in if p_own_pa p \<in> set pas then Some (i, p', [])
          else Some (0, p'\<lparr>p_was_offline := True\<rparr>, [(ack, from_addr)]))"
proof -
  obtain ack where ack: "frame_of ACKNOWLEDGENETINFO (peer_address_bytes (p_own_pa p)) = Some ack"
    using frame_of_total by blast
  let ?q = "p\<lparr>p_tracker_socket := rest, p_tracker_sockaddr := from_addr, p_network_info := Some pas, p_n_peers := length pas\<rparr>"
  have "is_present ?q \<longleftrightarrow> p_own_pa p \<in> set pas"
    by (subst is_present_iff [of _ pas]) simp_all
  then show ?thesis
    using ack by (simp add: tracker_poll_def receive_netinfo_frame [OF assms] send_netinfo_eq Let_def)
qed

section \<open>Properties\<close>

text \<open>
  A broadcast sends one and the same frame around the data to every listed peer other than the sender, once per entry, and returns
  their number. Each message opens a socket that nothing closes: when the descriptors run out the process exits in the
  middle of the broadcast.
\<close>

lemma broadcast_reaches_all_others:
  assumes "p_network_info p = Some pas" "p_n_peers p = length pas" "pe_lock env = 0" "pe_unlock env = 0"
  shows "\<exists>frame. frame_of P2P data = Some frame \<and> broadcast env p data =
    (let others = filter (\<lambda>pa. pa \<noteq> p_own_pa p) pas in
     if others = [] \<or> p_open p + length others \<le> pe_limit env
     then Some (length others, p\<lparr>p_open := p_open p + length others\<rparr>, map (\<lambda>pa. (frame, create_sockaddr_in pa)) others)
     else None)"
proof -
  obtain frame where "frame_of P2P data = Some frame"
    using frame_of_total by blast
  then show ?thesis
    using assms by (simp add: broadcast_def broadcast_loop_eq Let_def)
qed

definition sample_env :: peer_env where
  "sample_env = \<lparr>pe_limit = 1024, pe_rands = (\<lambda>_. (0, 0, 0)), pe_ioctl = 0, pe_lock = 0, pe_unlock = 0,
     pe_peek_ok = True, pe_recv_ok = True, pe_malloc = (\<lambda>n. Some (replicate n 0))\<rparr>"

definition sample_peer :: "peer_address list \<Rightarrow> peer" where
  "sample_peer pas = \<lparr>p_tracker_socket = [], p_tracker_sockaddr = \<lparr>sin_family = 2, sin_port = 1, sin_addr = 1\<rparr>,
     p_own_socket = [], p_own_pa = init_peer_address 2 80 1, p_network_info = Some pas, p_n_peers = length pas,
     p_was_offline = True, p_is_online = False, p_thread = True, p_open = 1023\<rparr>"

lemma sample_env_ok [simp]: "peer_env_ok sample_env"
  by (simp add: sample_env_def peer_env_ok_def)

text \<open>
  C31: What \<^verbatim>\<open>broadcast\<close> or \<^verbatim>\<open>respond\<close> sends, \<^verbatim>\<open>receive\<close> delivers: the same bytes and their length, provided the
  payload has even length or one of the two odd checksums; other payloads, and frames of other types, are consumed and
  reported as no message.
\<close>

theorem receive_delivers_frame:
  assumes "frame_of mtype data = Some frame" "length data < 2 ^ 63" "peer_env_ok env"
    "p_own_socket p = (frame, from_addr) # rest" "length uninit = 24"
  shows "receive env p clntaddr uninit out =
    Some (if mtype = P2P \<and> (even (length data) \<or> crc_value data \<in> {0, 20882})
          then (Some data, of_nat (length data)) else (None, 0), from_addr, p\<lparr>p_own_socket := rest\<rparr>)"
  by (rule receive_frame [OF assms])

theorem receive_delivers_frame_witness:
  "\<exists>frame p'. frame_of P2P [1, 2] = Some frame \<and>
    receive sample_env ((sample_peer [])\<lparr>p_own_socket := [(frame, \<lparr>sin_family = 2, sin_port = 7, sin_addr = 9\<rparr>)]\<rparr>)
      \<lparr>sin_family = 0, sin_port = 0, sin_addr = 0\<rparr> (replicate 24 0) (None, 5)
    = Some ((Some [1, 2], 2), \<lparr>sin_family = 2, sin_port = 7, sin_addr = 9\<rparr>, p')"
proof -
  obtain frame where frame: "frame_of P2P [1, 2] = Some frame"
    using frame_of_total by blast
  show ?thesis
    using receive_delivers_frame [OF frame _ sample_env_ok,
        of "(sample_peer [])\<lparr>p_own_socket := [(frame, \<lparr>sin_family = 2, sin_port = 7, sin_addr = 9\<rparr>)]\<rparr>"
          "\<lparr>sin_family = 2, sin_port = 7, sin_addr = 9\<rparr>" "[]" "replicate 24 0"
          "\<lparr>sin_family = 0, sin_port = 0, sin_addr = 0\<rparr>" "(None, 5)"]
      frame by simp
qed

end
