(* ===== verification/Registration.thy ===== *)
theory Registration
  imports Tracker Peer
begin

text \<open>
  How the peer of \<^verbatim>\<open>peer.c\<close> and the tracker of \<^verbatim>\<open>tracker.c\<close> work together: one period of the protocol is a heartbeat
  of the peer, the tracker's answer, the peer's reading of it, and the acknowledgement the peer may send. The network
  is assumed to deliver, and no other peer to interfere within the period.
\<close>

section \<open>One period\<close>

text \<open>The tracker handles the datagrams of a list in order; \<open>clntaddr\<close> is where they come from.\<close>

fun tracker_serves ::
  "(nat \<Rightarrow> bytes) \<Rightarrow> nat \<times> nat \<times> nat \<Rightarrow> int \<Rightarrow> sockaddr_in \<Rightarrow> datagrams \<Rightarrow> peer_table \<Rightarrow>
     tracker_error + (bytes \<times> sockaddr_in) list \<times> peer_table" where
  "tracker_serves junk rands now clntaddr [] db = Inr ([], db)"
| "tracker_serves junk rands now clntaddr ((message, _) # ds) db =
     (case handle_request True junk rands now db \<lparr>qi_message = message, qi_clntaddr = clntaddr\<rparr> of
        Inl e \<Rightarrow> Inl e
      | Inr (out, db) \<Rightarrow>
         (case tracker_serves junk rands now clntaddr ds db of Inl e \<Rightarrow> Inl e | Inr (out', db) \<Rightarrow> Inr (out @ out', db)))"

text \<open>
  A period at time \<open>now\<close>: none when a process exits. \<open>srvr\<close> is the tracker's address as the peer sees it, \<open>uninit\<close> the
  uninitialised header of the peer.
\<close>

definition period ::
  "peer_env \<Rightarrow> (nat \<Rightarrow> bytes) \<Rightarrow> nat \<times> nat \<times> nat \<Rightarrow> bytes \<Rightarrow> sockaddr_in \<Rightarrow> sockaddr_in \<Rightarrow> int \<Rightarrow> peer \<times> peer_table \<Rightarrow>
     (peer \<times> peer_table) option" where
  "period env junk rands uninit srvr clntaddr now = (\<lambda>(p, db).
     Option.bind (send_netinfo env (p_tracker_sockaddr p) (p_own_pa p) HEARTBEAT) (\<lambda>heartbeat.
     case tracker_serves junk rands now clntaddr heartbeat db of
       Inl e \<Rightarrow> None
     | Inr (replies, db) \<Rightarrow>
         Option.bind (tracker_poll env uninit 0 (p\<lparr>p_tracker_socket := map (\<lambda>(d, _). (d, srvr)) replies\<rparr>)) (\<lambda>(_, p, acks).
         case tracker_serves junk rands now clntaddr acks db of Inl e \<Rightarrow> None | Inr (_, db) \<Rightarrow> Some (p, db))))"

text \<open>The peers the tracker would list.\<close>

definition live_peers :: "int \<Rightarrow> peer_table \<Rightarrow> peer_address set" where
  "live_peers now db = {pa. \<exists>hb. db_abs db pa = Some hb \<and> now - hb < TIMEOUT_THRESHOLD}"

lemma finite_live_peers [simp]: "finite (live_peers now db)"
proof (rule finite_subset)
  show "live_peers now db \<subseteq> dom (db_abs db)"
    by (auto simp: live_peers_def)
qed simp

lemma serve_heartbeat:
  assumes "table_inv db" "frame_of HEARTBEAT (peer_address_bytes pa) = Some hb"
  shows "\<exists>addrs frame db'. tracker_serves junk rands now clntaddr [(hb, a)] db = Inr ([(frame, clntaddr)], db') \<and>
    distinct addrs \<and> set addrs = live_peers now db \<and> frame_of NETINFO (concat (map peer_address_bytes addrs)) = Some frame \<and>
    table_inv db' \<and> db_abs db' = (if db_abs db pa = None then db_abs db else (db_abs db)(pa \<mapsto> now))"
proof -
  let ?item = "\<lparr>qi_message = hb, qi_clntaddr = clntaddr\<rparr>"
  note fields = frame_fields [OF assms(2)]
  obtain addrs frame db' where handled: "handle_heartbeat True junk rands now db ?item = Inr ((frame, clntaddr), db')"
    "distinct addrs" "set addrs = live_peers now db" "frame_of NETINFO (concat (map peer_address_bytes addrs)) = Some frame"
    "table_inv db'" "db_abs db' = (if db_abs db pa = None then db_abs db else (db_abs db)(pa \<mapsto> now))"
    using handle_heartbeat_abs [OF assms(1), of ?item pa junk rands now] fields by (auto simp: live_peers_def)
  then have "tracker_serves junk rands now clntaddr [(hb, a)] db = Inr ([(frame, clntaddr)], db')"
    using fields by (simp add: handle_request_def or_fail_def)
  with handled show ?thesis
    by blast
qed

lemma serve_acknowledgement:
  assumes "table_inv db" "frame_of ACKNOWLEDGENETINFO (peer_address_bytes pa) = Some ack"
  shows "\<exists>db'. tracker_serves junk rands now clntaddr [(ack, a)] db = Inr ([], db') \<and> table_inv db' \<and>
    db_abs db' = (db_abs db)(pa \<mapsto> now)"
proof -
  let ?item = "\<lparr>qi_message = ack, qi_clntaddr = clntaddr\<rparr>"
  note fields = frame_fields [OF assms(2)]
  obtain db' where "handle_acknowledge_netinfo True now db ?item = Inr db'" "table_inv db'" "db_abs db' = (db_abs db)(pa \<mapsto> now)"
    using handle_acknowledge_netinfo_abs [OF assms(1), of ?item pa now] fields by auto
  then show ?thesis
    using fields by (simp add: handle_request_def or_fail_def)
qed

text \<open>A period registers the peer, or renews its registration, and makes it online exactly when it was listed.\<close>

lemma period_result:
  assumes inv: "table_inv db" and env: "peer_env_ok env" and buf: "length uninit = 24"
    and small: "8 * card (live_peers now db) < 2 ^ 63"
  shows "\<exists>p' db'. period env junk rands uninit srvr clntaddr now (p, db) = Some (p', db') \<and>
    p_own_pa p' = p_own_pa p \<and> (p_is_online p' \<longleftrightarrow> p_own_pa p \<in> live_peers now db) \<and>
    (\<exists>pas. p_network_info p' = Some pas \<and> distinct pas \<and> set pas = live_peers now db \<and> p_n_peers p' = card (live_peers now db)) \<and>
    (p_was_offline p' \<longleftrightarrow> p_was_offline p \<or> p_own_pa p \<notin> live_peers now db) \<and>
    table_inv db' \<and> db_abs db' = (db_abs db)(p_own_pa p \<mapsto> now)"
proof -
  let ?pa = "p_own_pa p"
  obtain hb where hb: "frame_of HEARTBEAT (peer_address_bytes ?pa) = Some hb"
    using frame_of_total by blast
  obtain addrs frame db1 where served: "tracker_serves junk rands now clntaddr [(hb, p_tracker_sockaddr p)] db = Inr ([(frame, clntaddr)], db1)"
    and addrs: "distinct addrs" "set addrs = live_peers now db" "frame_of NETINFO (concat (map peer_address_bytes addrs)) = Some frame"
    and db1: "table_inv db1" "db_abs db1 = (if db_abs db ?pa = None then db_abs db else (db_abs db)(?pa \<mapsto> now))"
    using serve_heartbeat [OF inv hb] by blast
  have len: "length addrs = card (live_peers now db)"
    using addrs(1,2) distinct_card by fastforce
  let ?p = "p\<lparr>p_tracker_socket := [(frame, srvr)]\<rparr>"
  obtain ack where ack: "frame_of ACKNOWLEDGENETINFO (peer_address_bytes ?pa) = Some ack"
    and poll: "tracker_poll env uninit 0 ?p =
      (let p' = ?p\<lparr>p_tracker_socket := [], p_tracker_sockaddr := srvr, p_network_info := Some addrs,
                   p_n_peers := length addrs, p_is_online := (?pa \<in> set addrs)\<rparr>
       in if ?pa \<in> set addrs then Some (0, p', []) else Some (0, p'\<lparr>p_was_offline := True\<rparr>, [(ack, srvr)]))"
    using tracker_poll_frame [OF addrs(3) _ env, of ?p srvr "[]" uninit 0] small buf by (auto simp: len)
  have start: "period env junk rands uninit srvr clntaddr now (p, db) =
    Option.bind (tracker_poll env uninit 0 ?p) (\<lambda>(_, p, acks).
      case tracker_serves junk rands now clntaddr acks db1 of Inl e \<Rightarrow> None | Inr (_, db) \<Rightarrow> Some (p, db))"
    using served by (simp add: period_def send_netinfo_eq hb)
  show ?thesis
  proof (cases "?pa \<in> live_peers now db")
    case True
    then have "db_abs db ?pa \<noteq> None"
      by (auto simp: live_peers_def)
    with True show ?thesis
      using addrs db1 len by (auto simp: start poll Let_def)
  next
    case False
    obtain db2 where "tracker_serves junk rands now clntaddr [(ack, srvr)] db1 = Inr ([], db2)" "table_inv db2"
      "db_abs db2 = (db_abs db1)(?pa \<mapsto> now)"
      using serve_acknowledgement [OF db1(1) ack] by blast
    with False show ?thesis
      using addrs db1 len by (auto simp: start poll Let_def)
  qed
qed

section \<open>Properties\<close>

text \<open>
  C18: A peer that the tracker does not list is online after two periods, if the second follows the first within the
  tracker's time limit: the first makes it answer the list without itself by an acknowledgement, which registers it,
  and the second shows it the list with itself. It then holds the list of exactly the live peers, knows that it has been
  offline, and the tracker has its latest time.
\<close>

theorem registration_takes_two_periods:
  assumes "table_inv db" "peer_env_ok env" "length uninit = 24" "p_own_pa p \<notin> live_peers now db"
    "8 * (card (dom (db_abs db)) + 1) < 2 ^ 63" "now' - now < TIMEOUT_THRESHOLD"
  shows "\<exists>p1 db1 p2 db2. period env junk rands uninit srvr clntaddr now (p, db) = Some (p1, db1) \<and>
    \<not> p_is_online p1 \<and> p_own_pa p1 = p_own_pa p \<and>
    period env junk rands uninit srvr clntaddr now' (p1, db1) = Some (p2, db2) \<and> p_is_online p2 \<and> p_was_offline p2 \<and>
    (\<exists>pas. p_network_info p2 = Some pas \<and> p_own_pa p \<in> set pas \<and> set pas = live_peers now' db1) \<and>
    db_abs db2 = (db_abs db)(p_own_pa p \<mapsto> now')"
proof -
  let ?pa = "p_own_pa p"
  have small: "8 * card (live_peers t d) < 2 ^ 63" if "dom (db_abs d) \<subseteq> insert ?pa (dom (db_abs db))" for t d
  proof -
    have "card (live_peers t d) \<le> card (insert ?pa (dom (db_abs db)))"
      using that by (intro card_mono) (auto simp: live_peers_def)
    also have "\<dots> \<le> card (dom (db_abs db)) + 1"
      by (simp add: card_insert_if)
    finally show ?thesis
      using assms(5) by simp
  qed
  obtain p1 db1 where 1: "period env junk rands uninit srvr clntaddr now (p, db) = Some (p1, db1)" "p_own_pa p1 = ?pa"
    "\<not> p_is_online p1" "p_was_offline p1" "table_inv db1" "db_abs db1 = (db_abs db)(?pa \<mapsto> now)"
    using period_result [OF assms(1-3) small, of junk rands srvr clntaddr now p] assms(4) by auto
  have listed: "?pa \<in> live_peers now' db1"
    using 1(6) assms(6) by (simp add: live_peers_def)
  obtain p2 db2 pas where "period env junk rands uninit srvr clntaddr now' (p1, db1) = Some (p2, db2)" "p_is_online p2" "p_was_offline p2"
    "p_network_info p2 = Some pas" "set pas = live_peers now' db1" "db_abs db2 = (db_abs db1)(?pa \<mapsto> now')"
    using period_result [OF 1(5) assms(2,3) small, of junk rands srvr clntaddr now' p1] 1(2,4,6) listed by auto
  with 1 listed show ?thesis
    by auto
qed

theorem registration_takes_two_periods_witness:
  "\<exists>p1 db1 p2 db2. period sample_env (\<lambda>_. []) (0, 0, 0) (replicate 24 0)
      \<lparr>sin_family = 2, sin_port = 7, sin_addr = 9\<rparr> \<lparr>sin_family = 2, sin_port = 8, sin_addr = 6\<rparr> 100 (sample_peer [], []) = Some (p1, db1) \<and>
    \<not> p_is_online p1 \<and>
    period sample_env (\<lambda>_. []) (0, 0, 0) (replicate 24 0)
      \<lparr>sin_family = 2, sin_port = 7, sin_addr = 9\<rparr> \<lparr>sin_family = 2, sin_port = 8, sin_addr = 6\<rparr> 105 (p1, db1) = Some (p2, db2) \<and> p_is_online p2 \<and>
    db_abs db2 = [p_own_pa (sample_peer []) \<mapsto> 105]"
proof -
  have "p_own_pa (sample_peer []) \<notin> live_peers 100 []" "card (dom (db_abs [])) = 0" "db_abs [] = Map.empty"
    by (simp_all add: live_peers_def db_abs_def)
  then show ?thesis
    using registration_takes_two_periods [of "[]" sample_env "replicate 24 0" "sample_peer []" 100 105 "\<lambda>_. []" "(0, 0, 0)" 
      "\<lparr>sin_family = 2, sin_port = 7, sin_addr = 9\<rparr>" "\<lparr>sin_family = 2, sin_port = 8, sin_addr = 6\<rparr>"]
    by (auto simp: TIMEOUT_THRESHOLD_def)
qed

end
