(* ===== verification/Sha256.thy ===== *)
theory Sha256
  imports Prelude
begin

text \<open>
  The hash function of blocks and proofs of work, \<^verbatim>\<open>application/sha256/sha256.h\<close> and
  \<^verbatim>\<open>application/sha256/sha256.cc\<close>: the context with its two-block buffer, \<^verbatim>\<open>init\<close>, \<^verbatim>\<open>update\<close>,
  \<^verbatim>\<open>final\<close>, and the function \<^verbatim>\<open>sha256\<close> that yields the digest in hexadecimal. On inputs below half a gigabyte the buffered computation is the iterated compression of the padded message.
\<close>

section \<open>The context and the compression function\<close>

text \<open>A \<^verbatim>\<open>std::string\<close> is the list of its bytes.\<close>

record sha256_ctx =
  m_tot_len :: u32
  m_len :: u32
  m_block :: bytes
  m_h :: "u32 list"

definition SHA224_256_BLOCK_SIZE :: u32 where
  "SHA224_256_BLOCK_SIZE = 64"

definition sha256_k :: "u32 list" where
  "sha256_k =
     [1116352408, 1899447441, 3049323471, 3921009573, 961987163, 1508970993,
      2453635748, 2870763221, 3624381080, 310598401, 607225278, 1426881987,
      1925078388, 2162078206, 2614888103, 3248222580, 3835390401, 4022224774,
      264347078, 604807628, 770255983, 1249150122, 1555081692, 1996064986,
      2554220882, 2821834349, 2952996808, 3210313671, 3336571891, 3584528711,
      113926993, 338241895, 666307205, 773529912, 1294757372, 1396182291,
      1695183700, 1986661051, 2177026350, 2456956037, 2730485921, 2820302411,
      3259730800, 3345764771, 3516065817, 3600352804, 4094571909, 275423344,
      430227734, 506948616, 659060556, 883997877, 958139571, 1322822218,
      1537002063, 1747873779, 1955562222, 2024104815, 2227730452, 2361852424,
      2428436474, 2756734187, 3204031479, 3329325298]"

definition shr :: "u32 \<Rightarrow> nat \<Rightarrow> u32" where
  "shr x n = drop_bit n x"

definition rotr :: "u32 \<Rightarrow> nat \<Rightarrow> u32" where
  "rotr x n = drop_bit n x OR push_bit (32 - n) x"

definition sha_ch :: "u32 \<Rightarrow> u32 \<Rightarrow> u32 \<Rightarrow> u32" where
  "sha_ch x y z = (x AND y) XOR (NOT x AND z)"

definition sha_maj :: "u32 \<Rightarrow> u32 \<Rightarrow> u32 \<Rightarrow> u32" where
  "sha_maj x y z = (x AND y) XOR (x AND z) XOR (y AND z)"

definition sha_F1 :: "u32 \<Rightarrow> u32" where "sha_F1 x = rotr x 2 XOR rotr x 13 XOR rotr x 22"

definition sha_F2 :: "u32 \<Rightarrow> u32" where "sha_F2 x = rotr x 6 XOR rotr x 11 XOR rotr x 25"

definition sha_F3 :: "u32 \<Rightarrow> u32" where "sha_F3 x = rotr x 7 XOR rotr x 18 XOR shr x 3"

definition sha_F4 :: "u32 \<Rightarrow> u32" where "sha_F4 x = rotr x 17 XOR rotr x 19 XOR shr x 10"

text \<open>Big-endian words of the message and the digest.\<close>

definition pack32 :: "bytes \<Rightarrow> u32" where
  "pack32 str = ucast (str ! 3) OR push_bit 8 (ucast (str ! 2)) OR push_bit 16 (ucast (str ! 1))
     OR push_bit 24 (ucast (str ! 0))"

definition unpack32 :: "u32 \<Rightarrow> bytes" where
  "unpack32 x = [ucast (drop_bit 24 x), ucast (drop_bit 16 x), ucast (drop_bit 8 x), ucast x]"

text \<open>The message schedule; the array \<^verbatim>\<open>w\<close> grows as it is filled.\<close>

definition schedule :: "bytes \<Rightarrow> u32 list" where
  "schedule sub_block =
     fold (\<lambda>j w. w @ [sha_F4 (w ! (j - 2)) + w ! (j - 7) + sha_F3 (w ! (j - 15)) + w ! (j - 16)]) [16..<64]
       (map (\<lambda>j. pack32 (drop (4 * j) sub_block)) [0..<16])"

text \<open>One round on the eight working variables.\<close>

definition sha_round :: "u32 list \<Rightarrow> nat \<Rightarrow> u32 list \<Rightarrow> u32 list" where
  "sha_round w j wv =
     (let t1 = wv ! 7 + sha_F2 (wv ! 4) + sha_ch (wv ! 4) (wv ! 5) (wv ! 6) + sha256_k ! j + w ! j;
          t2 = sha_F1 (wv ! 0) + sha_maj (wv ! 0) (wv ! 1) (wv ! 2)
      in [t1 + t2, wv ! 0, wv ! 1, wv ! 2, wv ! 3 + t1, wv ! 4, wv ! 5, wv ! 6])"

definition compress :: "u32 list \<Rightarrow> bytes \<Rightarrow> u32 list" where
  "compress h sub_block = map2 (+) h (fold (sha_round (schedule sub_block)) [0..<64] h)"

definition transform :: "bytes \<Rightarrow> nat \<Rightarrow> u32 list \<Rightarrow> u32 list" where
  "transform message block_nb h = fold (\<lambda>i h. compress h (drop (64 * i) message)) [0..<block_nb] h"

section \<open>The operations of the context\<close>

definition sha_init :: "sha256_ctx \<Rightarrow> sha256_ctx" where
  "sha_init ctx = ctx\<lparr>m_h := [1779033703, 3144134277, 1013904242, 2773480762, 1359893119, 2600822924, 528734635, 1541459225],
     m_len := 0, m_tot_len := 0\<rparr>"

definition sha_update :: "bytes \<Rightarrow> u32 \<Rightarrow> sha256_ctx \<Rightarrow> sha256_ctx" where
  "sha_update message len ctx =
     (let tmp_len = SHA224_256_BLOCK_SIZE - m_len ctx;
          rem_len = (if len < tmp_len then len else tmp_len);
          ctx = ctx\<lparr>m_block := poke (m_block ctx) (unat (m_len ctx)) (take (unat rem_len) message)\<rparr>
      in if m_len ctx + len < SHA224_256_BLOCK_SIZE then ctx\<lparr>m_len := m_len ctx + len\<rparr>
         else
           (let new_len = len - rem_len;
                block_nb = new_len div SHA224_256_BLOCK_SIZE;
                shifted_message = drop (unat rem_len) message;
                h = transform (m_block ctx) 1 (m_h ctx);
                h = transform shifted_message (unat block_nb) h;
                rem_len = new_len mod SHA224_256_BLOCK_SIZE
            in ctx\<lparr>m_h := h,
                   m_block := poke (m_block ctx) 0 (take (unat rem_len) (drop (64 * unat block_nb) shifted_message)),
                   m_len := rem_len, m_tot_len := m_tot_len ctx + push_bit 6 (block_nb + 1)\<rparr>))"

definition sha_final :: "sha256_ctx \<Rightarrow> bytes" where
  "sha_final ctx =
     (let block_nb = (1 + (if SHA224_256_BLOCK_SIZE - 9 < m_len ctx mod SHA224_256_BLOCK_SIZE then 1 else 0)) :: u32;
          len_b = push_bit 3 (m_tot_len ctx + m_len ctx);
          pm_len = push_bit 6 block_nb;
          block = poke (m_block ctx) (unat (m_len ctx)) (replicate (unat (pm_len - m_len ctx)) 0);
          block = block[unat (m_len ctx) := 128];
          block = poke block (unat (pm_len - 4)) (unpack32 len_b)
      in concat (map unpack32 (transform block (unat block_nb) (m_h ctx))))"

definition hex_digit :: "u8 \<Rightarrow> u8" where
  "hex_digit n = (if n < 10 then 48 + n else 87 + n)"

definition hex_byte :: "u8 \<Rightarrow> bytes" where
  "hex_byte b = [hex_digit (drop_bit 4 b), hex_digit (b AND 15)]"

text \<open>
  The whole function. The length of the string is cut to \<^verbatim>\<open>unsigned int\<close>; the value-initialised context holds
  a zeroed buffer of two blocks.
\<close>

definition sha256_digest :: "bytes \<Rightarrow> bytes" where
  "sha256_digest input =
     sha_final (sha_update input (of_nat (length input))
       (sha_init \<lparr>m_tot_len = 0, m_len = 0, m_block = replicate 128 0, m_h = replicate 8 0\<rparr>))"

definition sha256 :: "bytes \<Rightarrow> bytes" where
  "sha256 input = concat (map hex_byte (sha256_digest input))"

section \<open>Blocks\<close>

lemma length_schedule [simp]: "length (schedule b) = 64"
proof -
  have len: "length (fold (\<lambda>j w. w @ [f j w]) js w0) = length w0 + length js" for f :: "nat \<Rightarrow> u32 list \<Rightarrow> u32" and js w0
    by (induction js arbitrary: w0) auto
  show ?thesis
    unfolding schedule_def len length_map length_upt by simp
qed

lemma schedule_append:
  assumes "64 \<le> length a"
  shows "schedule (a @ b) = schedule a"
proof -
  have "pack32 (drop (4 * j) (a @ b)) = pack32 (drop (4 * j) a)" if "j < 16" for j
    using that assms by (simp add: pack32_def nth_append less_diff_conv)
  then have "map (\<lambda>j. pack32 (drop (4 * j) (a @ b))) [0..<16] = map (\<lambda>j. pack32 (drop (4 * j) a)) [0..<16]"
    by (intro map_cong) auto
  then show ?thesis
    unfolding schedule_def by (simp only:)
qed

lemma compress_append: "64 \<le> length a \<Longrightarrow> compress h (a @ b) = compress h a"
  by (simp add: compress_def schedule_append)

lemma length_sha_round: "length wv = 8 \<Longrightarrow> length (sha_round w j wv) = 8"
  by (simp add: sha_round_def Let_def)

lemma length_compress [simp]: "length h = 8 \<Longrightarrow> length (compress h b) = 8"
proof -
  have "length wv = 8 \<Longrightarrow> length (fold (sha_round w) js wv) = 8" for w js and wv :: "u32 list"
    by (induction js arbitrary: wv) (auto simp: length_sha_round)
  then show "length h = 8 \<Longrightarrow> length (compress h b) = 8"
    by (simp add: compress_def)
qed

lemma transform_0 [simp]: "transform m 0 h = h"
  by (simp add: transform_def)

lemma transform_Suc: "transform m (Suc n) h = transform (drop 64 m) n (compress h m)"
proof -
  have "[0..<Suc n] = 0 # map Suc [0..<n]"
    by (simp add: map_Suc_upt upt_conv_Cons)
  then show ?thesis
    by (simp add: transform_def fold_map comp_def add.commute del: upt_Suc)
qed

lemma length_transform [simp]: "length h = 8 \<Longrightarrow> length (transform m n h) = 8"
  by (induction n arbitrary: m h) (auto simp: transform_Suc)

lemma transform_add: "transform m (n + k) h = transform (drop (64 * n) m) k (transform m n h)"
  by (induction n arbitrary: m h) (simp_all add: transform_Suc add.commute)

lemma transform_append: "64 * n \<le> length a \<Longrightarrow> transform (a @ b) n h = transform a n h"
  by (induction n arbitrary: a h) (simp_all add: transform_Suc compress_append)

text \<open>The reference: the compression function iterated over the blocks of a message.\<close>

function iterate_blocks :: "u32 list \<Rightarrow> bytes \<Rightarrow> u32 list" where
  "iterate_blocks h m = (if length m < 64 then h else iterate_blocks (compress h (take 64 m)) (drop 64 m))"
  by auto
termination by (relation "measure (\<lambda>(h, m). length m)") auto

declare iterate_blocks.simps [simp del]

lemma transform_eq_iterate: "transform m (length m div 64) h = iterate_blocks h m"
proof (induction h m rule: iterate_blocks.induct)
  case (1 h m)
  show ?case
  proof (cases "length m < 64")
    case False
    then have "length m div 64 = Suc (length (drop 64 m) div 64)"
      by (simp add: le_div_geq)
    moreover have "compress h m = compress h (take 64 m)"
      using compress_append [of "take 64 m" h "drop 64 m"] False by simp
    ultimately show ?thesis
      using 1 [OF False] by (subst iterate_blocks.simps) (simp add: transform_Suc False)
  qed (simp add: iterate_blocks.simps)
qed

definition sha_pad :: "nat \<Rightarrow> bytes" where
  "sha_pad len = 128 # replicate ((119 - len mod 64) mod 64) 0 @ rev (le_bytes 8 (of_nat (8 * len) :: u64))"

definition sha_iv :: "u32 list" where
  "sha_iv = m_h (sha_init \<lparr>m_tot_len = 0, m_len = 0, m_block = [], m_h = []\<rparr>)"

definition sha256_spec :: "bytes \<Rightarrow> bytes" where
  "sha256_spec msg = concat (map unpack32 (iterate_blocks sha_iv (msg @ sha_pad (length msg))))"

lemma length_sha_pad: "length (sha_pad len) = 9 + (119 - len mod 64) mod 64"
  by (simp add: sha_pad_def)

section \<open>The buffered computation\<close>

lemma sha_iv_init: "m_h (sha_init ctx) = sha_iv" "m_len (sha_init ctx) = 0" "m_tot_len (sha_init ctx) = 0"
  "m_block (sha_init ctx) = m_block ctx"
  by (simp_all add: sha_init_def sha_iv_def)

lemma length_sha_iv [simp]: "length sha_iv = 8"
  by (simp add: sha_iv_def sha_init_def)

text \<open>What a context holds after the whole message was added to a fresh one.\<close>

definition sha_holds :: "bytes \<Rightarrow> sha256_ctx \<Rightarrow> bool" where
  "sha_holds msg ctx \<longleftrightarrow>
     (let n = length msg div 64
      in m_h ctx = transform msg n sha_iv \<and> m_len ctx = of_nat (length msg mod 64) \<and>
         m_tot_len ctx = of_nat (64 * n) \<and> length (m_block ctx) = 128 \<and>
         take (length msg mod 64) (m_block ctx) = drop (64 * n) msg)"

lemma sha_update_long:
  assumes "64 \<le> unat len" "m_len ctx = 0"
  shows "sha_update msg len ctx =
    (let block = poke (m_block ctx) 0 (take 64 msg); n = (unat len - 64) div 64
     in ctx\<lparr>m_h := transform (drop 64 msg) n (transform block 1 (m_h ctx)),
            m_block := poke block 0 (take (unat len mod 64) (drop (64 * n) (drop 64 msg))),
            m_len := of_nat (unat len mod 64), m_tot_len := m_tot_len ctx + of_nat (64 * (n + 1))\<rparr>)"
proof -
  have less: "\<not> len < 64"
    using assms(1) by (simp add: word_less_nat_alt)
  have sub: "unat (len - 64) = unat len - 64"
    using assms(1) by (simp add: unat_sub word_le_nat_alt)
  have blocks: "unat ((len - 64) div 64) = (unat len - 64) div 64"
    using sub by (simp add: unat_div_distrib)
  have rest: "unat ((len - 64) mod 64) = unat len mod 64"
    using sub assms(1) by (simp add: unat_mod_distrib le_mod_geq)
  have word: "w = of_nat (unat w)" for w :: u32
    by simp
  have d: "(len - 64) div 64 = of_nat ((unat len - 64) div 64)" and m: "(len - 64) mod 64 = of_nat (unat len mod 64)"
    using blocks rest word by metis+
  have tot: "push_bit 6 ((of_nat k :: u32) + 1) = of_nat (64 * (k + 1))" for k
    by (simp add: push_bit_eq_mult)
  show ?thesis
    unfolding sha_update_def SHA224_256_BLOCK_SIZE_def assms(2) Let_def
    by (simp only: less if_False add_0 diff_zero unat_0 blocks rest tot [symmetric] d [symmetric] m [symmetric]
        if_not_P not_False_eq_True) (simp add: assms(2) less)
qed

lemma sha_update_holds:
  assumes "length msg < 2 ^ 32" "length (m_block ctx) = 128"
  shows "sha_holds msg (sha_update msg (of_nat (length msg)) (sha_init ctx))"
proof -
  let ?L = "length msg"
  have L: "unat (of_nat ?L :: u32) = ?L"
    using assms(1) by (simp add: unat_of_nat)
  show ?thesis
  proof (cases "?L < 64")
    case True
    then have "(of_nat ?L :: u32) < 64"
      using L by (simp add: word_less_nat_alt)
    with True show ?thesis
      using assms(2) L
      by (simp add: sha_update_def sha_holds_def sha_iv_init SHA224_256_BLOCK_SIZE_def Let_def poke_def)
  next
    case False
    define n where "n = (?L - 64) div 64"
    have n1: "?L div 64 = n + 1"
      using False by (simp add: n_def le_div_geq)
    have n: "?L div 64 = n + 1" "?L = 64 + 64 * n + ?L mod 64"
      using n1 mult_div_mod_eq [of 64 ?L] by simp_all
    have rest: "length (drop (64 * n) (drop 64 msg)) = ?L mod 64"
      using n(2) by simp
    have first: "compress sha_iv (take 64 msg @ x) = compress sha_iv msg" for x
      using False compress_append [of "take 64 msg" sha_iv] append_take_drop_id [of 64 msg]
      by (metis length_take min.absorb2 not_less order_refl)
    have h: "transform (drop 64 msg) n (transform (poke (m_block ctx) 0 (take 64 msg)) 1 sha_iv)
        = transform msg (n + 1) sha_iv"
      by (simp add: transform_Suc poke_def first)
    have block: "take (?L mod 64) (poke (poke (m_block ctx) 0 (take 64 msg)) 0 (take (?L mod 64) (drop (64 * n) (drop 64 msg))))
        = drop (64 * (n + 1)) msg"
      using rest by (simp add: poke_def add.commute)
    have "64 \<le> unat (of_nat ?L :: u32)"
      using False L by simp
    from sha_update_long [OF this, of "sha_init ctx" msg] show ?thesis
      using False assms(2) rest h block n(1)
      by (simp add: sha_holds_def sha_iv_init Let_def L n_def [symmetric])
  qed
qed

lemma rev_le_bytes_8:
  assumes "k < 2 ^ 32"
  shows "rev (le_bytes 8 (of_nat k :: u64)) = replicate 4 0 @ unpack32 (of_nat k)"
proof -
  have bits: "bit (of_nat k :: u64) i \<longleftrightarrow> i < 32 \<and> bit k i" "bit (of_nat k :: u32) i \<longleftrightarrow> i < 32 \<and> bit k i" for i
  proof -
    have "k = take_bit 32 k"
      using assms by (simp add: take_bit_nat_eq_self)
    then have "bit k i \<Longrightarrow> i < 32"
      by (metis bit_take_bit_iff)
    moreover have "bit (of_nat k :: u32) i \<longleftrightarrow> i < 32 \<and> bit k i"
      by transfer (simp add: bit_of_nat_iff_bit)
    moreover have "bit (of_nat k :: u64) i \<longleftrightarrow> i < 64 \<and> bit k i"
      by transfer (simp add: bit_of_nat_iff_bit)
    ultimately show "bit (of_nat k :: u64) i \<longleftrightarrow> i < 32 \<and> bit k i" "bit (of_nat k :: u32) i \<longleftrightarrow> i < 32 \<and> bit k i"
      by auto
  qed
  have high: "ucast (drop_bit m (of_nat k :: u64)) = (0 :: u8)" if "32 \<le> m" for m
    by (rule bit_word_eqI) (use that in \<open>auto simp: bit_ucast_iff bit_drop_bit_eq bits\<close>)
  have low: "ucast (drop_bit m (of_nat k :: u64)) = (ucast (drop_bit m (of_nat k :: u32)) :: u8)" for m
    by (rule bit_word_eqI) (auto simp: bit_ucast_iff bit_drop_bit_eq bits)
  have "le_bytes 8 w = map (\<lambda>i. ucast (drop_bit (8 * i) w)) [0..<8]" for w :: u64
    by (simp add: eval_nat_numeral upt_rec)
  then show ?thesis
    using low [of 0] by (simp add: upt_rec unpack32_def high low eval_nat_numeral)
qed

text \<open>The padding that \<^verbatim>\<open>final\<close> writes behind the buffered tail of the message.\<close>

lemma final_block:
  assumes "r < 64" "length B = 128" "k < 2 ^ 32" "8 * k' = k" "k' mod 64 = r" "nb = (if 55 < r then 2 else 1)"
  shows "poke ((poke B r (replicate (64 * nb - r) 0))[r := 128]) (64 * nb - 4) (unpack32 (of_nat k))
    = (take r B @ sha_pad k') @ drop (64 * nb) B"
    and "length (take r B @ sha_pad k') = 64 * nb"
proof -
  let ?p = "replicate (64 * nb - r - 5) (0 :: u8)"
  have nb: "r + 9 \<le> 64 * nb" "64 * nb \<le> 128" "(119 - r) mod 64 + 4 = 64 * nb - r - 5"
    using assms(1,6) by (auto simp: mod_if)
  have split: "replicate (64 * nb - r) (0 :: u8) = 0 # ?p @ replicate 4 0"
    using nb(1) by (simp flip: replicate_Suc replicate_add)
  have "(poke B r (replicate (64 * nb - r) 0))[r := 128] = take r B @ 128 # ?p @ replicate 4 0 @ drop (64 * nb) B"
    unfolding poke_def split using assms(1,2) nb by (simp add: list_update_append del: replicate.simps)
  moreover have "length (take r B @ 128 # ?p) = 64 * nb - 4"
    using assms(1,2) nb by simp
  moreover have "length (unpack32 (of_nat k)) = 4"
    by (simp add: unpack32_def)
  ultimately have "poke ((poke B r (replicate (64 * nb - r) 0))[r := 128]) (64 * nb - 4) (unpack32 (of_nat k))
      = (take r B @ 128 # ?p) @ unpack32 (of_nat k) @ drop (64 * nb) B"
    using poke_mid [of "64 * nb - 4" "take r B @ 128 # ?p" "replicate 4 0" "unpack32 (of_nat k)" "drop (64 * nb) B"]
    by simp
  moreover have pad: "sha_pad k' = 128 # ?p @ unpack32 (of_nat k)"
    using rev_le_bytes_8 [OF assms(3)] assms(4,5) nb(3) by (simp add: sha_pad_def replicate_add [symmetric])
  ultimately show "poke ((poke B r (replicate (64 * nb - r) 0))[r := 128]) (64 * nb - 4) (unpack32 (of_nat k))
      = (take r B @ sha_pad k') @ drop (64 * nb) B"
    by simp
  show "length (take r B @ sha_pad k') = 64 * nb"
    unfolding pad using assms(1,2) nb by (simp add: unpack32_def)
qed

lemma sha_final_spec:
  assumes "sha_holds msg ctx" "length msg < 2 ^ 29"
  shows "sha_final ctx = sha256_spec msg"
proof -
  let ?L = "length msg"
  define n r nb where "n = ?L div 64" and "r = ?L mod 64" and "nb = (if 55 < r then 2 else 1 :: nat)"
  have ctx: "m_h ctx = transform msg n sha_iv" "m_len ctx = of_nat r" "m_tot_len ctx = of_nat (64 * n)"
    "length (m_block ctx) = 128" "take r (m_block ctx) = drop (64 * n) msg"
    using assms(1) by (simp_all add: sha_holds_def Let_def n_def r_def)
  have L: "?L = 64 * n + r" and r: "r < 64"
    by (simp_all add: n_def r_def)
  have r_word: "unat (of_nat r :: u32) = r"
    using r by (simp add: unat_of_nat)
  have len_b: "push_bit 3 (m_tot_len ctx + m_len ctx) = of_nat (8 * ?L)"
    unfolding ctx(2,3) push_bit_eq_mult by (simp add: L)
  have nb_word: "(1 + (if SHA224_256_BLOCK_SIZE - 9 < m_len ctx mod SHA224_256_BLOCK_SIZE then 1 else 0) :: u32) = of_nat nb"
    unfolding ctx(2) SHA224_256_BLOCK_SIZE_def using r_word r by (simp add: word_less_nat_alt unat_mod_distrib nb_def)
  have pm: "push_bit 6 (of_nat nb :: u32) = of_nat (64 * nb)" "unat (of_nat (64 * nb) :: u32) = 64 * nb"
    "unat (of_nat nb :: u32) = nb"
    by (simp_all add: nb_def push_bit_eq_mult)
  have pm_sub: "unat (of_nat (64 * nb) - of_nat r :: u32) = 64 * nb - r" "unat (of_nat (64 * nb) - 4 :: u32) = 64 * nb - 4"
    using r pm(2) r_word by (simp_all add: unat_sub word_le_nat_alt nb_def)
  let ?block = "poke ((poke (m_block ctx) r (replicate (64 * nb - r) 0))[r := 128]) (64 * nb - 4) (unpack32 (of_nat (8 * ?L)))"
  have k: "8 * ?L < 2 ^ 32" "?L mod 64 = r"
    using assms(2) by (simp_all add: r_def)
  note pad = final_block [OF r ctx(4) k(1) refl k(2) nb_def]
  have "sha_final ctx = concat (map unpack32 (transform ?block nb (transform msg n sha_iv)))"
    unfolding sha_final_def Let_def nb_word len_b pm pm_sub ctx(1) unfolding ctx(2) r_word pm pm_sub ..
  also have "transform ?block nb h = transform (drop (64 * n) msg @ sha_pad ?L) nb h" for h
    unfolding pad(1) using transform_append [of nb "take r (m_block ctx) @ sha_pad ?L"] pad(2) ctx(5) by simp
  also have "transform (drop (64 * n) msg @ sha_pad ?L) nb (transform msg n sha_iv)
      = transform (msg @ sha_pad ?L) (n + nb) sha_iv"
    using transform_append [of n msg "sha_pad ?L" sha_iv] by (simp add: transform_add L)
  also have "n + nb = length (msg @ sha_pad ?L) div 64"
  proof -
    have "length (msg @ sha_pad ?L) = 64 * n + length (take r (m_block ctx) @ sha_pad ?L)"
      unfolding ctx(5) by (simp add: L)
    also have "\<dots> = 64 * (n + nb)"
      unfolding pad(2) by simp
    finally show ?thesis by simp
  qed
  finally show ?thesis
    by (simp only: transform_eq_iterate sha256_spec_def)
qed

lemma sha256_digest_eq: "length msg < 2 ^ 29 \<Longrightarrow> sha256_digest msg = sha256_spec msg"
  unfolding sha256_digest_def by (rule sha_final_spec [OF sha_update_holds]) simp_all

section \<open>The hexadecimal digest\<close>

definition is_hex :: "u8 \<Rightarrow> bool" where
  "is_hex c \<longleftrightarrow> 48 \<le> c \<and> c \<le> 57 \<or> 97 \<le> c \<and> c \<le> 102"

lemma length_sha256_digest: "length (sha256_digest input) = 32"
proof -
  have update: "length (m_h (sha_update m l ctx)) = 8" if "length (m_h ctx) = 8" for m l ctx
    using that by (simp add: sha_update_def Let_def)
  have words: "length (concat (map unpack32 ws)) = 4 * length ws" for ws
    by (induction ws) (auto simp: unpack32_def)
  show ?thesis
    unfolding sha256_digest_def sha_final_def Let_def words
    by (subst length_transform) (simp_all add: update sha_iv_init)
qed

lemma is_hex_digit: "n < 16 \<Longrightarrow> is_hex (hex_digit n)"
proof -
  assume "n < 16"
  then have "unat n < 16"
    by (simp add: word_less_nat_alt)
  then have "unat (hex_digit n) = (if unat n < 10 then 48 + unat n else 87 + unat n)"
    by (simp add: hex_digit_def word_less_nat_alt unat_word_ariths)
  with \<open>unat n < 16\<close> show "is_hex (hex_digit n)"
    by (simp add: is_hex_def word_le_nat_alt split: if_splits)
qed

lemma nibble_less: "drop_bit 4 b < (16 :: u8)" "b AND 15 < (16 :: u8)"
proof -
  have "unat b < 256"
    by (rule less_le_trans [OF unsigned_less]) simp
  then have "unat (drop_bit 4 b) < 16"
    by (simp add: drop_bit_eq_div unat_div_distrib less_mult_imp_div_less)
  then show "drop_bit 4 b < (16 :: u8)"
    by (simp add: word_less_nat_alt)
  have "b AND 15 = take_bit 4 b"
    by (simp add: take_bit_eq_mask mask_eq_exp_minus_1)
  then have "unat (b AND 15) < 16"
    by (simp add: take_bit_eq_mod unat_mod_distrib)
  then show "b AND 15 < (16 :: u8)"
    by (simp add: word_less_nat_alt)
qed

lemma length_sha256 [simp]: "length (sha256 input) = 64"
proof -
  have "length (concat (map hex_byte bs)) = 2 * length bs" for bs
    by (induction bs) (auto simp: hex_byte_def)
  then show ?thesis
    by (simp add: sha256_def length_sha256_digest)
qed

lemma sha256_is_hex: "\<forall>c \<in> set (sha256 input). is_hex c"
  by (auto simp: sha256_def hex_byte_def is_hex_digit nibble_less)

section \<open>Properties\<close>

text \<open>
  C15: For every input shorter than 2 to the 29 bytes the function returns, in hexadecimal, the compression function iterated over the
  64-byte blocks of the message followed by a 1 bit, zeros and its length in bits as a 64-bit big-endian number: the
  incremental buffering, the 32-bit counters and the one- or two-block ending of the code never show.
\<close>

theorem sha256_is_iterated_compression:
  assumes "length input < 2 ^ 29"
  shows "sha256 input = concat (map hex_byte (concat (map unpack32
    (iterate_blocks sha_iv (input @ sha_pad (length input))))))"
  by (simp add: sha256_def sha256_digest_eq [OF assms] sha256_spec_def)

theorem sha256_is_iterated_compression_witness:
  "sha256 [97, 98, 99] = concat (map hex_byte (concat (map unpack32
    (iterate_blocks sha_iv ([97, 98, 99] @ sha_pad (length [97, 98, 99 :: u8]))))))"
  by (rule sha256_is_iterated_compression) simp

text \<open>The result is always 64 characters long, each a digit or a letter from \<open>a\<close> to \<open>f\<close>.\<close>

lemma sha256_output_format: "length (sha256 input) = 64 \<and> list_all is_hex (sha256 input)"
  using sha256_is_hex by (simp add: list_all_iff)

end
