(* ===== verification/Blockchain.thy ===== *)
theory Blockchain
  imports Refinement Sha256
begin

text \<open>
  Blocks and the chain, \<^verbatim>\<open>application/blockchain/block.h\<close> and \<^verbatim>\<open>application/blockchain/blockchain.h\<close>, for
  any type of data and any hash function; hashes are strings. Every chain the operations can build, unless it is empty, is linked
  from the genesis block, and two chains of one length that end in the same hash are the same chain
  unless the hash function has a collision.
\<close>

section \<open>Blocks\<close>

record 't block =
  blk_data :: 't
  blk_hash :: bytes
  blk_prev_hash :: bytes

definition SetData :: "'t \<Rightarrow> 't block \<Rightarrow> 't block" where
  "SetData d b = b\<lparr>blk_data := d\<rparr>"

definition SetHash :: "bytes \<Rightarrow> 't block \<Rightarrow> 't block" where
  "SetHash h b = b\<lparr>blk_hash := h\<rparr>"

definition SetPrevHash :: "bytes \<Rightarrow> 't block \<Rightarrow> 't block" where
  "SetPrevHash h b = b\<lparr>blk_prev_hash := h\<rparr>"

definition GetData :: "'t block \<Rightarrow> 't" where
  "GetData b = blk_data b"

definition GetHash :: "'t block \<Rightarrow> bytes" where
  "GetHash b = blk_hash b"

definition GetPrevHash :: "'t block \<Rightarrow> bytes" where
  "GetPrevHash b = blk_prev_hash b"

text \<open>The constructors set every member; what the storage held before does not matter.\<close>

definition Block :: "'t \<Rightarrow> bytes \<Rightarrow> bytes \<Rightarrow> 't block \<Rightarrow> 't block" where
  "Block d h p uninit = SetPrevHash p (SetHash h (SetData d uninit))"

definition Block_default :: "'t \<Rightarrow> 't block \<Rightarrow> 't block" where
  "Block_default default_t uninit = SetPrevHash [] (SetHash [] (SetData default_t uninit))"

lemmas block_defs = SetData_def SetHash_def SetPrevHash_def GetData_def GetHash_def GetPrevHash_def
  Block_def Block_default_def

lemma Block_eq: "Block d h p uninit = \<lparr>blk_data = d, blk_hash = h, blk_prev_hash = p\<rparr>"
  by (cases uninit) (simp add: block_defs)

section \<open>The chain\<close>

text \<open>
  The member \<^verbatim>\<open>blocks\<close>; the member \<^verbatim>\<open>hash_func\<close> never changes and is an argument of the operations that call
  it. \<^verbatim>\<open>back()\<close> of an empty vector has no value.
\<close>

type_synonym 't chain = "'t block list"

definition vector_back :: "'a list \<Rightarrow> 'a option" where
  "vector_back xs = (if xs = [] then None else Some (last xs))"

definition new_blockchain :: "('t \<Rightarrow> bytes \<Rightarrow> bytes) \<Rightarrow> 't \<Rightarrow> 't block \<Rightarrow> 't chain" where
  "new_blockchain hash_func default_t uninit =
     (let genesis = Block_default default_t uninit;
          d = GetData genesis;
          prev_hash = GetPrevHash genesis
      in [] @ [SetHash (hash_func d prev_hash) genesis])"

definition SneakPeekBlock :: "('t \<Rightarrow> bytes \<Rightarrow> bytes) \<Rightarrow> 't \<Rightarrow> 't block \<Rightarrow> 't chain \<Rightarrow> 't block option" where
  "SneakPeekBlock hash_func d uninit blocks =
     Option.bind (vector_back blocks) (\<lambda>top. let prev_hash = GetHash top
       in Some (Block d (hash_func d prev_hash) prev_hash uninit))"

definition AddBlock :: "('t \<Rightarrow> bytes \<Rightarrow> bytes) \<Rightarrow> 't \<Rightarrow> 't block \<Rightarrow> 't chain \<Rightarrow> 't chain option" where
  "AddBlock hash_func d uninit blocks =
     Option.bind (vector_back blocks) (\<lambda>top. let prev_hash = GetHash top;
         b = Block d (hash_func d prev_hash) prev_hash uninit
       in Some (blocks @ [b]))"

definition PopBlock :: "'t chain \<Rightarrow> 't chain" where
  "PopBlock blocks = (if length blocks > 0 then butlast blocks else blocks)"

definition GetBlockFromIndex :: "nat \<Rightarrow> 't chain \<Rightarrow> 't block option" where
  "GetBlockFromIndex index blocks = (if index < length blocks then Some (blocks ! index) else None)"

definition GetTopBlock :: "'t chain \<Rightarrow> 't block option" where
  "GetTopBlock blocks = vector_back blocks"

definition GetBlocks :: "'t chain \<Rightarrow> 't block list" where
  "GetBlocks blocks = blocks"

definition GetHashAtIndex :: "nat \<Rightarrow> 't chain \<Rightarrow> bytes option" where
  "GetHashAtIndex index blocks = map_option GetHash (GetBlockFromIndex index blocks)"

definition GetHashFromBlock :: "'t block \<Rightarrow> bytes" where
  "GetHashFromBlock b = blk_hash b"

definition GetTopHash :: "'t chain \<Rightarrow> bytes option" where
  "GetTopHash blocks = map_option GetHash (vector_back blocks)"

definition Size :: "'t chain \<Rightarrow> nat" where
  "Size blocks = length blocks"

section \<open>Linked chains\<close>

text \<open>Each block carries the hash of its data and of its predecessor's hash; the first has the empty predecessor.\<close>

fun linked :: "('t \<Rightarrow> bytes \<Rightarrow> bytes) \<Rightarrow> bytes \<Rightarrow> 't chain \<Rightarrow> bool" where
  "linked hash_func prev [] = True"
| "linked hash_func prev (b # bs) =
     (blk_prev_hash b = prev \<and> blk_hash b = hash_func (blk_data b) prev \<and> linked hash_func (blk_hash b) bs)"

lemma linked_append:
  "linked f p (xs @ ys) \<longleftrightarrow> linked f p xs \<and> linked f (if xs = [] then p else blk_hash (last xs)) ys"
  by (induction xs arbitrary: p) auto

definition chain_valid :: "('t \<Rightarrow> bytes \<Rightarrow> bytes) \<Rightarrow> 't \<Rightarrow> 't chain \<Rightarrow> bool" where
  "chain_valid hash_func default_t blocks \<longleftrightarrow>
     blocks \<noteq> [] \<and> blk_data (hd blocks) = default_t \<and> linked hash_func [] blocks"

lemma new_blockchain_valid: "chain_valid f d (new_blockchain f d uninit)"
  by (cases uninit) (simp add: chain_valid_def new_blockchain_def block_defs Let_def)

lemma AddBlock_eq:
  "blocks \<noteq> [] \<Longrightarrow> AddBlock f d uninit blocks = Some (blocks @
    [\<lparr>blk_data = d, blk_hash = f d (blk_hash (last blocks)), blk_prev_hash = blk_hash (last blocks)\<rparr>])"
  by (simp add: AddBlock_def vector_back_def Block_eq GetHash_def Let_def)

lemma AddBlock_valid:
  assumes "chain_valid f d0 blocks"
  shows "\<exists>blocks'. AddBlock f d uninit blocks = Some blocks' \<and> chain_valid f d0 blocks'"
  using assms by (auto simp: chain_valid_def AddBlock_eq linked_append)

lemma PopBlock_valid:
  "chain_valid f d0 blocks \<Longrightarrow> 1 < length blocks \<Longrightarrow> chain_valid f d0 (PopBlock blocks)"
proof -
  assume valid: "chain_valid f d0 blocks" and len: "1 < length blocks"
  then have split: "blocks = butlast blocks @ [last blocks]"
    by (simp add: chain_valid_def)
  have "butlast blocks \<noteq> []"
    using len by (cases blocks) auto
  moreover have "hd blocks = hd (butlast blocks)"
    using calculation split by (metis hd_append2)
  moreover have "linked f [] (butlast blocks)"
    using valid linked_append [of f "[]" "butlast blocks" "[last blocks]"] split by (simp add: chain_valid_def)
  ultimately show "chain_valid f d0 (PopBlock blocks)"
    using valid len by (auto simp: chain_valid_def PopBlock_def)
qed

section \<open>The chain as a system\<close>

text \<open>
  Operations in any order. \<^verbatim>\<open>PopBlock\<close> removes the genesis block like any other, and an addition to an empty chain is
  undefined: it reads \<^verbatim>\<open>back()\<close> of an empty vector.
\<close>

datatype 't chain_event = Add 't "'t block" | Pop

fun chain_step :: "('t \<Rightarrow> bytes \<Rightarrow> bytes) \<Rightarrow> 't chain_event \<Rightarrow> 't chain \<Rightarrow> unit + 't chain" where
  "chain_step f (Add d uninit) blocks = (case AddBlock f d uninit blocks of None \<Rightarrow> Inl () | Some bs \<Rightarrow> Inr bs)"
| "chain_step f Pop blocks = Inr (PopBlock blocks)"

interpretation chain_sys: guarded_system "chain_step f" "\<lambda>_. True" "\<lambda>blocks. blocks = [] \<or> chain_valid f d0 blocks" for f d0
proof unfold_locales
  fix s s' :: "'a chain" and e
  assume valid: "s = [] \<or> chain_valid f d0 s" and step: "chain_step f e s = Inr s'"
  show "s' = [] \<or> chain_valid f d0 s'"
  proof (cases e)
    case (Add d uninit)
    with step have "s \<noteq> []"
      by (auto simp: AddBlock_def vector_back_def)
    with valid Add step AddBlock_valid [of f d0 s d uninit] show ?thesis by auto
  next
    case Pop
    then have s': "s' = PopBlock s"
      using step by simp
    show ?thesis
    proof (cases "1 < length s")
      case True
      with valid PopBlock_valid [of f d0 s] s' show ?thesis by auto
    next
      case False
      then have "length s' = 0"
        using s' by (cases s) (auto simp: PopBlock_def)
      then show ?thesis by simp
    qed
  qed
qed

text \<open>What a chain is to its client: a stack of data, of which the blocks are the linked presentation.\<close>

fun stack_step :: "'t chain_event \<Rightarrow> 't list \<Rightarrow> unit + 't list" where
  "stack_step (Add d uninit) ds = (if ds = [] then Inl () else Inr (ds @ [d]))"
| "stack_step Pop ds = Inr (butlast ds)"

fun chain_of :: "('t \<Rightarrow> bytes \<Rightarrow> bytes) \<Rightarrow> bytes \<Rightarrow> 't list \<Rightarrow> 't chain" where
  "chain_of f prev [] = []"
| "chain_of f prev (d # ds) = \<lparr>blk_data = d, blk_hash = f d prev, blk_prev_hash = prev\<rparr> # chain_of f (f d prev) ds"

lemma chain_of_empty [simp]: "chain_of f prev ds = [] \<longleftrightarrow> ds = []"
  by (cases ds) auto

lemma chain_of_snoc:
  "chain_of f prev (ds @ [d]) = chain_of f prev ds @
    (let p = if ds = [] then prev else blk_hash (last (chain_of f prev ds))
     in [\<lparr>blk_data = d, blk_hash = f d p, blk_prev_hash = p\<rparr>])"
  by (induction ds arbitrary: prev) (auto simp: Let_def)

lemma chain_of_butlast: "chain_of f prev (butlast ds) = butlast (chain_of f prev ds)"
  by (cases ds rule: rev_cases) (simp_all add: chain_of_snoc Let_def)

lemma chain_step_stack: "chain_step f e (chain_of f [] ds) = map_sum id (chain_of f []) (stack_step e ds)"
proof (cases e)
  case (Add d uninit)
  then show ?thesis
    by (cases "ds = []") (simp_all add: AddBlock_eq chain_of_snoc Let_def, simp add: AddBlock_def vector_back_def)
next
  case Pop
  then show ?thesis by (simp add: PopBlock_def chain_of_butlast)
qed

lemma run_chain_stack:
  "run_events (chain_step f) es (chain_of f [] ds) = map_sum id (chain_of f []) (run_events stack_step es ds)"
  by (induction es arbitrary: ds) (simp_all add: chain_step_stack split: sum.split)

section \<open>Agreement\<close>

text \<open>A block of each chain whose different contents have the same hash.\<close>

definition hash_collision :: "('t \<Rightarrow> bytes \<Rightarrow> bytes) \<Rightarrow> 't chain \<Rightarrow> 't chain \<Rightarrow> bool" where
  "hash_collision f xs ys \<longleftrightarrow> (\<exists>a \<in> set xs. \<exists>b \<in> set ys.
     (blk_data a, blk_prev_hash a) \<noteq> (blk_data b, blk_prev_hash b) \<and>
     f (blk_data a) (blk_prev_hash a) = f (blk_data b) (blk_prev_hash b))"

lemma hash_collision_Cons:
  "hash_collision f (x # xs) (y # ys) \<longleftrightarrow> hash_collision f [x] [y] \<or> hash_collision f [x] ys \<or>
    hash_collision f xs [y] \<or> hash_collision f xs ys"
  by (auto simp: hash_collision_def)

lemma linked_same_top:
  fixes xs ys :: "'t chain"
  assumes "linked f p xs" "linked f q ys" "length xs = length ys" "xs \<noteq> []"
    "blk_hash (last xs) = blk_hash (last ys)" "\<not> hash_collision f xs ys"
  shows "xs = ys \<and> p = q"
  using assms(3,1,2,4-6)
proof (induction xs ys arbitrary: p q rule: list_induct2)
  case (Cons x xs y ys)
  have head: "x = y \<and> p = q" if "blk_hash x = blk_hash y"
  proof -
    have "blk_data x = blk_data y \<and> blk_prev_hash x = blk_prev_hash y"
      using that Cons.prems(1,2,5) by (auto simp: hash_collision_def)
    with that Cons.prems(1,2) show ?thesis by (cases x; cases y) simp
  qed
  show ?case
  proof (cases "xs = []")
    case True
    then have "ys = []" using Cons.hyps by simp
    with True Cons.prems head show ?thesis by auto
  next
    case False
    then have "ys \<noteq> []" using Cons.hyps by auto
    with False have "xs = ys \<and> blk_hash x = blk_hash y"
      using Cons.prems hash_collision_Cons [of f x xs y ys] by (intro Cons.IH) auto
    with head show ?thesis by auto
  qed
qed simp

section \<open>Properties\<close>

text \<open>
  C25: Whatever blocks are added and popped after construction, the chain is exactly the linked presentation of a stack of data
  that starts with the genesis data: every block holds its data, the hash of the block before it, and the hash of both; the
  sequence is undefined exactly when data is added to a chain from which the genesis block has been popped, which \<^verbatim>\<open>PopBlock\<close>
  allows. As long as the chain is not empty it is valid: it starts with the genesis block.
\<close>

theorem blockchain_is_linked_stack:
  "run_events (chain_step hash_func) es (new_blockchain hash_func default_t uninit) =
     map_sum id (chain_of hash_func []) (run_events stack_step es [default_t]) \<and>
   (\<forall>blocks. run_events (chain_step hash_func) es (new_blockchain hash_func default_t uninit) = Inr blocks \<longrightarrow>
     blocks = [] \<or> chain_valid hash_func default_t blocks)"
proof -
  have start: "new_blockchain hash_func default_t uninit = chain_of hash_func [] [default_t]"
    by (cases uninit) (simp add: new_blockchain_def block_defs Let_def)
  have "run_events (chain_step hash_func) es (new_blockchain hash_func default_t uninit) =
      map_sum id (chain_of hash_func []) (run_events stack_step es [default_t])"
    unfolding start by (rule run_chain_stack)
  moreover have "blocks = [] \<or> chain_valid hash_func default_t blocks"
    if "run_events (chain_step hash_func) es (new_blockchain hash_func default_t uninit) = Inr blocks" for blocks
  proof (rule chain_sys.reaches_inv)
    show "reaches (chain_step hash_func) (\<lambda>_. True) (new_blockchain hash_func default_t uninit) blocks"
      by (rule run_events_reaches [OF that]) simp
    show "new_blockchain hash_func default_t uninit = [] \<or>
        chain_valid hash_func default_t (new_blockchain hash_func default_t uninit)"
      using new_blockchain_valid by (rule disjI2)
  qed
  ultimately show ?thesis
    by blast
qed

text \<open>Two additions and a removal leave one block on the genesis block; an addition after the genesis block was popped fails.\<close>

theorem blockchain_is_linked_stack_witness:
  "\<forall>u :: u8 block.
     run_events (chain_step (\<lambda>d h. d # h)) [Add 7 u, Add 8 u, Pop] (new_blockchain (\<lambda>d h. d # h) 0 u) =
       Inr [\<lparr>blk_data = 0, blk_hash = [0], blk_prev_hash = []\<rparr>, \<lparr>blk_data = 7, blk_hash = [7, 0], blk_prev_hash = [0]\<rparr>] \<and>
     chain_valid (\<lambda>d h. d # h) 0
       [\<lparr>blk_data = 0, blk_hash = [0], blk_prev_hash = []\<rparr>, \<lparr>blk_data = 7, blk_hash = [7, 0], blk_prev_hash = [0]\<rparr>] \<and>
     run_events (chain_step (\<lambda>d h. d # h)) [Pop, Add 7 u] (new_blockchain (\<lambda>d h. d # h) 0 u) = Inl ()"
proof
  fix u :: "u8 block"
  note stack = blockchain_is_linked_stack [of "\<lambda>d h. d # h" _ 0 u]
  have two: "run_events (chain_step (\<lambda>d h. d # h)) [Add 7 u, Add 8 u, Pop] (new_blockchain (\<lambda>d h. d # h) 0 u) =
    Inr [\<lparr>blk_data = 0, blk_hash = [0], blk_prev_hash = []\<rparr>, \<lparr>blk_data = 7, blk_hash = [7, 0], blk_prev_hash = [0]\<rparr>]"
    using stack [of "[Add 7 u, Add 8 u, Pop]"] by simp
  have "chain_valid (\<lambda>d h. d # h) 0
    [\<lparr>blk_data = 0, blk_hash = [0], blk_prev_hash = []\<rparr>, \<lparr>blk_data = 7, blk_hash = [7, 0], blk_prev_hash = [0]\<rparr>]"
    using stack [of "[Add 7 u, Add 8 u, Pop]"] two by blast
  with two stack [of "[Pop, Add 7 u]"] show "run_events (chain_step (\<lambda>d h. d # h)) [Add 7 u, Add 8 u, Pop] (new_blockchain (\<lambda>d h. d # h) 0 u) =
       Inr [\<lparr>blk_data = 0, blk_hash = [0], blk_prev_hash = []\<rparr>, \<lparr>blk_data = 7, blk_hash = [7, 0], blk_prev_hash = [0]\<rparr>] \<and>
     chain_valid (\<lambda>d h. d # h) 0
       [\<lparr>blk_data = 0, blk_hash = [0], blk_prev_hash = []\<rparr>, \<lparr>blk_data = 7, blk_hash = [7, 0], blk_prev_hash = [0]\<rparr>] \<and>
     run_events (chain_step (\<lambda>d h. d # h)) [Pop, Add 7 u] (new_blockchain (\<lambda>d h. d # h) 0 u) = Inl ()"
    by simp
qed

text \<open>
  The block \<^verbatim>\<open>SneakPeekBlock\<close> shows is the one \<^verbatim>\<open>AddBlock\<close> appends; afterwards it is the top block, at the index that was the
  size, and all earlier blocks are where they were.
\<close>

lemma AddBlock_appends_SneakPeek:
  assumes "AddBlock hash_func d uninit blocks = Some blocks'"
  shows "\<exists>b. SneakPeekBlock hash_func d uninit' blocks = Some b \<and> GetTopBlock blocks' = Some b \<and>
    GetBlockFromIndex (Size blocks) blocks' = Some b \<and> Size blocks' = Size blocks + 1 \<and>
    (\<forall>i < Size blocks. GetBlockFromIndex i blocks' = GetBlockFromIndex i blocks) \<and>
    GetData b = d \<and> GetTopHash blocks = Some (GetPrevHash b)"
  using assms
  by (auto simp: AddBlock_def SneakPeekBlock_def bind_eq_Some_conv Block_eq GetTopBlock_def vector_back_def GetBlockFromIndex_def
      Size_def nth_append GetData_def GetTopHash_def GetHash_def GetPrevHash_def Let_def split: if_splits)

end
