(* ===== verification/Wire.thy ===== *)
theory Wire
  imports Common Blockchain
begin

text \<open>
  The messages of the application layer, from \<^verbatim>\<open>application/application.h\<close>, \<^verbatim>\<open>application/transaction.h\<close> and
  the free functions at the head of \<^verbatim>\<open>application/application.cc\<close>: memory images of the message structures
  on x86-64, the serialisation of blocks, and the hashes of blocks. A block type instance stores the memory
  image of its transactions.
\<close>

section \<open>Structures\<close>

datatype blockchain_message_type = BLOCK | REQUESTBLOCK | NOBLOCK | VOTE | ADDREQUEST

fun blockchain_type_code :: "blockchain_message_type \<Rightarrow> u32" where
  "blockchain_type_code BLOCK = 0"
| "blockchain_type_code REQUESTBLOCK = 1"
| "blockchain_type_code NOBLOCK = 2"
| "blockchain_type_code VOTE = 3"
| "blockchain_type_code ADDREQUEST = 4"

text \<open>
  The header: the type at offset 0, the address at 4, four bytes of padding, the index at 16. A vote adds
  a \<^verbatim>\<open>bool\<close> at 24 and, after padding, the size of the hash at 32; an addition request the size of the proof of
  work at 24. The code zeroes every structure before it fills it.
\<close>

record blockchain_message_header =
  bmh_type :: u32
  bmh_peer_address :: peer_address
  bmh_index :: size_t

definition bmh_bytes :: "blockchain_message_header \<Rightarrow> bytes" where
  "bmh_bytes bmh = le_bytes 4 (bmh_type bmh) @ peer_address_bytes (bmh_peer_address bmh) @ replicate 4 0 @
     le_bytes 8 (bmh_index bmh)"

definition bmh_of :: "bytes \<Rightarrow> blockchain_message_header" where
  "bmh_of bs = \<lparr>bmh_type = le_word (take 4 bs), bmh_peer_address = peer_address_of (drop 4 bs),
     bmh_index = le_word (take 8 (drop 16 bs))\<rparr>"

record block_vote =
  bv_bmh :: blockchain_message_header
  bv_agree :: bool
  bv_hash_size :: size_t

definition vote_bytes :: "block_vote \<Rightarrow> bytes" where
  "vote_bytes v = bmh_bytes (bv_bmh v) @ [if bv_agree v then 1 else 0] @ replicate 7 0 @ le_bytes 8 (bv_hash_size v)"

definition vote_of :: "bytes \<Rightarrow> block_vote" where
  "vote_of bs = \<lparr>bv_bmh = bmh_of bs, bv_agree = bs ! 24 \<noteq> 0, bv_hash_size = le_word (take 8 (drop 32 bs))\<rparr>"

record addition_request =
  bar_bmh :: blockchain_message_header
  bar_pow_size :: size_t

definition request_bytes :: "addition_request \<Rightarrow> bytes" where
  "request_bytes r = bmh_bytes (bar_bmh r) @ le_bytes 8 (bar_pow_size r)"

definition request_of :: "bytes \<Rightarrow> addition_request" where
  "request_of bs = \<lparr>bar_bmh = bmh_of bs, bar_pow_size = le_word (take 8 (drop 24 bs))\<rparr>"

text \<open>
  Reading a message through a pointer to a structure has no value when the message is shorter than the
  structure.
\<close>

definition read_bmh :: "bytes \<Rightarrow> blockchain_message_header option" where
  "read_bmh msg = map_option bmh_of (read_bytes msg 0 24)"

definition read_vote :: "bytes \<Rightarrow> block_vote option" where
  "read_vote msg = map_option vote_of (read_bytes msg 0 40)"

definition read_request :: "bytes \<Rightarrow> addition_request option" where
  "read_request msg = map_option request_of (read_bytes msg 0 32)"

lemma length_bmh_bytes [simp]: "length (bmh_bytes b) = 24"
  by (simp add: bmh_bytes_def)

lemma length_vote_bytes [simp]: "length (vote_bytes v) = 40"
  by (simp add: vote_bytes_def)

lemma length_request_bytes [simp]: "length (request_bytes r) = 32"
  by (simp add: request_bytes_def)

lemma bmh_of_bytes [simp]: "bmh_of (bmh_bytes b @ rest) = b"
  by (simp add: bmh_of_def bmh_bytes_def)

lemma read_bmh_bytes [simp]: "read_bmh (bmh_bytes b @ rest) = Some b"
  using bmh_of_bytes [of b "[]"] by (simp add: read_bmh_def read_bytes_def)

lemma read_vote_bytes [simp]: "read_vote (vote_bytes v @ rest) = Some v"
  by (simp add: read_vote_def read_bytes_def) (simp add: vote_of_def vote_bytes_def nth_append)

lemma read_request_bytes [simp]: "read_request (request_bytes r @ rest) = Some r"
  by (simp add: read_request_def read_bytes_def) (simp add: request_of_def request_bytes_def)

section \<open>Transactions\<close>

definition MAX_TRANSACTIONS :: nat where
  "MAX_TRANSACTIONS = 100"

text \<open>A transaction: two characters, six bytes of padding, a \<^verbatim>\<open>double\<close> kept as its 64 bits.\<close>

record transaction =
  t_sender :: u8
  t_receiver :: u8
  t_amount :: u64

definition transaction_bytes :: "transaction \<Rightarrow> bytes" where
  "transaction_bytes t = [t_sender t, t_receiver t] @ replicate 6 0 @ le_bytes 8 (t_amount t)"

definition transactions_bytes :: "transaction list \<Rightarrow> bytes" where
  "transactions_bytes ts = concat (map transaction_bytes ts)"

text \<open>The size of the block data \<^verbatim>\<open>T_TYPE\<close>, and its value-initialised instance.\<close>

definition sizeof_T :: nat where
  "sizeof_T = 16 * MAX_TRANSACTIONS"

definition default_T :: bytes where
  "default_T = replicate sizeof_T 0"

type_synonym b_type = "bytes block"

section \<open>Serialised blocks\<close>

record block_data =
  bd_hash_size :: size_t
  bd_prev_hash_size :: size_t
  bd_data_size :: size_t

definition block_data_bytes :: "block_data \<Rightarrow> bytes" where
  "block_data_bytes bd = le_bytes 8 (bd_hash_size bd) @ le_bytes 8 (bd_prev_hash_size bd) @ le_bytes 8 (bd_data_size bd)"

definition DataFromBlock :: "b_type \<Rightarrow> bytes" where
  "DataFromBlock b =
     (let hash = GetHash b; prev_hash = GetPrevHash b;
          bd = \<lparr>bd_hash_size = of_nat (length hash), bd_prev_hash_size = of_nat (length prev_hash),
                bd_data_size = of_nat sizeof_T\<rparr>
      in block_data_bytes bd @ hash @ prev_hash @ GetData b)"

text \<open>No value: one of the strings or the data would lie outside the message.\<close>

definition BlockFromData :: "bytes \<Rightarrow> b_type option" where
  "BlockFromData data =
     Option.bind (read_bytes data 0 24) (\<lambda>bd.
     let hash_size = unat (le_word (take 8 bd) :: size_t); prev_hash_size = unat (le_word (take 8 (drop 8 bd)) :: size_t) in
     Option.bind (read_bytes data 24 hash_size) (\<lambda>hash.
     Option.bind (read_bytes data (24 + hash_size) prev_hash_size) (\<lambda>prev_hash.
     Option.bind (read_bytes data (24 + hash_size + prev_hash_size) sizeof_T) (\<lambda>block_data.
       Some \<lparr>blk_data = block_data, blk_hash = hash, blk_prev_hash = prev_hash\<rparr>))))"

section \<open>Hashes\<close>

definition SHA256FromBlock :: "b_type \<Rightarrow> bytes" where
  "SHA256FromBlock b = sha256 (GetData b @ GetHash b @ GetPrevHash b)"

definition SHA256FromDataAndHash :: "bytes \<Rightarrow> bytes \<Rightarrow> bytes" where
  "SHA256FromDataAndHash data hash = sha256 (data @ hash)"

text \<open>The overload on a block hashes the block's own hash.\<close>

definition SHA256FromDataAndHash_block :: "b_type \<Rightarrow> bytes" where
  "SHA256FromDataAndHash_block b = sha256 (GetData b @ GetHash b)"

section \<open>Properties\<close>

lemma BlockFromData_DataFromBlock:
  assumes "length (GetHash b) < 2 ^ 64" "length (GetPrevHash b) < 2 ^ 64" "length (GetData b) = sizeof_T"
  shows "BlockFromData (DataFromBlock b @ rest) = Some b"
proof -
  have "unat (of_nat (length (GetHash b)) :: size_t) = length (GetHash b)"
    "unat (of_nat (length (GetPrevHash b)) :: size_t) = length (GetPrevHash b)"
    using assms by (simp_all add: unat_of_nat)
  then show ?thesis
    using assms(3) by (cases b) (simp add: BlockFromData_def DataFromBlock_def block_data_bytes_def block_defs read_bytes_def Let_def)
qed

text \<open>
  C26: A serialised block is read back unchanged, whatever follows it in the message: data, hash and previous hash, of any
  sizes.
\<close>

theorem block_serialisation_roundtrip:
  assumes "length (GetHash b) < 2 ^ 64" "length (GetPrevHash b) < 2 ^ 64" "length (GetData b) = sizeof_T"
  shows "BlockFromData (DataFromBlock b @ rest) = Some b"
  by (rule BlockFromData_DataFromBlock [OF assms])

theorem block_serialisation_roundtrip_witness:
  "BlockFromData (DataFromBlock \<lparr>blk_data = default_T, blk_hash = [1, 2], blk_prev_hash = []\<rparr> @ [9])
    = Some \<lparr>blk_data = default_T, blk_hash = [1, 2], blk_prev_hash = []\<rparr>"
  by (rule block_serialisation_roundtrip) (simp_all add: block_defs default_T_def)

text \<open>
  C24: Two valid blockchains of the same length with the same top hash are identical, transaction by transaction, unless
  the two chains themselves contain a pair of blocks, one in each, whose hashed strings (transactions followed by the
  previous hash) differ and have the same SHA-256 digest.
\<close>

theorem equal_blockchains_or_sha256_collision:
  assumes "chain_valid SHA256FromDataAndHash default_T xs" "chain_valid SHA256FromDataAndHash default_T ys"
    "\<forall>b \<in> set xs \<union> set ys. length (blk_data b) = sizeof_T"
    "Size xs = Size ys" "GetTopHash xs = GetTopHash ys"
  shows "xs = ys \<or> (\<exists>a \<in> set xs. \<exists>b \<in> set ys.
    GetData a @ GetPrevHash a \<noteq> GetData b @ GetPrevHash b \<and>
    sha256 (GetData a @ GetPrevHash a) = sha256 (GetData b @ GetPrevHash b))"
proof -
  have "blk_hash (last xs) = blk_hash (last ys)"
    using assms by (auto simp: GetTopHash_def vector_back_def chain_valid_def GetHash_def)
  then consider "xs = ys" | "hash_collision SHA256FromDataAndHash xs ys"
    using linked_same_top [of SHA256FromDataAndHash "[]" xs "[]" ys] assms by (auto simp: chain_valid_def Size_def)
  then show ?thesis
  proof cases
    case 2
    then obtain a b where ab: "a \<in> set xs" "b \<in> set ys"
      "(blk_data a, blk_prev_hash a) \<noteq> (blk_data b, blk_prev_hash b)"
      "sha256 (blk_data a @ blk_prev_hash a) = sha256 (blk_data b @ blk_prev_hash b)"
      by (auto simp: hash_collision_def SHA256FromDataAndHash_def)
    then have "blk_data a @ blk_prev_hash a \<noteq> blk_data b @ blk_prev_hash b"
      using assms(3) by auto
    with ab show ?thesis by (auto simp: GetData_def GetPrevHash_def)
  qed simp
qed

theorem equal_blockchains_or_sha256_collision_witness:
  "\<exists>xs ys. xs = new_blockchain SHA256FromDataAndHash default_T \<lparr>blk_data = [], blk_hash = [], blk_prev_hash = []\<rparr> \<and>
    ys = new_blockchain SHA256FromDataAndHash default_T \<lparr>blk_data = [7], blk_hash = [1], blk_prev_hash = [2]\<rparr> \<and> xs = ys"
proof (intro exI conjI)
  let ?c = "new_blockchain SHA256FromDataAndHash default_T"
  let ?u = "\<lparr>blk_data = [], blk_hash = [], blk_prev_hash = []\<rparr>" and ?v = "\<lparr>blk_data = [7], blk_hash = [1], blk_prev_hash = [2]\<rparr>"
  have "?c ?u = ?c ?v \<or> (\<exists>a \<in> set (?c ?u). \<exists>b \<in> set (?c ?v).
    GetData a @ GetPrevHash a \<noteq> GetData b @ GetPrevHash b \<and>
    sha256 (GetData a @ GetPrevHash a) = sha256 (GetData b @ GetPrevHash b))"
    by (rule equal_blockchains_or_sha256_collision [OF new_blockchain_valid new_blockchain_valid])
       (simp_all add: new_blockchain_def block_defs Let_def default_T_def GetTopHash_def vector_back_def Size_def)
  then show "?c ?u = ?c ?v"
    by (auto simp: new_blockchain_def block_defs Let_def)
qed (rule refl)+

end
