(* ===== verification/Logger.thy ===== *)
theory Logger
  imports Prelude
begin

text \<open>
  The experiment log, \<^verbatim>\<open>application/logger.h\<close> and \<^verbatim>\<open>application/logger.cc\<close>: lines collected in memory and written
  back to a file, first replacing it and later appending. The current time, formatted by the library, is an
  argument of the operations that call \<^verbatim>\<open>get_time\<close>.
\<close>

section \<open>Operations\<close>

record logger =
  lg_first_write :: bool
  lg_log :: "string list"

definition tab :: string where
  "tab = [CHR 0x09]"

text \<open>\<^verbatim>\<open>std::to_string\<close> of an unsigned number.\<close>

fun to_string :: "nat \<Rightarrow> string" where
  "to_string n = (if n < 10 then [char_of (48 + n)] else to_string (n div 10) @ [char_of (48 + n mod 10)])"

declare to_string.simps [simp del]

definition push_line :: "string \<Rightarrow> logger \<Rightarrow> logger" where
  "push_line line lg = lg\<lparr>lg_log := lg_log lg @ [line]\<rparr>"

definition LogStartTime :: "string \<Rightarrow> logger \<Rightarrow> logger" where
  "LogStartTime time lg = push_line (''START_TIME'' @ tab @ time) lg"

definition new_Logger :: "string \<Rightarrow> logger" where
  "new_Logger time = LogStartTime time \<lparr>lg_first_write = True, lg_log = []\<rparr>"

definition LogSendingBlock :: "nat \<Rightarrow> string \<Rightarrow> logger \<Rightarrow> logger" where
  "LogSendingBlock block_id time lg = push_line (''SENDING_BLOCK'' @ tab @ time @ tab @ to_string block_id) lg"

definition LogRequestBlock :: "nat \<Rightarrow> string \<Rightarrow> logger \<Rightarrow> logger" where
  "LogRequestBlock block_id time lg = push_line (''REQUEST_BLOCK'' @ tab @ time @ tab @ to_string block_id) lg"

definition LogReceivedBlock :: "nat \<Rightarrow> bool \<Rightarrow> string \<Rightarrow> logger \<Rightarrow> logger" where
  "LogReceivedBlock block_id success time lg =
     (if success then push_line (''RECEIVED_BLOCK'' @ tab @ time @ tab @ to_string block_id @ tab @ ''SUCCESS'') lg
      else push_line (''RECEIVED_BLOCK'' @ tab @ time @ tab @ to_string block_id @ tab @ ''FAIL'') lg)"

definition LogBlockAddedStart :: "nat \<Rightarrow> string \<Rightarrow> logger \<Rightarrow> logger" where
  "LogBlockAddedStart block_id time lg = push_line (''BLOCK_ADDED_START'' @ tab @ time @ tab @ to_string block_id) lg"

definition LogBlockAddedStop :: "nat \<Rightarrow> bool \<Rightarrow> string \<Rightarrow> logger \<Rightarrow> logger" where
  "LogBlockAddedStop block_id success time lg =
     (if success then push_line (''BLOCK_ADDED_STOP'' @ tab @ time @ tab @ to_string block_id @ tab @ ''SUCCESS'') lg
      else push_line (''BLOCK_ADDED_STOP'' @ tab @ time @ tab @ to_string block_id @ tab @ ''FAIL'') lg)"

text \<open>
  The file is its list of lines. \<open>opened\<close> is whether the stream could be opened: writing to a stream in the failed
  state does nothing.
\<close>

definition WriteBack :: "bool \<Rightarrow> logger \<times> string list \<Rightarrow> logger \<times> string list" where
  "WriteBack opened = (\<lambda>(lg, file).
     let file' = (if lg_first_write lg then [] else file)
     in (lg\<lparr>lg_first_write := False, lg_log := []\<rparr>, if opened then file' @ lg_log lg else file))"

section \<open>What the file holds\<close>

text \<open>All lines logged so far, given the lines the file had when the logger started to write.\<close>

definition lines_logged :: "logger \<times> string list \<Rightarrow> string list" where
  "lines_logged = (\<lambda>(lg, file). if lg_first_write lg then lg_log lg else file @ lg_log lg)"

lemma lines_logged_push: "lines_logged (push_line line lg, file) = lines_logged (lg, file) @ [line]"
  by (simp add: lines_logged_def push_line_def)

lemma lines_logged_WriteBack: "lines_logged (WriteBack True (lg, file)) = lines_logged (lg, file)"
  by (simp add: lines_logged_def WriteBack_def Let_def)

end
