(* ===== verification/HashCash.thy ===== *)
theory HashCash
  imports Sha256
begin

text \<open>
  The proof of work, \<^verbatim>\<open>application/pow/iproofofwork.h\<close>, \<^verbatim>\<open>application/pow/hashcash.h\<close> and
  \<^verbatim>\<open>application/pow/hashcash.cc\<close>: counting leading zero bits, the bitwise combination of two strings, the check
  of a solution and the search for one. The search terminates on every seed the program uses and ends with a
  solution its own check accepts or with the exhausted key.
\<close>

section \<open>Counting zero bits\<close>

definition DIFFICULTY :: nat where
  "DIFFICULTY = 24"

text \<open>
  The loop over the bit indices \<open>j\<close>. \<^verbatim>\<open>mask\<close> and the characters are signed: \<^verbatim>\<open>mask >>= 1\<close> is an arithmetic shift,
  and both operands of \<^verbatim>\<open>&\<close> are promoted with their sign to \<^verbatim>\<open>int\<close>.
\<close>

fun count_loop :: "nat \<Rightarrow> bytes \<Rightarrow> nat list \<Rightarrow> u8 \<Rightarrow> nat \<Rightarrow> bool" where
  "count_loop difficulty hash [] m zeroes = False"
| "count_loop difficulty hash (j # js) m zeroes =
     (let m = (if j mod 8 = 0 then 128 else m)
      in if (scast (hash ! (j div 8)) :: u32) AND scast m = 0
         then (let zeroes = zeroes + 1
               in if zeroes \<ge> difficulty then True
                  else count_loop difficulty hash js (signed_drop_bit 1 m) zeroes)
         else False)"

definition count_zeroes :: "nat \<Rightarrow> bytes \<Rightarrow> bool" where
  "count_zeroes difficulty hash = count_loop difficulty hash [0..<length hash * 8] 0 0"

section \<open>Problems and solutions\<close>

text \<open>
  \<^verbatim>\<open>s2[j]\<close> is the terminating zero character at \<open>j = s2.size()\<close> and undefined behind it (\<open>None\<close>).
\<close>

definition string_at :: "bytes \<Rightarrow> nat \<Rightarrow> u8 option" where
  "string_at s j = (if j < length s then Some (s ! j) else if j = length s then Some 0 else None)"

definition xor_strings :: "bytes \<Rightarrow> bytes \<Rightarrow> bytes option" where
  "xor_strings s1 s2 =
     fold (\<lambda>j acc. Option.bind acc (\<lambda>s. map_option (\<lambda>c. s[j := s ! j XOR c]) (string_at s2 j)))
       [0..<length s1] (Some s1)"

definition CheckSolution :: "nat \<Rightarrow> bytes \<Rightarrow> bytes \<Rightarrow> bool option" where
  "CheckSolution difficulty seed solution =
     map_option (count_zeroes difficulty) (xor_strings (sha256 (seed @ solution)) seed)"

text \<open>Adding one to a key, its first character the least significant.\<close>

fun increment :: "bytes \<Rightarrow> bytes" where
  "increment [] = []"
| "increment (b # bs) = (if b AND 255 = 255 then 0 # increment bs else (b + 1) # bs)"

text \<open>The next key to try; \<open>None\<close> when the search gives up with the key it has.\<close>

definition next_key :: "bytes \<Rightarrow> bytes option" where
  "next_key key =
     (if last key AND 255 = 255
      then if length key = 16 then None else Some (increment (replicate (length key + 1) 0))
      else Some (increment key))"

text \<open>
  The search loop: \<open>None\<close> would be a search that does not end; \<open>Inl ()\<close> is an access outside the seed.
\<close>

partial_function (option) solve_loop :: "nat \<Rightarrow> bytes \<Rightarrow> bytes \<Rightarrow> (unit + bytes) option" where
  "solve_loop difficulty seed key =
     (case next_key key of
        None \<Rightarrow> Some (Inr key)
      | Some key' \<Rightarrow>
          (case xor_strings (sha256 (seed @ key')) seed of
             None \<Rightarrow> Some (Inl ())
           | Some hash \<Rightarrow> if count_zeroes difficulty hash then Some (Inr key') else solve_loop difficulty seed key'))"

definition SolveProblem :: "nat \<Rightarrow> bytes \<Rightarrow> (unit + bytes) option" where
  "SolveProblem difficulty seed = solve_loop difficulty seed [0]"

section \<open>Leading zero bits\<close>

definition byte_bits :: "u8 \<Rightarrow> bool list" where
  "byte_bits b = map (bit b) [7, 6, 5, 4, 3, 2, 1, 0]"

definition string_bits :: "bytes \<Rightarrow> bool list" where
  "string_bits s = concat (map byte_bits s)"

definition leading_zeros :: "bytes \<Rightarrow> nat" where
  "leading_zeros s = length (takeWhile Not (string_bits s))"

lemma length_byte_bits [simp]: "length (byte_bits b) = 8"
  by (simp add: byte_bits_def)

lemma string_bits_simps [simp]:
  "string_bits [] = []" "string_bits (b # s) = byte_bits b @ string_bits s"
  by (simp_all add: string_bits_def)

lemma length_string_bits [simp]: "length (string_bits s) = 8 * length s"
  by (induction s) auto

lemma nth_byte_bits: "j < 8 \<Longrightarrow> byte_bits b ! j = bit b (7 - j)"
proof -
  assume "j < 8"
  then have "j \<in> {0, 1, 2, 3, 4, 5, 6, 7}" by (simp, arith)
  then show ?thesis
    by (elim insertE emptyE) (simp_all add: byte_bits_def)
qed

lemma nth_string_bits: "j < 8 * length s \<Longrightarrow> string_bits s ! j = bit (s ! (j div 8)) (7 - j mod 8)"
  by (induction s arbitrary: j) (auto simp: nth_append nth_byte_bits le_div_geq le_mod_geq)

text \<open>The signed mask holds the current bit and, above it, bits that were found to be zero.\<close>

lemma masked_bit:
  fixes c m :: u8
  assumes "k < 8" "\<forall>i < 8. k < i \<longrightarrow> \<not> bit c i" "\<forall>i. bit m i \<longleftrightarrow> k \<le> i \<and> i < 8"
  shows "(scast c :: u32) AND scast m = 0 \<longleftrightarrow> \<not> bit c k"
proof -
  have bits: "bit ((scast c :: u32) AND scast m) i \<longleftrightarrow> i < 32 \<and> bit c (min i 7) \<and> k \<le> min i 7" for i
    using assms(1,3) by (auto simp: bit_and_iff bit_signed_iff min_def)
  show ?thesis
  proof
    assume "(scast c :: u32) AND scast m = 0"
    then have "\<not> bit ((scast c :: u32) AND scast m) k"
      by simp
    then show "\<not> bit c k"
      using assms(1) unfolding bits by (simp add: min_def)
  next
    assume "\<not> bit c k"
    with assms(2) have "\<not> bit c i" if "k \<le> i" "i < 8" for i
      using that by (cases "i = k") auto
    then show "(scast c :: u32) AND scast m = 0"
      by (intro bit_word_eqI) (auto simp: bits)
  qed
qed

lemma shifted_mask:
  fixes m :: u8
  assumes "0 < k" "k < 8" "\<forall>i. bit m i \<longleftrightarrow> k \<le> i \<and> i < 8"
  shows "\<forall>i. bit (signed_drop_bit 1 m) i \<longleftrightarrow> k - 1 \<le> i \<and> i < 8"
proof
  fix i
  show "bit (signed_drop_bit 1 m) i \<longleftrightarrow> k - 1 \<le> i \<and> i < 8"
    unfolding bit_signed_drop_bit_iff assms(3) [rule_format] using assms(1,2) by auto
qed

lemma first_mask: "bit (128 :: u8) i \<longleftrightarrow> 7 \<le> i \<and> i < 8"
proof -
  have "(128 :: u8) = push_bit 7 1" by simp
  then show ?thesis
    unfolding \<open>(128 :: u8) = push_bit 7 1\<close> by (auto simp: bit_push_bit_iff simp del: push_bit_of_1)
qed

lemma le_length_takeWhile: "k \<le> length (takeWhile P xs) \<longleftrightarrow> k \<le> length xs \<and> (\<forall>i < k. P (xs ! i))"
proof (induction xs arbitrary: k)
  case (Cons x xs)
  show ?case
    by (cases k) (auto simp: Cons less_Suc_eq_0_disj)
qed auto

lemma count_loop_spec:
  fixes hash :: bytes
  defines "bits \<equiv> string_bits hash"
  assumes "j \<le> 8 * length hash" "\<forall>i < j. \<not> bits ! i" "j < max 1 difficulty"
    "j mod 8 \<noteq> 0 \<Longrightarrow> \<forall>i. bit m i \<longleftrightarrow> 7 - j mod 8 \<le> i \<and> i < 8"
  shows "count_loop difficulty hash [j..<8 * length hash] m j \<longleftrightarrow>
    max 1 difficulty \<le> 8 * length hash \<and> (\<forall>i < max 1 difficulty. \<not> bits ! i)"
  using assms(2-5)
proof (induction "8 * length hash - j" arbitrary: j m)
  case 0
  then show ?case by auto
next
  case (Suc n)
  then have j: "j < 8 * length hash" by simp
  define m' :: u8 where "m' = (if j mod 8 = 0 then 128 else m)"
  have m': "\<forall>i. bit m' i \<longleftrightarrow> 7 - j mod 8 \<le> i \<and> i < 8"
    using Suc.prems(4) first_mask by (auto simp: m'_def)
  have above: "\<forall>i < 8. 7 - j mod 8 < i \<longrightarrow> \<not> bit (hash ! (j div 8)) i"
  proof (intro allI impI)
    fix i :: nat
    assume i: "i < 8" "7 - j mod 8 < i"
    obtain l where l: "i = 7 - l" "l < 8" "l < j mod 8"
      using i by (intro that [of "7 - i"]) auto
    let ?k = "8 * (j div 8) + l"
    have "?k < j"
      using l mult_div_mod_eq [of 8 j] by linarith
    then have "\<not> bits ! ?k"
      using Suc.prems(2) by blast
    moreover have "?k div 8 = j div 8" "?k mod 8 = l"
      using l by simp_all
    ultimately show "\<not> bit (hash ! (j div 8)) i"
      using \<open>?k < j\<close> j l(1) by (simp add: bits_def nth_string_bits)
  qed
  have test: "(scast (hash ! (j div 8)) :: u32) AND scast m' = 0 \<longleftrightarrow> \<not> bits ! j"
    using masked_bit [OF _ above m'] j by (simp add: bits_def nth_string_bits)
  have step: "count_loop difficulty hash [j..<8 * length hash] m j
      = (\<not> bits ! j \<and> (j + 1 \<ge> difficulty \<or>
          count_loop difficulty hash [Suc j..<8 * length hash] (signed_drop_bit 1 m') (Suc j)))"
    using j test by (simp add: upt_conv_Cons Let_def m'_def [symmetric])
  show ?case
  proof (cases "\<not> bits ! j \<and> Suc j < max 1 difficulty")
    case True
    have next_m: "\<forall>i. bit (signed_drop_bit 1 m') i \<longleftrightarrow> 7 - Suc j mod 8 \<le> i \<and> i < 8" if "Suc j mod 8 \<noteq> 0"
    proof -
      have "Suc j mod 8 = Suc (j mod 8)"
        using that by (simp add: mod_Suc split: if_splits)
      then have "0 < 7 - j mod 8" "7 - Suc j mod 8 = 7 - j mod 8 - 1"
        using that by auto
      then show ?thesis
        using shifted_mask [OF _ _ m'] by simp
    qed
    have "n = 8 * length hash - Suc j"
      using Suc.hyps(2) by simp
    from Suc.hyps(1) [OF this _ _ _ next_m] True j Suc.prems(2) show ?thesis
      unfolding step by (auto simp: less_Suc_eq)
  next
    case False
    show ?thesis
    proof (cases "bits ! j")
      case True
      then show ?thesis
        unfolding step using Suc.prems(3) by auto
    next
      case new: False
      with False Suc.prems(3) have d: "max 1 difficulty = Suc j"
        by simp
      moreover have "difficulty \<le> j + 1"
        using d by simp
      ultimately show ?thesis
        unfolding step d using new j Suc.prems(2) by (auto simp: less_Suc_eq)
    qed
  qed
qed

lemma count_zeroes_iff: "count_zeroes difficulty hash \<longleftrightarrow> max 1 difficulty \<le> leading_zeros hash"
  using count_loop_spec [of 0 hash difficulty 0]
  by (simp add: count_zeroes_def leading_zeros_def le_length_takeWhile mult.commute)

section \<open>Combining strings\<close>

lemma xor_strings_fold:
  assumes "k \<le> length s1" "k \<le> Suc (length s2)"
  shows "fold (\<lambda>j acc. Option.bind acc (\<lambda>s. map_option (\<lambda>c. s[j := s ! j XOR c]) (string_at s2 j))) [0..<k] (Some s1)
    = Some (map2 (\<lambda>a b. a XOR b) (take k s1) (take k (s2 @ [0])) @ drop k s1)"
  using assms
proof (induction k)
  case 0
  then show ?case by simp
next
  case (Suc k)
  then have IH: "fold (\<lambda>j acc. Option.bind acc (\<lambda>s. map_option (\<lambda>c. s[j := s ! j XOR c]) (string_at s2 j))) [0..<k] (Some s1)
      = Some (map2 (\<lambda>a b. a XOR b) (take k s1) (take k (s2 @ [0])) @ drop k s1)"
    by simp
  let ?p = "map2 (\<lambda>a b. a XOR b) (take k s1) (take k (s2 @ [0]))"
  have c: "string_at s2 k = Some ((s2 @ [0]) ! k)"
    using Suc.prems by (auto simp: string_at_def nth_append)
  have len: "length ?p = k"
    using Suc.prems by simp
  have d: "drop k s1 = s1 ! k # drop (Suc k) s1"
    using Suc.prems by (simp add: Cons_nth_drop_Suc)
  have t: "take (Suc k) s1 = take k s1 @ [s1 ! k]" "take (Suc k) (s2 @ [0]) = take k (s2 @ [0]) @ [(s2 @ [0]) ! k]"
    using Suc.prems by (simp_all add: take_Suc_conv_app_nth del: take_append)
  have "(?p @ drop k s1)[k := (?p @ drop k s1) ! k XOR (s2 @ [0]) ! k]
      = ?p @ (s1 ! k XOR (s2 @ [0]) ! k) # drop (Suc k) s1"
    unfolding d using len by (simp add: list_update_append nth_append del: length_map)
  also have "\<dots> = map2 (\<lambda>a b. a XOR b) (take (Suc k) s1) (take (Suc k) (s2 @ [0])) @ drop (Suc k) s1"
    unfolding t using Suc.prems by (simp del: take_append)
  finally show ?case
    by (simp add: IH c del: take_append)
qed

lemma xor_strings_eq:
  assumes "length s1 \<le> Suc (length s2)"
  shows "xor_strings s1 s2 = Some (map2 (\<lambda>a b. a XOR b) s1 (s2 @ [0]))"
proof -
  have "map2 (\<lambda>a b. a XOR b) s1 (take (length s1) (s2 @ [0])) = map2 (\<lambda>a b. a XOR b) s1 (s2 @ [0])"
    by (rule nth_equalityI) (use assms in \<open>auto simp: nth_append\<close>)
  then show ?thesis
    using xor_strings_fold [of "length s1" s1 s2] assms by (simp add: xor_strings_def del: take_append)
qed

section \<open>The search\<close>

text \<open>Keys as numbers, the first character the least significant.\<close>

fun key_value :: "bytes \<Rightarrow> nat" where
  "key_value [] = 0"
| "key_value (b # bs) = unat b + 256 * key_value bs"

lemma and_255: "(b :: u8) AND 255 = b"
proof -
  have "(255 :: u8) = - 1" by simp
  then show ?thesis by (metis and.right_neutral)
qed

lemma length_increment [simp]: "length (increment k) = length k"
  by (induction k) auto

lemma key_value_less: "key_value k < 256 ^ length k"
proof (induction k)
  case (Cons b k)
  have "unat b < 256"
    by (rule less_le_trans [OF unsigned_less]) simp
  with Cons show ?case by simp
qed simp

lemma key_value_increment: "\<exists>b \<in> set k. b \<noteq> 255 \<Longrightarrow> key_value (increment k) = Suc (key_value k)"
proof (induction k)
  case (Cons b k)
  show ?case
  proof (cases "b = 255")
    case True
    then show ?thesis using Cons by (simp add: and_255)
  next
    case False
    have "unat b \<noteq> 255"
    proof
      assume "unat b = 255"
      then have "b = 255" by (simp add: word_unat_eq_iff)
      with False show False ..
    qed
    moreover have "unat b < 256"
      by (rule less_le_trans [OF unsigned_less]) simp
    ultimately have "unat (b + 1) = Suc (unat b)"
      by (simp add: unat_word_ariths)
    with False show ?thesis by (simp add: and_255)
  qed
qed simp

text \<open>The search measure: the sizes still to come, then the keys of the present size still to come.\<close>

definition key_rank :: "bytes \<Rightarrow> nat \<times> nat" where
  "key_rank k = (16 - length k, 256 ^ length k - key_value k)"

lemma next_key_rank:
  assumes "next_key k = Some k'" "0 < length k" "length k \<le> 16"
  shows "(key_rank k', key_rank k) \<in> less_than <*lex*> less_than" "0 < length k'" "length k' \<le> 16"
proof -
  have "(key_rank k', key_rank k) \<in> less_than <*lex*> less_than \<and> 0 < length k' \<and> length k' \<le> 16"
  proof (cases "last k = 255")
    case True
    then show ?thesis
      using assms by (auto simp: next_key_def and_255 key_rank_def split: if_splits)
  next
    case False
    then have k': "k' = increment k"
      using assms(1) by (simp add: next_key_def and_255)
    have "\<exists>b \<in> set k. b \<noteq> 255"
      using False assms(2) last_in_set [of k] by auto
    then show ?thesis
      using assms(2,3) key_value_increment [of k] key_value_less [of k] by (auto simp: k' key_rank_def)
  qed
  then show "(key_rank k', key_rank k) \<in> less_than <*lex*> less_than" "0 < length k'" "length k' \<le> 16"
    by blast+
qed

lemma CheckSolution_total:
  "63 \<le> length seed \<Longrightarrow> CheckSolution difficulty seed key =
    Some (count_zeroes difficulty (map2 (\<lambda>a b. a XOR b) (sha256 (seed @ key)) (seed @ [0])))"
  by (simp add: CheckSolution_def xor_strings_eq)

lemma solve_loop_result:
  assumes "63 \<le> length seed" "0 < length key" "length key \<le> 16"
  shows "\<exists>key'. solve_loop difficulty seed key = Some (Inr key') \<and> 0 < length key' \<and> length key' \<le> 16 \<and>
    (CheckSolution difficulty seed key' = Some True \<or> next_key key' = None)"
  using assms(2,3)
proof (induction "key_rank key" arbitrary: key rule: wf_induct_rule [OF wf_lex_prod [OF wf_less_than wf_less_than]])
  case 1
  show ?case
  proof (cases "next_key key")
    case None
    then show ?thesis
      using 1(2,3) by (subst solve_loop.simps) auto
  next
    case (Some k')
    note rank = next_key_rank [OF Some 1(2,3)]
    let ?hash = "map2 (\<lambda>a b. a XOR b) (sha256 (seed @ k')) (seed @ [0])"
    have hash: "xor_strings (sha256 (seed @ k')) seed = Some ?hash"
      using assms(1) by (simp add: xor_strings_eq)
    show ?thesis
    proof (cases "count_zeroes difficulty ?hash")
      case True
      then show ?thesis
        using rank(2,3) by (subst solve_loop.simps) (simp add: Some hash CheckSolution_total [OF assms(1)])
    next
      case False
      then have "solve_loop difficulty seed key = solve_loop difficulty seed k'"
        by (subst solve_loop.simps) (simp add: Some hash)
      with 1(1) [OF rank(1) rank(2,3)] show ?thesis
        by simp
    qed
  qed
qed

lemma leading_zero_bytes: "8 * k \<le> leading_zeros s \<longleftrightarrow> k \<le> length s \<and> (\<forall>i < k. s ! i = 0)"
proof -
  have "(\<forall>j < 8 * k. \<not> string_bits s ! j) \<longleftrightarrow> (\<forall>i < k. s ! i = 0)" if "k \<le> length s"
  proof
    assume bits: "\<forall>j < 8 * k. \<not> string_bits s ! j"
    show "\<forall>i < k. s ! i = 0"
    proof (intro allI impI)
      fix i
      assume i: "i < k"
      have "\<not> bit (s ! i) m" if "m < 8" for m
      proof -
        from that have "m = 7 - (7 - m) \<and> 7 - m < 8"
          by simp
        then obtain l where l: "m = 7 - l" "l < 8"
          by blast
        have "\<not> string_bits s ! (8 * i + l)"
          using bits i l by simp
        then show ?thesis
          using i l \<open>k \<le> length s\<close> by (simp add: nth_string_bits)
      qed
      then show "s ! i = 0"
        by (intro bit_word_eqI) auto
    qed
  next
    assume "\<forall>i < k. s ! i = 0"
    then show "\<forall>j < 8 * k. \<not> string_bits s ! j"
      using that by (simp add: nth_string_bits less_mult_imp_div_less mult.commute)
  qed
  then show ?thesis
    by (auto simp: leading_zeros_def le_length_takeWhile)
qed

lemma CheckSolution_prefix:
  assumes "64 \<le> length seed" "0 < k" "k \<le> 64"
  shows "CheckSolution (8 * k) seed key = Some (take k (sha256 (seed @ key)) = take k seed)"
proof -
  let ?h = "map2 (\<lambda>a b. a XOR b) (sha256 (seed @ key)) (seed @ [0])"
  have "count_zeroes (8 * k) ?h \<longleftrightarrow> (\<forall>i < k. ?h ! i = 0)"
    using assms by (simp add: count_zeroes_iff leading_zero_bytes max_def)
  also have "\<dots> \<longleftrightarrow> (\<forall>i < k. sha256 (seed @ key) ! i = seed ! i)"
    using assms by (simp add: xor_eq_0_iff_word nth_append cong: conj_cong imp_cong)
  also have "\<dots> \<longleftrightarrow> take k (sha256 (seed @ key)) = take k seed"
    using assms by (auto simp: list_eq_iff_nth_eq)
  finally show ?thesis
    using assms(1) by (simp add: CheckSolution_total)
qed

section \<open>Properties\<close>

text \<open>
  C27: The search for a solution ends, for every difficulty and every seed of at least 63 characters, without reading outside the
  seed, and returns a key of 1 to 16 characters that the check accepts, or the last key of the search space, 16 characters
  ending in 255.
\<close>

theorem SolveProblem_returns_solution:
  assumes "63 \<le> length seed"
  shows "\<exists>key. SolveProblem difficulty seed = Some (Inr key) \<and> 0 < length key \<and> length key \<le> 16 \<and>
    (CheckSolution difficulty seed key = Some True \<or> length key = 16 \<and> last key = 255)"
proof -
  obtain key where "SolveProblem difficulty seed = Some (Inr key)" "0 < length key" "length key \<le> 16"
    "CheckSolution difficulty seed key = Some True \<or> next_key key = None"
    unfolding SolveProblem_def using solve_loop_result [OF assms, of "[0]" difficulty] by auto
  moreover have "length k = 16 \<and> last k = 255" if "next_key k = None" for k
    using that by (auto simp: next_key_def and_255 split: if_splits)
  ultimately show ?thesis by blast
qed

theorem SolveProblem_returns_solution_witness:
  "\<exists>key. SolveProblem DIFFICULTY (sha256 [1]) = Some (Inr key) \<and> 0 < length key \<and> length key \<le> 16 \<and>
    (CheckSolution DIFFICULTY (sha256 [1]) key = Some True \<or> length key = 16 \<and> last key = 255)"
  by (rule SolveProblem_returns_solution) simp

text \<open>
  On a seed that is itself a digest in hexadecimal, the configured difficulty of 24 zero bits asks for no more than that three
  hexadecimal digits of the new digest equal those of the seed: 12 bits of work, since both strings are combined character
  by character before the zero bits are counted.
\<close>

lemma difficulty_is_three_hex_digits:
  "CheckSolution DIFFICULTY (sha256 block) key = Some True \<longleftrightarrow>
    take 3 (sha256 (sha256 block @ key)) = take 3 (sha256 block)"
  using CheckSolution_prefix [of "sha256 block" 3 key] by (simp add: DIFFICULTY_def)

end
