(* ===== verification/Loops.thy ===== *)
theory Loops
  imports Prelude
begin

text \<open>
  Computations that can stop, and loops that the code does not bound. A computation is an error or a result, and
  \<open>attempt\<close> sequences two of them. \<open>repeat_body\<close> is a \<^verbatim>\<open>while\<close> loop with fuel: the body gives an error, a
  final result or the next values of the loop's variables. The locale \<open>loop_invariant\<close> is the rule for partial
  correctness of such a loop; \<open>loop_variant\<close> adds a measure, and with it the fuel that is enough.
\<close>

section \<open>Computations that can stop\<close>

datatype stop =
    Exits
  | Undefined
  | Out_of_fuel

definition attempt :: "'e + 'a \<Rightarrow> ('a \<Rightarrow> 'e + 'b) \<Rightarrow> 'e + 'b" where
  "attempt m f = (case m of Inl err \<Rightarrow> Inl err | Inr x \<Rightarrow> f x)"

definition from_option :: "'e \<Rightarrow> 'a option \<Rightarrow> 'e + 'a" where
  "from_option err m = (case m of None \<Rightarrow> Inl err | Some x \<Rightarrow> Inr x)"

lemma attempt_simps [simp]: "attempt (Inl err) f = Inl err" "attempt (Inr x) f = f x"
  by (simp_all add: attempt_def)

lemma from_option_simps [simp]: "from_option err None = Inl err" "from_option err (Some x) = Inr x"
  by (simp_all add: from_option_def)

lemma attempt_eq_Inr: "attempt m f = Inr y \<longleftrightarrow> (\<exists>x. m = Inr x \<and> f x = Inr y)"
  by (cases m) auto

lemma attempt_eq_Inl: "attempt m f = Inl err \<longleftrightarrow> m = Inl err \<or> (\<exists>x. m = Inr x \<and> f x = Inl err)"
  by (cases m) auto

lemma attempt_cong: "m = m' \<Longrightarrow> (\<And>x. m' = Inr x \<Longrightarrow> f x = g x) \<Longrightarrow> attempt m f = attempt m' g"
  by (cases m') auto

lemma from_option_eq_Inr: "from_option err m = Inr x \<longleftrightarrow> m = Some x"
  by (cases m) auto

lemma from_option_eq_Inl: "from_option err m = Inl err' \<longleftrightarrow> m = None \<and> err = err'"
  by (cases m) auto

lemmas attempt_convs = attempt_eq_Inr attempt_eq_Inl from_option_eq_Inr from_option_eq_Inl

section \<open>Loops with fuel\<close>

primrec repeat_body :: "nat \<Rightarrow> ('x \<Rightarrow> stop + ('r + 'x)) \<Rightarrow> 'x \<Rightarrow> stop + 'r" where
  "repeat_body 0 body x = Inl Out_of_fuel"
| "repeat_body (Suc n) body x =
     attempt (body x) (\<lambda>out. case out of Inl r \<Rightarrow> Inr r | Inr x' \<Rightarrow> repeat_body n body x')"

lemma repeat_body_mono:
  "repeat_body n body x = Inr r \<Longrightarrow> n \<le> m \<Longrightarrow> repeat_body m body x = Inr r"
proof (induction n arbitrary: m x)
  case (Suc n)
  then obtain m' where "m = Suc m'" "n \<le> m'"
    by (cases m) auto
  with Suc show ?case
    by (auto simp: attempt_eq_Inr split: sum.splits)
qed simp

locale loop_invariant =
  fixes body :: "'x \<Rightarrow> stop + ('r + 'x)"
    and inv :: "'x \<Rightarrow> bool"
    and post :: "'r \<Rightarrow> bool"
  assumes body_inv: "inv x \<Longrightarrow> body x = Inr (Inr x') \<Longrightarrow> inv x'"
    and body_post: "inv x \<Longrightarrow> body x = Inr (Inl r) \<Longrightarrow> post r"
begin

lemma repeat_post: "inv x \<Longrightarrow> repeat_body n body x = Inr r \<Longrightarrow> post r"
proof (induction n arbitrary: x)
  case (Suc n)
  from Suc.prems(2) obtain out where "body x = Inr out"
    "(case out of Inl r' \<Rightarrow> Inr r' | Inr x' \<Rightarrow> repeat_body n body x') = Inr r"
    by (auto simp: attempt_eq_Inr)
  with Suc.prems(1) Suc.IH body_inv body_post show ?case
    by (cases out) auto
qed simp

end

locale loop_variant = loop_invariant body inv post
  for body :: "'x \<Rightarrow> stop + ('r + 'x)" and inv post +
  fixes rank :: "'x \<Rightarrow> nat"
  assumes body_rank: "inv x \<Longrightarrow> body x = Inr (Inr x') \<Longrightarrow> rank x' < rank x"
    and body_fuel: "inv x \<Longrightarrow> body x \<noteq> Inl Out_of_fuel"
begin

lemma repeat_enough_fuel: "inv x \<Longrightarrow> rank x < n \<Longrightarrow> repeat_body n body x \<noteq> Inl Out_of_fuel"
proof (induction n arbitrary: x)
  case (Suc n)
  show ?case
  proof (cases "body x")
    case (Inl err)
    with body_fuel [OF Suc.prems(1)] show ?thesis by simp
  next
    case (Inr out)
    show ?thesis
    proof (cases out)
      case (Inr x')
      with \<open>body x = Inr out\<close> have step: "body x = Inr (Inr x')" by simp
      have "rank x' < n"
        using body_rank [OF Suc.prems(1) step] Suc.prems(2) by simp
      with Suc.IH [OF body_inv [OF Suc.prems(1) step]] step show ?thesis by simp
    qed (simp add: \<open>body x = Inr out\<close>)
  qed
qed simp

end

end
