(* ===== verification/AppState.thy ===== *)
theory AppState
  imports Wire Peer Logger HashCash Loops "HOL-Library.List_Lexorder"
begin

text \<open>
  The state of \<^verbatim>\<open>class Application\<close> (\<^verbatim>\<open>application/application.h\<close>) and what its operations share: the world
  around the main thread, the locked mailbox of \<^verbatim>\<open>application/lock_vector.h\<close>, the log, sending, and the thread that fills
  the mailbox.
\<close>

section \<open>State\<close>

text \<open>A received message: the bytes \<^verbatim>\<open>void*\<close> points to, and their number.\<close>

type_synonym message = "bytes \<times> size_t"

text \<open>
  The members of \<^verbatim>\<open>Application\<close> that change. A candidate is a block with the number of its allocation, since the
  code compares pointers to blocks; \<open>a_next\<close> is the next such number. \<open>a_file\<close> is the log file, \<open>a_sent\<close> all datagrams
  sent so far, and \<open>a_clock\<close> counts the interactions with the world.
\<close>

record app =
  a_bc :: "bytes chain"
  a_inbox :: "message list"
  a_transactions :: "bytes list"
  a_candidates :: "(nat \<times> b_type) list"
  a_peer :: peer
  a_log :: logger
  a_file :: "string list"
  a_sent :: datagrams
  a_next :: nat
  a_clock :: nat

text \<open>
  One interaction: what the mailbox thread has put into the mailbox and what the threads have made of the peer
  structure since the last one, the answers of the system to a send, the return codes of the mutex, the time and whether
  the log file can be opened. A world gives the interactions of a run in order.
\<close>

record tick =
  tk_arrivals :: "message list"
  tk_peer :: "peer \<Rightarrow> peer"
  tk_env :: peer_env
  tk_lock :: int
  tk_unlock :: int
  tk_now :: string
  tk_opened :: bool

type_synonym world = "nat \<Rightarrow> tick"

definition sync :: "world \<Rightarrow> app \<Rightarrow> app" where
  "sync w s = (let t = w (a_clock s) in
     s\<lparr>a_inbox := a_inbox s @ tk_arrivals t, a_peer := tk_peer t (a_peer s), a_clock := a_clock s + 1\<rparr>)"

section \<open>The mailbox\<close>

text \<open>
  The constructor, \<^verbatim>\<open>Lock\<close> and \<^verbatim>\<open>Unlock\<close> of a locked vector, given the return codes of the mutex. Every access of the
  main thread to the vector below lies between a \<^verbatim>\<open>Lock\<close> and an \<^verbatim>\<open>Unlock\<close>, so it is one interaction with the mailbox thread.
\<close>

definition new_LockVector :: "int \<Rightarrow> stop + 'a list" where
  "new_LockVector mutex_init = (if mutex_init \<noteq> 0 then Inl Exits else Inr [])"

definition Lock :: "tick \<Rightarrow> stop + bool" where
  "Lock t = (if tk_lock t = 0 then Inr True else Inl Exits)"

definition Unlock :: "tick \<Rightarrow> stop + bool" where
  "Unlock t = (if tk_unlock t \<noteq> 0 then Inl Exits else Inr True)"

text \<open>The first message, taken out of the mailbox under its lock, or nothing when it is empty.\<close>

definition take_message :: "world \<Rightarrow> app \<Rightarrow> stop + (message option \<times> app)" where
  "take_message w s =
     (let t = w (a_clock s); s = sync w s in
      attempt (Lock t) (\<lambda>_.
      case a_inbox s of
        item # inbox \<Rightarrow> attempt (Unlock t) (\<lambda>_. Inr (Some item, s\<lparr>a_inbox := inbox\<rparr>))
      | [] \<Rightarrow> attempt (Unlock t) (\<lambda>_. Inr (None, s))))"

definition push_message :: "world \<Rightarrow> message \<Rightarrow> app \<Rightarrow> stop + app" where
  "push_message w item s =
     (let t = w (a_clock s); s = sync w s in
      attempt (Lock t) (\<lambda>_.
      let s = s\<lparr>a_inbox := a_inbox s @ [item]\<rparr> in
      attempt (Unlock t) (\<lambda>_. Inr s)))"

text \<open>The caller's vector is cleared, and never used again.\<close>

definition place_back :: "world \<Rightarrow> message list \<Rightarrow> app \<Rightarrow> stop + app" where
  "place_back w messages s =
     (let t = w (a_clock s); s = sync w s in
      attempt (Lock t) (\<lambda>_.
      let s = s\<lparr>a_inbox := fold (\<lambda>it inbox. inbox @ [it]) messages (a_inbox s)\<rparr> in
      attempt (Unlock t) (\<lambda>_. Inr s)))"

section \<open>Log and network\<close>

text \<open>A log entry uses one interaction, of which it takes the time.\<close>

definition log_entry :: "world \<Rightarrow> (string \<Rightarrow> logger \<Rightarrow> logger) \<Rightarrow> app \<Rightarrow> app" where
  "log_entry w entry s = (let t = w (a_clock s); s = sync w s in s\<lparr>a_log := entry (tk_now t) (a_log s)\<rparr>)"

definition log_write_back :: "world \<Rightarrow> app \<Rightarrow> app" where
  "log_write_back w s = (let t = w (a_clock s); s = sync w s; (lg, file) = WriteBack (tk_opened t) (a_log s, a_file s)
     in s\<lparr>a_log := lg, a_file := file\<rparr>)"

definition app_broadcast :: "world \<Rightarrow> bytes \<Rightarrow> app \<Rightarrow> stop + (nat \<times> app)" where
  "app_broadcast w data s =
     (let t = w (a_clock s); s = sync w s in
      attempt (from_option Exits (broadcast (tk_env t) (a_peer s) data)) (\<lambda>(n_peers, p, out).
        Inr (n_peers, s\<lparr>a_peer := p, a_sent := a_sent s @ out\<rparr>)))"

definition app_respond :: "world \<Rightarrow> bytes \<Rightarrow> peer_address \<Rightarrow> app \<Rightarrow> stop + app" where
  "app_respond w data pa s =
     (let t = w (a_clock s); s = sync w s in
      attempt (from_option Exits (respond (tk_env t) (a_peer s) data pa)) (\<lambda>(p, out).
        Inr (s\<lparr>a_peer := p, a_sent := a_sent s @ out\<rparr>)))"

text \<open>The size of the chain as the code compares it with indices of messages.\<close>

definition chain_size :: "app \<Rightarrow> size_t" where
  "chain_size s = of_nat (Size (a_bc s))"

text \<open>The storage of a block before its constructor runs; \<open>Block_eq\<close> shows that it does not matter.\<close>

definition raw_block :: b_type where
  "raw_block = \<lparr>blk_data = [], blk_hash = [], blk_prev_hash = []\<rparr>"

definition add_block :: "bytes \<Rightarrow> app \<Rightarrow> stop + app" where
  "add_block data s =
     attempt (from_option Undefined (AddBlock SHA256FromDataAndHash data raw_block (a_bc s))) (\<lambda>bc. Inr (s\<lparr>a_bc := bc\<rparr>))"

definition client_found :: "peer_address \<Rightarrow> peer_address list \<Rightarrow> bool" where
  "client_found clnt_pa clients_seen = list_ex (\<lambda>it. cmp_peer_address clnt_pa it) clients_seen"

section \<open>The mailbox thread\<close>

text \<open>
  One iteration of \<^verbatim>\<open>inbox_thread\<close>; \<open>msg\<close>, \<open>msg_len\<close> and \<open>clntaddr\<close> are the variables that live across
  iterations.
\<close>

definition inbox_thread_step ::
  "peer_env \<Rightarrow> tick \<Rightarrow> bytes \<Rightarrow> ((bytes option \<times> size_t) \<times> sockaddr_in) \<times> peer \<times> message list \<Rightarrow>
     stop + ((bytes option \<times> size_t) \<times> sockaddr_in) \<times> peer \<times> message list" where
  "inbox_thread_step env t uninit = (\<lambda>((out, clntaddr), p, inbox).
     attempt (from_option Exits (receive env p clntaddr uninit out)) (\<lambda>(out, clntaddr, p).
     case out of
       (Some msg, msg_len) \<Rightarrow>
         attempt (Lock t) (\<lambda>_. let inbox = inbox @ [(msg, msg_len)] in
         attempt (Unlock t) (\<lambda>_. Inr ((out, clntaddr), p, inbox)))
     | (None, msg_len) \<Rightarrow> Inr ((out, clntaddr), p, inbox)))"

section \<open>Facts about the shared operations\<close>

lemma client_found_iff: "client_found pa seen \<longleftrightarrow> pa \<in> set seen"
  by (auto simp: client_found_def list_ex_iff)

lemma fold_snoc: "fold (\<lambda>it xs. xs @ [it]) ys xs = xs @ ys"
  by (induction ys arbitrary: xs) auto

lemmas app_steps = take_message_def push_message_def place_back_def app_broadcast_def app_respond_def Lock_def Unlock_def
  sync_def Let_def

lemma sync_simps [simp]:
  "a_bc (sync w s) = a_bc s" "a_transactions (sync w s) = a_transactions s" "a_candidates (sync w s) = a_candidates s"
  "a_log (sync w s) = a_log s" "a_file (sync w s) = a_file s" "a_sent (sync w s) = a_sent s" "a_next (sync w s) = a_next s"
  "a_clock (sync w s) = a_clock s + 1" "a_inbox (sync w s) = a_inbox s @ tk_arrivals (w (a_clock s))"
  "a_peer (sync w s) = tk_peer (w (a_clock s)) (a_peer s)"
  by (simp_all add: sync_def Let_def)

text \<open>The members that only the main thread changes, and that most operations leave alone.\<close>

definition core :: "app \<Rightarrow> bytes chain \<times> bytes list \<times> (nat \<times> b_type) list \<times> nat" where
  "core s = (a_bc s, a_transactions s, a_candidates s, a_next s)"

lemma core_sync [simp]: "core (sync w s) = core s"
  by (simp add: core_def)

lemma core_update [simp]:
  "core (s\<lparr>a_inbox := x\<rparr>) = core s" "core (s\<lparr>a_peer := p\<rparr>) = core s" "core (s\<lparr>a_sent := out\<rparr>) = core s"
  "core (s\<lparr>a_log := lg\<rparr>) = core s" "core (s\<lparr>a_file := f\<rparr>) = core s"
  by (simp_all add: core_def)

lemma core_log_entry [simp]: "core (log_entry w e s) = core s"
  by (simp add: log_entry_def Let_def)

lemma core_log_write_back [simp]: "core (log_write_back w s) = core s"
  by (simp add: log_write_back_def Let_def split: prod.split)

lemma core_take_message: "take_message w s = Inr (m, s') \<Longrightarrow> core s' = core s"
  by (auto simp: take_message_def Let_def attempt_eq_Inr Lock_def Unlock_def split: list.splits if_splits)

lemma core_push_message: "push_message w m s = Inr s' \<Longrightarrow> core s' = core s"
  by (auto simp: push_message_def Let_def attempt_eq_Inr)

lemma core_place_back: "place_back w ms s = Inr s' \<Longrightarrow> core s' = core s"
  by (auto simp: place_back_def Let_def attempt_eq_Inr)

lemma core_app_broadcast: "app_broadcast w data s = Inr (n, s') \<Longrightarrow> core s' = core s"
  by (auto simp: app_broadcast_def Let_def attempt_eq_Inr split: prod.splits)

lemma core_app_respond: "app_respond w data pa s = Inr s' \<Longrightarrow> core s' = core s"
  by (auto simp: app_respond_def Let_def attempt_eq_Inr split: prod.splits)

lemmas core_steps = core_take_message core_push_message core_place_back core_app_broadcast core_app_respond

text \<open>What is still to come: the mailbox and the arrivals before interaction \<open>T\<close>.\<close>

definition pending :: "world \<Rightarrow> nat \<Rightarrow> app \<Rightarrow> nat" where
  "pending w T s = length (a_inbox s) + (\<Sum>t = a_clock s..<T. length (tk_arrivals (w t)))"

definition quiet_after :: "nat \<Rightarrow> world \<Rightarrow> bool" where
  "quiet_after T w \<longleftrightarrow> (\<forall>t \<ge> T. tk_arrivals (w t) = [])"

lemma pending_sync [simp]: "quiet_after T w \<Longrightarrow> pending w T (sync w s) = pending w T s"
proof (cases "a_clock s < T")
  case True
  then show ?thesis by (simp add: pending_def sum.atLeast_Suc_lessThan)
next
  case False
  assume "quiet_after T w"
  with False show ?thesis by (simp add: pending_def quiet_after_def)
qed

lemma pending_update [simp]:
  "pending w T (s\<lparr>a_peer := p\<rparr>) = pending w T s" "pending w T (s\<lparr>a_sent := out\<rparr>) = pending w T s"
  "pending w T (s\<lparr>a_log := lg\<rparr>) = pending w T s" "pending w T (s\<lparr>a_file := f\<rparr>) = pending w T s"
  by (simp_all add: pending_def)

lemma pending_log_entry [simp]: "quiet_after T w \<Longrightarrow> pending w T (log_entry w e s) = pending w T s"
  by (simp add: log_entry_def Let_def)

lemma pending_app_respond: "quiet_after T w \<Longrightarrow> app_respond w data pa s = Inr s' \<Longrightarrow> pending w T s' = pending w T s"
  by (auto simp: app_respond_def Let_def attempt_eq_Inr split: prod.splits)

lemma pending_app_broadcast:
  "quiet_after T w \<Longrightarrow> app_broadcast w data s = Inr (n, s') \<Longrightarrow> pending w T s' = pending w T s"
  by (auto simp: app_broadcast_def Let_def attempt_eq_Inr split: prod.splits)

lemma pending_take_message:
  assumes "quiet_after T w" "take_message w s = Inr (m, s')"
  shows "pending w T s' + (if m = None then 0 else 1) = pending w T s"
proof -
  have "pending w T (sync w s) = pending w T s"
    using assms(1) by simp
  moreover have "pending w T s' + (if m = None then 0 else 1) = pending w T (sync w s)"
    using assms(2)
    by (auto simp: take_message_def Let_def attempt_eq_Inr pending_def split: list.splits dest!: arg_cong [where f = length])
  ultimately show ?thesis by simp
qed

lemma no_fuel_app_steps:
  "take_message w s \<noteq> Inl Out_of_fuel" "push_message w item s \<noteq> Inl Out_of_fuel" "place_back w ms s \<noteq> Inl Out_of_fuel"
  "app_broadcast w data s \<noteq> Inl Out_of_fuel" "app_respond w data pa s \<noteq> Inl Out_of_fuel"
  by (auto simp: take_message_def push_message_def place_back_def app_broadcast_def app_respond_def Let_def attempt_convs
      Lock_def Unlock_def split: list.splits if_splits prod.splits)

text \<open>
  Worlds in which the list of peers, eight bytes for each, fits into the address space; the threads do not change the
  peer's own address.
\<close>

definition world_ok :: "world \<Rightarrow> bool" where
  "world_ok w \<longleftrightarrow> (\<forall>t p. p_n_peers (tk_peer (w t) p) < 2 ^ 61 \<and> p_own_pa (tk_peer (w t) p) = p_own_pa p)"

lemma broadcast_count: "broadcast env p data = Some (n, p', out) \<Longrightarrow> n \<le> p_n_peers p \<and> p_own_pa p' = p_own_pa p"
proof -
  have le: "length (filter P (take k xs)) \<le> k" for P k and xs :: "peer_address list"
    by (rule le_trans [OF length_filter_le]) simp
  assume "broadcast env p data = Some (n, p', out)"
  then show ?thesis
    using le by (auto simp: broadcast_def bind_eq_Some_conv broadcast_loop_eq Let_def split: if_splits option.splits)
qed

lemma app_broadcast_count: "world_ok w \<Longrightarrow> app_broadcast w data s = Inr (n, s') \<Longrightarrow> 2 * n < 2 ^ 64"
proof -
  assume "world_ok w" "app_broadcast w data s = Inr (n, s')"
  then have "n \<le> p_n_peers (tk_peer (w (a_clock s)) (a_peer s))" "p_n_peers (tk_peer (w (a_clock s)) (a_peer s)) < 2 ^ 61"
    by (auto simp: app_broadcast_def Let_def attempt_eq_Inr from_option_eq_Inr world_ok_def dest: broadcast_count)
  then show ?thesis by simp
qed

section \<open>Where messages come from\<close>

text \<open>
  All messages a run has had at hand: those of the mailbox at its start, and those that have arrived since. The
  mailbox only ever holds such messages.
\<close>

definition heard :: "world \<Rightarrow> app \<Rightarrow> app \<Rightarrow> message set" where
  "heard w s s' = set (a_inbox s) \<union> (\<Union>t \<in> {a_clock s..<a_clock s'}. set (tk_arrivals (w t)))"

definition inflow :: "world \<Rightarrow> app \<Rightarrow> app \<Rightarrow> bool" where
  "inflow w s s' \<longleftrightarrow> a_clock s \<le> a_clock s' \<and> set (a_inbox s') \<subseteq> heard w s s'"

lemma finite_heard [simp]: "finite (heard w s s')"
  by (simp add: heard_def)

lemma inflow_refl [simp]: "inflow w s s"
  by (simp add: inflow_def heard_def)

lemma heard_mono: "a_clock s' \<le> a_clock s'' \<Longrightarrow> heard w s s' \<subseteq> heard w s s''"
  by (fastforce simp: heard_def)

lemma heard_trans: "inflow w s s' \<Longrightarrow> inflow w s' s'' \<Longrightarrow> heard w s' s'' \<subseteq> heard w s s''"
proof -
  assume 1: "inflow w s s'" and 2: "inflow w s' s''"
  then have "heard w s s' \<subseteq> heard w s s''"
    by (intro heard_mono) (simp add: inflow_def)
  with 1 2 show ?thesis
    by (fastforce simp: heard_def inflow_def)
qed

lemma inflow_trans [trans]: "inflow w s s' \<Longrightarrow> inflow w s' s'' \<Longrightarrow> inflow w s s''"
  using heard_trans [of w s s' s''] by (auto simp: inflow_def)

lemma inflow_same:
  "a_inbox s' = a_inbox s @ tk_arrivals (w (a_clock s)) \<Longrightarrow> a_clock s' = a_clock s + 1 \<Longrightarrow> inflow w s s'"
  by (auto simp: inflow_def heard_def)

lemma inflow_app_broadcast: "app_broadcast w data s = Inr (n, s') \<Longrightarrow> inflow w s s'"
  by (auto simp: app_broadcast_def Let_def attempt_eq_Inr split: prod.splits intro!: inflow_same)

lemma inflow_app_respond: "app_respond w data pa s = Inr s' \<Longrightarrow> inflow w s s'"
  by (auto simp: app_respond_def Let_def attempt_eq_Inr split: prod.splits intro!: inflow_same)

lemma inflow_log_entry: "inflow w s (log_entry w e s)"
  by (auto simp: log_entry_def Let_def intro!: inflow_same)

lemma inflow_update [simp]:
  "inflow w (s\<lparr>a_next := k\<rparr>) s' = inflow w s s'" "inflow w s (s'\<lparr>a_next := k\<rparr>) = inflow w s s'"
  "inflow w s (s'\<lparr>a_candidates := cs\<rparr>) = inflow w s s'"
  by (simp_all add: inflow_def heard_def)

lemma inflow_take_message:
  assumes "take_message w s = Inr (m, s')"
  shows "inflow w s s'" "m = Some item \<Longrightarrow> item \<in> heard w s s'"
proof -
  have "inflow w s s' \<and> (\<forall>item. m = Some item \<longrightarrow> item \<in> heard w s s')"
  proof (cases "a_inbox s @ tk_arrivals (w (a_clock s))")
    case Nil
    with assms show ?thesis
      by (auto simp: take_message_def Let_def attempt_eq_Inr inflow_def)
  next
    case (Cons x xs)
    then have "set (x # xs) = set (a_inbox s) \<union> set (tk_arrivals (w (a_clock s)))"
      by (metis set_append)
    with Cons assms show ?thesis
      by (auto simp: take_message_def Let_def attempt_eq_Inr inflow_def heard_def)
  qed
  then show "inflow w s s'" "m = Some item \<Longrightarrow> item \<in> heard w s s'" by auto
qed

lemma inflow_place_back:
  assumes "place_back w ms s' = Inr s''" "inflow w s s'" "set ms \<subseteq> heard w s s'"
  shows "inflow w s s''"
proof -
  have s'': "a_inbox s'' = (a_inbox s' @ tk_arrivals (w (a_clock s'))) @ ms" "a_clock s'' = a_clock s' + 1"
    using assms(1) by (auto simp: place_back_def Let_def attempt_eq_Inr fold_snoc)
  have "heard w s s' \<subseteq> heard w s s''"
    using s'' by (intro heard_mono) simp
  moreover have "set (tk_arrivals (w (a_clock s'))) \<subseteq> heard w s s''"
    using assms(2) s'' by (auto simp: heard_def inflow_def)
  ultimately show ?thesis
    using assms(2,3) s'' by (auto simp: inflow_def)
qed

section \<open>Sample worlds\<close>

text \<open>For concrete runs: every call succeeds, the tracker lists the peers \<open>pas\<close>, and the messages arrive as given.\<close>

definition sample_tick :: "message list \<Rightarrow> peer_address list \<Rightarrow> tick" where
  "sample_tick ms pas = \<lparr>tk_arrivals = ms, tk_peer = (\<lambda>p. p\<lparr>p_network_info := Some pas, p_n_peers := length pas\<rparr>),
     tk_env = sample_env, tk_lock = 0, tk_unlock = 0, tk_now = ''12:00'', tk_opened = True\<rparr>"

definition sample_app :: "bytes chain \<Rightarrow> message list \<Rightarrow> app" where
  "sample_app bc inbox = \<lparr>a_bc = bc, a_inbox = inbox, a_transactions = [], a_candidates = [],
     a_peer = (sample_peer [])\<lparr>p_open := 2\<rparr>, a_log = new_Logger ''11:59'', a_file = [], a_sent = [], a_next = 0, a_clock = 0\<rparr>"

definition genesis :: "bytes chain" where
  "genesis = new_blockchain SHA256FromDataAndHash default_T raw_block"

definition sample_block :: b_type where
  "sample_block = \<lparr>blk_data = default_T, blk_hash = SHA256FromDataAndHash default_T (SHA256FromDataAndHash default_T []),
     blk_prev_hash = SHA256FromDataAndHash default_T []\<rparr>"

definition other_peer :: peer_address where
  "other_peer = init_peer_address 2 81 1"

lemma sample_env_simps [simp]:
  "pe_limit sample_env = 1024" "pe_lock sample_env = 0" "pe_unlock sample_env = 0" "pe_rands sample_env i = (0, 0, 0)"
  by (simp_all add: sample_env_def)

lemma sample_tick_simps [simp]:
  "tk_arrivals (sample_tick ms pas) = ms" "tk_env (sample_tick ms pas) = sample_env" "tk_lock (sample_tick ms pas) = 0"
  "tk_unlock (sample_tick ms pas) = 0" "tk_opened (sample_tick ms pas) = True" "tk_now (sample_tick ms pas) = ''12:00''"
  "tk_peer (sample_tick ms pas) p = p\<lparr>p_network_info := Some pas, p_n_peers := length pas\<rparr>"
  by (simp_all add: sample_tick_def)

lemma sample_app_simps [simp]:
  "a_bc (sample_app bc inbox) = bc" "a_inbox (sample_app bc inbox) = inbox" "a_clock (sample_app bc inbox) = 0"
  "a_next (sample_app bc inbox) = 0" "a_transactions (sample_app bc inbox) = []" "a_candidates (sample_app bc inbox) = []" "a_sent (sample_app bc inbox) = []"
  "a_peer (sample_app bc inbox) = (sample_peer [])\<lparr>p_open := 2\<rparr>"
  by (simp_all add: sample_app_def)

lemma other_peer_neq [simp]: "other_peer \<noteq> p_own_pa (sample_peer pas)" "p_own_pa (sample_peer pas) \<noteq> other_peer"
  by (simp_all add: other_peer_def sample_peer_def init_peer_address_def)

lemma genesis_eq: "genesis = [\<lparr>blk_data = default_T, blk_hash = SHA256FromDataAndHash default_T [], blk_prev_hash = []\<rparr>]"
  by (simp add: genesis_def new_blockchain_def raw_block_def block_defs Let_def)

lemma genesis_valid [simp]: "chain_valid SHA256FromDataAndHash default_T genesis"
  by (simp add: genesis_def new_blockchain_valid)

lemma sample_block_sizes [simp]: "length (GetHash sample_block) = 64" "length (GetPrevHash sample_block) = 64"
  "length (GetData sample_block) = sizeof_T"
  by (simp_all add: sample_block_def block_defs SHA256FromDataAndHash_def default_T_def)

section \<open>Properties\<close>

text \<open>
  The mailbox thread puts every well-formed message of another peer into the mailbox exactly once: the payload of the
  frame, with its length.
\<close>

lemma inbox_thread_delivers_message:
  assumes "frame_of P2P data = Some frame" "length data < 2 ^ 63" "even (length data)" "peer_env_ok env"
    "p_own_socket p = (frame, from_addr) # rest" "length uninit = 24" "tk_lock t = 0" "tk_unlock t = 0"
  shows "inbox_thread_step env t uninit ((out, clntaddr), p, inbox) =
    Inr (((Some data, of_nat (length data)), from_addr), p\<lparr>p_own_socket := rest\<rparr>, inbox @ [(data, of_nat (length data))])"
  using receive_frame [OF assms(1,2,4-6), of clntaddr out] assms(3,7,8)
  by (simp add: inbox_thread_step_def Lock_def Unlock_def Let_def)

text \<open>
  A datagram whose header fails its check makes the mailbox thread queue the previous message a second time: \<^verbatim>\<open>receive\<close>
  leaves the caller's pointer alone in this case, and the thread does not reset it. (Once the main thread has handled and
  freed the first copy, the second one points to freed memory.)
\<close>

theorem inbox_thread_repeats_message:
  assumes "peer_env_ok env" "p_own_socket p = (d, from_addr) # rest" "length uninit = 24" "24 \<le> length d"
    "check_message_crc (take 24 d) 24 = Some (False, take 24 d)" "tk_lock t = 0" "tk_unlock t = 0"
  shows "inbox_thread_step env t uninit ((((Some msg), len), clntaddr), p, inbox) =
    Inr (((Some msg, len), from_addr), p\<lparr>p_own_socket := rest\<rparr>, inbox @ [(msg, len)])"
  using receive_bad_header [OF assms(1-5), of clntaddr "(Some msg, len)"] assms(6,7)
  by (simp add: inbox_thread_step_def Lock_def Unlock_def Let_def)

theorem inbox_thread_repeats_message_witness:
  "\<exists>d. length d = 24 \<and>
    inbox_thread_step sample_env (sample_tick [] []) (replicate 24 0)
      (((Some [5, 6], 2), \<lparr>sin_family = 2, sin_port = 7, sin_addr = 9\<rparr>), (sample_peer [])\<lparr>p_own_socket := [(d, \<lparr>sin_family = 2, sin_port = 7, sin_addr = 9\<rparr>)]\<rparr>, [([5, 6], 2)])
    = Inr (((Some [5, 6], 2), \<lparr>sin_family = 2, sin_port = 7, sin_addr = 9\<rparr>), (sample_peer [])\<lparr>p_own_socket := []\<rparr>, [([5, 6], 2), ([5, 6], 2)])"
proof -
  obtain frame where frame: "frame_of P2P [] = Some frame"
    using frame_of_total by blast
  then have len: "length frame = 24"
    by (auto simp: frame_of_Some)
  let ?d = "flip_bit frame 0 0"
  have "check_message_crc (take 24 ?d) 24 = Some (False, take 24 ?d)" "length ?d = 24"
    using check_flipped_frame [OF frame, of 0 0] len by (simp_all add: flip_bit_def)
  then show ?thesis
    using inbox_thread_repeats_message [OF sample_env_ok,
        of "(sample_peer [])\<lparr>p_own_socket := [(?d, \<lparr>sin_family = 2, sin_port = 7, sin_addr = 9\<rparr>)]\<rparr>" ?d "\<lparr>sin_family = 2, sin_port = 7, sin_addr = 9\<rparr>" "[]" "replicate 24 0" "sample_tick [] []"
          "[5, 6]" 2 "\<lparr>sin_family = 2, sin_port = 7, sin_addr = 9\<rparr>" "[([5, 6], 2)]"]
    by (intro exI [of _ ?d]) simp
qed

end
