(* ===== verification/ChainSync.thy ===== *)
theory ChainSync
  imports AppState
begin

text \<open>
  Catching up with the network, from \<^verbatim>\<open>application/application.cc\<close>: asking all peers for the next block, counting
  their answers until one has a majority, and answering such requests. A loop that the code does not bound has
  fuel.
\<close>

section \<open>Counting the answers\<close>

definition n_tries :: int where
  "n_tries = 10"

text \<open>The map from hashes to blocks and counts, in the order of its keys.\<close>

type_synonym vote_map = "(bytes \<times> b_type \<times> nat) list"

fun map_insert :: "bytes \<Rightarrow> b_type \<times> nat \<Rightarrow> vote_map \<Rightarrow> vote_map" where
  "map_insert k v [] = [(k, v)]"
| "map_insert k v ((k', v') # xs) =
     (if k < k' then (k, v) # (k', v') # xs else if k = k' then (k', v') # xs else (k', v') # map_insert k v xs)"

definition map_count :: "bytes \<Rightarrow> vote_map \<Rightarrow> vote_map" where
  "map_count k messages = map (\<lambda>(k', b, c). if k' = k then (k', b, c + 1) else (k', b, c)) messages"

text \<open>Subtraction on \<^verbatim>\<open>size_t\<close>.\<close>

definition size_minus :: "nat \<Rightarrow> nat \<Rightarrow> nat" where
  "size_minus a b = (if b \<le> a then a - b else 2 ^ 64 + a - b)"

text \<open>The loop over the rest of the map.\<close>

fun majority_loop :: "vote_map \<Rightarrow> b_type option \<Rightarrow> nat \<Rightarrow> nat \<Rightarrow> b_type option \<times> nat \<times> nat" where
  "majority_loop [] largest_block largest second_largest = (largest_block, largest, second_largest)"
| "majority_loop ((_, b, c) # its) largest_block largest second_largest =
     (if c > largest then majority_loop its (Some b) c largest
      else if c > second_largest then majority_loop its largest_block largest c
      else majority_loop its largest_block largest second_largest)"

definition majority_scan :: "nat \<Rightarrow> vote_map \<Rightarrow> b_type option \<times> nat \<times> nat" where
  "majority_scan no_block messages =
     (let largest = no_block; second_largest = 0 in
      case messages of
        [] \<Rightarrow> (None, largest, second_largest)
      | (_, b, c) # its \<Rightarrow>
          (let second_largest = c in
           if second_largest = largest then majority_loop its None largest second_largest
           else if second_largest > largest then majority_loop its (Some b) second_largest largest
           else majority_loop its None largest second_largest))"

definition checkMajority :: "b_type option \<Rightarrow> nat \<Rightarrow> nat \<Rightarrow> nat \<Rightarrow> vote_map \<Rightarrow> bool \<times> b_type option" where
  "checkMajority largest_block i n_peers no_block messages =
     (if i \<ge> n_peers div 2 then
        (if length messages > 0 then
           (let (largest_block, largest, second_largest) = majority_scan no_block messages in
            if largest > (second_largest + size_minus n_peers i) mod 2 ^ 64 then (True, largest_block)
            else (False, largest_block))
         else (True, None))
      else (False, largest_block))"

section \<open>Answering a request\<close>

definition SendBlockchain :: "world \<Rightarrow> blockchain_message_header \<Rightarrow> app \<Rightarrow> stop + app" where
  "SendBlockchain w bmh s =
     (let response_bmh = \<lparr>bmh_type = 0, bmh_peer_address = p_own_pa (a_peer s), bmh_index = bmh_index bmh\<rparr>
      in case GetBlockFromIndex (unat (bmh_index bmh)) (a_bc s) of
        Some b \<Rightarrow>
          (let block_data = DataFromBlock b;
               response_bmh = response_bmh\<lparr>bmh_type := blockchain_type_code BLOCK\<rparr>
           in attempt (app_respond w (bmh_bytes response_bmh @ block_data) (bmh_peer_address bmh) s) (\<lambda>s.
              Inr (log_entry w (LogSendingBlock (unat (bmh_index bmh))) s)))
      | None \<Rightarrow>
          (let response_bmh = response_bmh\<lparr>bmh_type := blockchain_type_code NOBLOCK\<rparr>
           in attempt (app_respond w (bmh_bytes response_bmh) (bmh_peer_address bmh) s) (\<lambda>s.
              Inr (log_entry w (LogSendingBlock (unat (bmh_index bmh))) s))))"

section \<open>Requesting one block\<close>

record request_locals =
  rl_messages :: vote_map
  rl_clients_seen :: "peer_address list"
  rl_no_block :: nat
  rl_tries :: int
  rl_read_messages :: "message list"

definition request_init :: request_locals where
  "request_init = \<lparr>rl_messages = [], rl_clients_seen = [], rl_no_block = 0, rl_tries = 0, rl_read_messages = []\<rparr>"

text \<open>The check of a block that a peer sent: its hash, and then that it continues our chain.\<close>

definition block_follows :: "b_type \<Rightarrow> app \<Rightarrow> stop + bool" where
  "block_follows b s =
     (if SHA256FromDataAndHash (GetData b) (GetPrevHash b) = GetHash b
      then attempt (from_option Undefined (GetTopHash (a_bc s))) (\<lambda>top. Inr (GetPrevHash b = top))
      else Inr False)"

definition request_message ::
  "world \<Rightarrow> size_t \<Rightarrow> message \<Rightarrow> request_locals \<Rightarrow> app \<Rightarrow> stop + request_locals \<times> app" where
  "request_message w index inbox_item l s =
     (let msg = fst inbox_item in
      attempt (from_option Undefined (read_bmh msg)) (\<lambda>mh.
      let clnt = bmh_peer_address mh; found = client_found clnt (rl_clients_seen l);
          seen = l\<lparr>rl_clients_seen := rl_clients_seen l @ [clnt]\<rparr>
      in
      if bmh_type mh = blockchain_type_code NOBLOCK then
        (if \<not> found then Inr (seen\<lparr>rl_no_block := rl_no_block l + 1\<rparr>, s) else Inr (l, s))
      else if bmh_type mh = blockchain_type_code BLOCK then
        attempt (from_option Undefined (BlockFromData (drop 24 msg))) (\<lambda>b.
        if \<not> found then
          attempt (block_follows b s) (\<lambda>ok.
          if ok then
            (if map_of (rl_messages l) (GetHash b) \<noteq> None
             then Inr (seen\<lparr>rl_messages := map_count (GetHash b) (rl_messages l)\<rparr>, s)
             else Inr (seen\<lparr>rl_messages := map_insert (GetHash b) (b, 1) (rl_messages l)\<rparr>, s))
          else Inr (seen, s))
        else Inr (l, s))
      else if bmh_type mh = blockchain_type_code REQUESTBLOCK then
        (if bmh_index mh = index then (if \<not> found then Inr (seen, s) else Inr (l, s))
         else if bmh_index mh < index then attempt (SendBlockchain w mh s) (\<lambda>s. Inr (l, s))
         else Inr (l\<lparr>rl_read_messages := rl_read_messages l @ [inbox_item]\<rparr>, s))
      else Inr (l, s)))"

text \<open>One iteration of the \<^verbatim>\<open>while\<close> loop: the result with the out parameter, or the next values of the variables.\<close>

definition request_body ::
  "world \<Rightarrow> size_t \<Rightarrow> nat \<Rightarrow> b_type option \<times> request_locals \<times> app \<Rightarrow>
     stop + ((bool \<times> b_type option) \<times> app + b_type option \<times> request_locals \<times> app)" where
  "request_body w index n_peers = (\<lambda>(largest_block, l, s).
     let finish = (\<lambda>result largest_block l s.
           attempt (place_back w (rl_read_messages l) s) (\<lambda>s. Inr (Inl ((result, largest_block), s))));
         give_up = (\<lambda>largest_block l s.
           if rl_tries l \<ge> n_tries then finish False largest_block l s else Inr (Inr (largest_block, l, s)))
     in
     if length (rl_clients_seen l) < n_peers then
       attempt (take_message w s) (\<lambda>(item, s).
       case item of
         Some inbox_item \<Rightarrow>
           attempt (request_message w index inbox_item l s) (\<lambda>(l, s).
           let (majority, largest_block) =
             checkMajority largest_block (length (rl_clients_seen l)) n_peers (rl_no_block l) (rl_messages l)
           in if majority then finish True largest_block l s else give_up largest_block l s)
       | None \<Rightarrow> give_up largest_block (l\<lparr>rl_tries := rl_tries l + 1\<rparr>) s)
     else finish False largest_block l s)"

definition RequestBlockchainBlock :: "nat \<Rightarrow> world \<Rightarrow> b_type option \<Rightarrow> app \<Rightarrow> stop + (bool \<times> b_type option) \<times> app" where
  "RequestBlockchainBlock fuel w largest_block s =
     (let bmh = \<lparr>bmh_type = blockchain_type_code REQUESTBLOCK, bmh_peer_address = p_own_pa (a_peer s),
                 bmh_index = chain_size s\<rparr>
      in attempt (app_broadcast w (bmh_bytes bmh) s) (\<lambda>(n_peers, s).
         if n_peers = 0 then Inr ((True, None), s)
         else repeat_body fuel (request_body w (bmh_index bmh) n_peers) (largest_block, request_init, s)))"

section \<open>Requesting the chain\<close>

text \<open>The inner loop, until a request succeeds; the variable \<^verbatim>\<open>b\<close> keeps its value from one request to the next.\<close>

definition request_again ::
  "nat \<Rightarrow> world \<Rightarrow> nat \<Rightarrow> b_type option \<times> app \<Rightarrow> stop + (b_type option \<times> app + b_type option \<times> app)" where
  "request_again fuel w block_id = (\<lambda>(b, s).
     attempt (RequestBlockchainBlock fuel w b (log_entry w (LogRequestBlock block_id) s)) (\<lambda>((success, b), s).
     let s = log_entry w (LogReceivedBlock block_id success) s
     in if \<not> success then Inr (Inr (b, s)) else Inr (Inl (b, s))))"

definition request_chain :: "nat \<Rightarrow> world \<Rightarrow> b_type option \<times> app \<Rightarrow> stop + (app + b_type option \<times> app)" where
  "request_chain fuel w = (\<lambda>(b, s).
     let block_id = Size (a_bc s) in
     attempt (repeat_body fuel (request_again fuel w block_id) (b, s)) (\<lambda>(b, s).
     case b of
       Some block \<Rightarrow> attempt (add_block (GetData block) s) (\<lambda>s. Inr (Inr (b, s)))
     | None \<Rightarrow> Inr (Inl s)))"

definition RequestBlockchain :: "nat \<Rightarrow> world \<Rightarrow> app \<Rightarrow> stop + app" where
  "RequestBlockchain fuel w s = repeat_body fuel (request_chain fuel w) (None, s)"

section \<open>The decision\<close>

text \<open>
  All options with their counts: no block, then the blocks in the order of the map. An option wins when its lead over
  every other one exceeds the answers that are still out.
\<close>

definition options :: "nat \<Rightarrow> vote_map \<Rightarrow> (b_type option \<times> nat) list" where
  "options no_block messages = (None, no_block) # map (\<lambda>(_, b, c). (Some b, c)) messages"

definition wins :: "(b_type option \<times> nat) list \<Rightarrow> nat \<Rightarrow> b_type option \<Rightarrow> bool" where
  "wins votes out r \<longleftrightarrow> (\<exists>i < length votes. fst (votes ! i) = r \<and>
     (\<forall>j < length votes. j \<noteq> i \<longrightarrow> snd (votes ! j) + out < snd (votes ! i)))"

text \<open>\<open>r\<close> has \<open>n\<close> votes and the best of the others has \<open>m\<close>.\<close>

definition top_two :: "(b_type option \<times> nat) list \<Rightarrow> b_type option \<times> nat \<times> nat \<Rightarrow> bool" where
  "top_two votes = (\<lambda>(r, n, m). m \<le> n \<and> (\<exists>i < length votes. votes ! i = (r, n) \<and>
     (\<exists>j < length votes. j \<noteq> i \<and> snd (votes ! j) = m) \<and> (\<forall>j < length votes. j \<noteq> i \<longrightarrow> snd (votes ! j) \<le> m)))"

lemma top_twoI:
  "m \<le> n \<Longrightarrow> i < length votes \<Longrightarrow> votes ! i = (r, n) \<Longrightarrow> j < length votes \<Longrightarrow> j \<noteq> i \<Longrightarrow> snd (votes ! j) = m \<Longrightarrow>
    (\<And>j. j < length votes \<Longrightarrow> j \<noteq> i \<Longrightarrow> snd (votes ! j) \<le> m) \<Longrightarrow> top_two votes (r, n, m)"
  by (auto simp: top_two_def)

lemma top_two_snoc:
  assumes "top_two votes (r, n, m)"
  shows "top_two (votes @ [(v, c)])
    (if c > n then (v, c, n) else if c > m then (r, n, c) else (r, n, m))"
proof -
  from assms obtain i j where i: "m \<le> n" "i < length votes" "votes ! i = (r, n)"
    and j: "j < length votes" "j \<noteq> i" "snd (votes ! j) = m"
    and others: "\<forall>j < length votes. j \<noteq> i \<longrightarrow> snd (votes ! j) \<le> m"
    by (auto simp: top_two_def)
  let ?k = "length votes"
  consider "c > n" | "\<not> c > n" "c > m" | "\<not> c > n" "\<not> c > m" by blast
  then show ?thesis
  proof cases
    case 1
    have "snd (votes ! j) \<le> n" if "j < ?k" for j
      using i others that by (cases "j = i") (auto intro: le_trans)
    then have "top_two (votes @ [(v, c)]) (v, c, n)"
      using i 1 by (intro top_twoI [where i = ?k and j = i]) (auto simp: nth_append)
    with 1 show ?thesis by simp
  next
    case 2
    have "top_two (votes @ [(v, c)]) (r, n, c)"
      using i others 2 by (intro top_twoI [where i = i and j = ?k]) (auto simp: nth_append intro: le_trans)
    with 2 show ?thesis by simp
  next
    case 3
    have "top_two (votes @ [(v, c)]) (r, n, m)"
      using i j others 3 by (intro top_twoI [where i = i and j = j]) (auto simp: nth_append)
    with 3 show ?thesis by simp
  qed
qed

lemma majority_loop_top_two:
  "top_two votes (r, n, m) \<Longrightarrow>
    top_two (votes @ map (\<lambda>(_, b, c). (Some b, c)) its) (majority_loop its r n m)"
proof (induction its arbitrary: votes r n m)
  case (Cons x its)
  obtain k b c where x: "x = (k, b, c)" by (cases x)
  from top_two_snoc [OF Cons.prems, of "Some b" c] Cons.IH [of "votes @ [(Some b, c)]"]
  show ?case
    by (simp add: x split: if_splits)
qed simp

lemma majority_scan_top_two:
  "messages \<noteq> [] \<Longrightarrow> top_two (options no_block messages) (majority_scan no_block messages)"
proof -
  assume "messages \<noteq> []"
  then obtain k b c its where m: "messages = (k, b, c) # its"
    by (metis prod_cases3 list.exhaust)
  let ?v = "[(None, no_block), (Some b, c)]"
  have index: "i < Suc (Suc 0) \<longleftrightarrow> i = 0 \<or> i = 1" for i by auto
  have first: "top_two ?v (if c > no_block then (Some b, c, no_block) else (None, no_block, c))"
  proof (cases "c > no_block")
    case True
    then have "top_two ?v (Some b, c, no_block)"
      by (intro top_twoI [where i = 1 and j = 0]) (auto simp: index)
    with True show ?thesis by simp
  next
    case False
    then have "top_two ?v (None, no_block, c)"
      by (intro top_twoI [where i = 0 and j = 1]) (auto simp: index)
    with False show ?thesis by simp
  qed
  have "options no_block messages = ?v @ map (\<lambda>(_, b, c). (Some b, c)) its"
    by (simp add: options_def m)
  then show ?thesis
    using majority_loop_top_two [of ?v] first by (auto simp: majority_scan_def m Let_def split: if_splits)
qed

lemma top_two_wins:
  assumes "top_two votes (r, n, m)"
  shows "m + out < n \<longleftrightarrow> wins votes out r" "wins votes out r' \<Longrightarrow> r' = r"
proof -
  from assms obtain i j where i: "m \<le> n" "i < length votes" "votes ! i = (r, n)"
    and j: "j < length votes" "j \<noteq> i" "snd (votes ! j) = m"
    and others: "\<forall>j < length votes. j \<noteq> i \<longrightarrow> snd (votes ! j) \<le> m"
    by (auto simp: top_two_def)
  have winner: "i' = i" if "i' < length votes" "\<forall>j < length votes. j \<noteq> i' \<longrightarrow> snd (votes ! j) + out < snd (votes ! i')" for i'
  proof (rule ccontr)
    assume "i' \<noteq> i"
    with that i have "n + out < snd (votes ! i')" by auto
    moreover have "snd (votes ! i') \<le> m"
      using others that(1) \<open>i' \<noteq> i\<close> by blast
    ultimately show False using i(1) by linarith
  qed
  show "m + out < n \<longleftrightarrow> wins votes out r"
  proof
    assume "m + out < n"
    then have "\<forall>j < length votes. j \<noteq> i \<longrightarrow> snd (votes ! j) + out < snd (votes ! i)"
      using others i(3) by fastforce
    with i show "wins votes out r"
      unfolding wins_def by force
  next
    assume "wins votes out r"
    then obtain i' where i': "i' < length votes" "\<forall>j < length votes. j \<noteq> i' \<longrightarrow> snd (votes ! j) + out < snd (votes ! i')"
      unfolding wins_def by blast
    with winner have "i' = i" by blast
    with i' i(3) j show "m + out < n" by auto
  qed
  show "r' = r" if win: "wins votes out r'"
  proof -
    from win obtain i' where i': "i' < length votes" "fst (votes ! i') = r'"
      "\<forall>j < length votes. j \<noteq> i' \<longrightarrow> snd (votes ! j) + out < snd (votes ! i')"
      unfolding wins_def by blast
    with winner have "i' = i" by blast
    with i' i(3) show ?thesis by simp
  qed
qed

lemma checkMajority_wins:
  assumes "messages \<noteq> []" "i \<le> n_peers" "2 * n_peers < 2 ^ 64" "\<forall>(k, b, c) \<in> set messages. c \<le> i" "no_block \<le> i"
  shows "checkMajority largest_block i n_peers no_block messages = (True, r) \<longleftrightarrow>
    n_peers div 2 \<le> i \<and> wins (options no_block messages) (n_peers - i) r"
proof -
  obtain r' n m where scan: "majority_scan no_block messages = (r', n, m)"
    by (metis prod_cases3)
  with majority_scan_top_two [OF assms(1)] have top: "top_two (options no_block messages) (r', n, m)"
    by metis
  then obtain j where j: "j < length (options no_block messages)" "snd (options no_block messages ! j) = m"
    by (auto simp: top_two_def)
  have all: "\<forall>v \<in> set (options no_block messages). snd v \<le> i"
    using assms(4,5) by (auto simp: options_def)
  have "m \<le> i"
    using j(2) bspec [OF all nth_mem [OF j(1)]] by simp
  then have "(m + size_minus n_peers i) mod 2 ^ 64 = m + (n_peers - i)"
    using assms(2,3) by (simp add: size_minus_def)
  then have "checkMajority largest_block i n_peers no_block messages = (True, r) \<longleftrightarrow>
      n_peers div 2 \<le> i \<and> m + (n_peers - i) < n \<and> r' = r"
    using assms(1) by (simp add: checkMajority_def scan)
  also have "\<dots> \<longleftrightarrow> n_peers div 2 \<le> i \<and> wins (options no_block messages) (n_peers - i) r"
    using top_two_wins [OF top] by blast
  finally show ?thesis .
qed

section \<open>The request loop\<close>

lemma core_SendBlockchain: "SendBlockchain w mh s = Inr s' \<Longrightarrow> core s' = core s"
  by (auto simp: SendBlockchain_def Let_def attempt_eq_Inr dest: core_app_respond split: option.splits)

lemma pending_SendBlockchain:
  "quiet_after T w \<Longrightarrow> SendBlockchain w mh s = Inr s' \<Longrightarrow> pending w T s' = pending w T s"
  by (auto simp: SendBlockchain_def Let_def attempt_eq_Inr dest: pending_app_respond split: option.splits)

lemma inflow_SendBlockchain: "SendBlockchain w mh s = Inr s' \<Longrightarrow> inflow w s s'"
  by (auto simp: SendBlockchain_def Let_def attempt_eq_Inr split: option.splits
      intro: inflow_trans [OF inflow_app_respond inflow_log_entry])

lemma no_fuel_SendBlockchain: "SendBlockchain w mh s \<noteq> Inl Out_of_fuel"
  by (auto simp: SendBlockchain_def Let_def attempt_convs no_fuel_app_steps split: option.splits)

text \<open>A block that continues the chain \<open>bc\<close>.\<close>

definition next_block :: "bytes chain \<Rightarrow> b_type \<Rightarrow> bool" where
  "next_block bc b \<longleftrightarrow> GetTopHash bc = Some (GetPrevHash b) \<and> GetHash b = SHA256FromDataAndHash (GetData b) (GetPrevHash b) \<and>
     length (GetData b) = sizeof_T"

lemma add_next_block:
  "next_block bc b \<Longrightarrow> AddBlock SHA256FromDataAndHash (GetData b) uninit bc = Some (bc @ [b])"
  by (cases b) (auto simp: next_block_def AddBlock_def GetTopHash_def Block_eq block_defs Let_def)

lemma BlockFromData_size: "BlockFromData data = Some b \<Longrightarrow> length (GetData b) = sizeof_T"
  by (auto simp: BlockFromData_def bind_eq_Some_conv Let_def GetData_def dest: read_bytes_length)

lemma block_follows_next:
  "block_follows b s = Inr True \<Longrightarrow> length (GetData b) = sizeof_T \<Longrightarrow> next_block (a_bc s) b"
  by (auto simp: block_follows_def next_block_def attempt_eq_Inr from_option_eq_Inr split: if_splits)

text \<open>The map of votes: distinct keys, each the hash of its block, and blocks that continue the chain.\<close>

definition map_ok :: "bytes chain \<Rightarrow> vote_map \<Rightarrow> bool" where
  "map_ok bc messages \<longleftrightarrow> distinct (map fst messages) \<and>
     (\<forall>(k, b, c) \<in> set messages. k = GetHash b \<and> next_block bc b \<and> 0 < c)"

definition votes_in :: "vote_map \<Rightarrow> nat" where
  "votes_in messages = sum_list (map (\<lambda>(_, _, c). c) messages)"

lemma map_insert_facts:
  assumes "map_of messages k = None"
  shows "set (map_insert k v messages) = insert (k, v) (set messages)"
    "distinct (map fst messages) \<Longrightarrow> distinct (map fst (map_insert k v messages))"
    "votes_in (map_insert k v messages) = snd v + votes_in messages"
proof -
  have "set (map_insert k v messages) = insert (k, v) (set messages) \<and>
    votes_in (map_insert k v messages) = snd v + votes_in messages"
    using assms by (induction messages) (auto simp: votes_in_def split: if_splits prod.splits)
  then show *: "set (map_insert k v messages) = insert (k, v) (set messages)"
    "votes_in (map_insert k v messages) = snd v + votes_in messages"
    by simp_all
  show "distinct (map fst messages) \<Longrightarrow> distinct (map fst (map_insert k v messages))"
    using assms
  proof (induction messages)
    case (Cons x messages)
    then have set: "set (map_insert k v messages) = insert (k, v) (set messages)"
      by (induction messages) (auto split: if_splits prod.splits)
    with Cons show ?case
      by (cases x) (auto simp: map_of_eq_None_iff split: if_splits)
  qed simp
qed

lemma map_count_facts:
  assumes "distinct (map fst messages)"
  shows "map fst (map_count k messages) = map fst messages"
    "(k', b, c) \<in> set (map_count k messages) \<Longrightarrow> \<exists>c' \<le> c. (k', b, c') \<in> set messages"
    "map_of messages k \<noteq> None \<Longrightarrow> votes_in (map_count k messages) = votes_in messages + 1"
proof -
  show "map fst (map_count k messages) = map fst messages"
    by (auto simp: map_count_def)
  show "(k', b, c) \<in> set (map_count k messages) \<Longrightarrow> \<exists>c' \<le> c. (k', b, c') \<in> set messages"
    by (auto simp: map_count_def split: if_splits) (metis le_SucI order_refl)+
  have same: "map_of xs k = None \<Longrightarrow> map_count k xs = xs" for xs
    by (induction xs) (auto simp: map_count_def split: if_splits)
  show "map_of messages k \<noteq> None \<Longrightarrow> votes_in (map_count k messages) = votes_in messages + 1"
    using assms
  proof (induction messages)
    case (Cons x messages)
    obtain k' b c where x: "x = (k', b, c)" by (cases x)
    show ?case
    proof (cases "k' = k")
      case True
      with Cons.prems(2) x have "map_of messages k = None"
        by (auto simp: map_of_eq_None_iff)
      from same [OF this] True x show ?thesis
        by (simp add: votes_in_def map_count_def)
    next
      case False
      with Cons x show ?thesis
        by (simp add: votes_in_def map_count_def)
    qed
  qed simp
qed

text \<open>
  The invariant of the loop: the chain is as it was, every counted block continues it, and there are at most as many votes
  as different clients that answered, of which there are no more than peers were asked.
\<close>

definition locals_ok :: "bytes chain \<Rightarrow> request_locals \<Rightarrow> bool" where
  "locals_ok bc l \<longleftrightarrow> map_ok bc (rl_messages l) \<and> distinct (rl_clients_seen l) \<and>
     rl_no_block l + votes_in (rl_messages l) \<le> length (rl_clients_seen l)"

lemma locals_ok_init: "locals_ok bc request_init"
  by (simp add: locals_ok_def request_init_def map_ok_def votes_in_def)

lemma locals_ok_vote:
  assumes ok: "locals_ok bc l" and b: "next_block bc b" and new: "clnt \<notin> set (rl_clients_seen l)"
  shows "locals_ok bc (l\<lparr>rl_clients_seen := rl_clients_seen l @ [clnt],
    rl_messages := (if map_of (rl_messages l) (GetHash b) \<noteq> None then map_count (GetHash b) (rl_messages l)
                    else map_insert (GetHash b) (b, 1) (rl_messages l))\<rparr>)"
proof (cases "map_of (rl_messages l) (GetHash b) = None")
  case True
  with ok b new map_insert_facts [OF True, of "(b, 1)"] show ?thesis
    by (auto simp: locals_ok_def map_ok_def)
next
  case False
  have dist: "distinct (map fst (rl_messages l))"
    using ok by (simp add: locals_ok_def map_ok_def)
  note facts = map_count_facts [OF dist]
  have "map_ok bc (map_count (GetHash b) (rl_messages l))"
    unfolding map_ok_def
  proof (intro conjI ballI)
    show "distinct (map fst (map_count (GetHash b) (rl_messages l)))"
      using dist facts(1) by simp
    show "case x of (k, b, c) \<Rightarrow> k = GetHash b \<and> next_block bc b \<and> 0 < c"
      if "x \<in> set (map_count (GetHash b) (rl_messages l))" for x
    proof -
      obtain k b' c where x: "x = (k, b', c)" by (cases x)
      with facts(2) that obtain c' where "c' \<le> c" "(k, b', c') \<in> set (rl_messages l)" by blast
      with ok x show ?thesis
        by (auto simp: locals_ok_def map_ok_def)
    qed
  qed
  with ok new False facts(3) [of "GetHash b"] show ?thesis
    by (simp add: locals_ok_def)
qed

lemma request_message_ok:
  assumes "request_message w index item l s = Inr (l', s')" "locals_ok (a_bc s) l"
  shows "locals_ok (a_bc s) l'" "core s' = core s" "length (rl_clients_seen l') \<le> length (rl_clients_seen l) + 1"
proof -
  obtain mh where mh: "read_bmh (fst item) = Some mh"
    using assms(1) by (auto simp: request_message_def Let_def attempt_convs)
  have skip: "locals_ok (a_bc s) (l\<lparr>rl_clients_seen := rl_clients_seen l @ [clnt]\<rparr>)" if "clnt \<notin> set (rl_clients_seen l)" for clnt
    using assms(2) that by (simp add: locals_ok_def)
  have "locals_ok (a_bc s) l' \<and> core s' = core s \<and> length (rl_clients_seen l') \<le> length (rl_clients_seen l) + 1"
  proof (cases "bmh_type mh = blockchain_type_code BLOCK")
    case True
    with assms(1) mh obtain b where b: "BlockFromData (drop 24 (fst item)) = Some b"
      by (auto simp: request_message_def Let_def attempt_convs)
    show ?thesis
    proof (cases "client_found (bmh_peer_address mh) (rl_clients_seen l)")
      case True
      with assms \<open>bmh_type mh = _\<close> mh b show ?thesis
        by (simp add: request_message_def)
    next
      case new: False
      with assms(1) True mh b obtain ok where ok: "block_follows b s = Inr ok"
        by (auto simp: request_message_def Let_def attempt_convs)
      show ?thesis
      proof (cases ok)
        case True
        have "next_block (a_bc s) b"
          using block_follows_next ok BlockFromData_size [OF b] True by simp
        from locals_ok_vote [OF assms(2) this, of "bmh_peer_address mh"] new ok True assms(1) \<open>bmh_type mh = _\<close> mh b
        show ?thesis
          by (auto simp: request_message_def Let_def client_found_iff split: if_splits)
      next
        case False
        with skip [of "bmh_peer_address mh"] new ok assms(1) \<open>bmh_type mh = _\<close> mh b show ?thesis
          by (auto simp: request_message_def Let_def client_found_iff)
      qed
    qed
  next
    case False
    with assms mh skip [of "bmh_peer_address mh"] show ?thesis
      by (auto simp: request_message_def Let_def attempt_convs client_found_iff locals_ok_def dest: core_SendBlockchain
          split: if_splits)
  qed
  then show "locals_ok (a_bc s) l'" "core s' = core s" "length (rl_clients_seen l') \<le> length (rl_clients_seen l) + 1"
    by simp_all
qed

text \<open>What a successful request has decided: no block, without any vote for one, or the option that wins.\<close>

definition decided :: "bytes chain \<Rightarrow> nat \<Rightarrow> b_type option \<Rightarrow> request_locals \<Rightarrow> bool" where
  "decided bc n_peers r l \<longleftrightarrow> locals_ok bc l \<and> n_peers div 2 \<le> length (rl_clients_seen l) \<and>
     length (rl_clients_seen l) \<le> n_peers \<and>
     (if rl_messages l = [] then r = None
      else wins (options (rl_no_block l) (rl_messages l)) (n_peers - length (rl_clients_seen l)) r)"

definition request_inv :: "app \<Rightarrow> nat \<Rightarrow> b_type option \<times> request_locals \<times> app \<Rightarrow> bool" where
  "request_inv s0 n_peers = (\<lambda>(_, l, s). 2 * n_peers < 2 ^ 64 \<and> core s = core s0 \<and> locals_ok (a_bc s0) l \<and>
     length (rl_clients_seen l) \<le> n_peers)"

definition request_post :: "app \<Rightarrow> nat \<Rightarrow> (bool \<times> b_type option) \<times> app \<Rightarrow> bool" where
  "request_post s0 n_peers = (\<lambda>((result, r), s). core s = core s0 \<and> (result \<longrightarrow> (\<exists>l. decided (a_bc s0) n_peers r l)))"

lemma core_bc: "core s = core s' \<Longrightarrow> a_bc s = a_bc s'"
  by (simp add: core_def)

lemma votes_in_member: "(k, b, c) \<in> set messages \<Longrightarrow> c \<le> votes_in messages"
  by (induction messages) (auto simp: votes_in_def)

lemma majority_decided:
  assumes "2 * n_peers < 2 ^ 64" "locals_ok bc l" "length (rl_clients_seen l) \<le> n_peers"
    "checkMajority lb (length (rl_clients_seen l)) n_peers (rl_no_block l) (rl_messages l) = (True, r)"
  shows "decided bc n_peers r l"
proof (cases "rl_messages l = []")
  case True
  with assms show ?thesis by (auto simp: decided_def checkMajority_def split: if_splits)
next
  case False
  have "\<forall>(k, b, c) \<in> set (rl_messages l). c \<le> length (rl_clients_seen l)" "rl_no_block l \<le> length (rl_clients_seen l)"
    using assms(2) by (auto simp: locals_ok_def dest!: votes_in_member)
  with False assms checkMajority_wins [OF False assms(3,1)] show ?thesis
    by (auto simp: decided_def)
qed

lemma request_body_cases:
  assumes "request_body w index n_peers (lb, l, s) = Inr out" "request_inv s0 n_peers (lb, l, s)"
  shows "case out of Inl r \<Rightarrow> request_post s0 n_peers r | Inr x \<Rightarrow> request_inv s0 n_peers x"
proof (cases "length (rl_clients_seen l) < n_peers")
  case False
  with assms show ?thesis
    by (auto simp: request_body_def request_inv_def request_post_def Let_def attempt_convs dest!: core_place_back)
next
  case room: True
  have inv: "2 * n_peers < 2 ^ 64" "core s = core s0" "locals_ok (a_bc s0) l" "length (rl_clients_seen l) \<le> n_peers"
    using assms(2) by (auto simp: request_inv_def)
  obtain item s1 where take: "take_message w s = Inr (item, s1)"
    using assms(1) room by (auto simp: request_body_def Let_def attempt_convs)
  then have core1: "core s1 = core s0"
    using inv(2) core_take_message by simp
  show ?thesis
  proof (cases item)
    case None
    with assms(1) room take core1 inv show ?thesis
      by (auto simp: request_body_def request_inv_def request_post_def Let_def attempt_convs locals_ok_def
          dest!: core_place_back split: if_splits)
  next
    case (Some msg)
    with assms(1) room take obtain l2 s2 where msg: "request_message w index msg l s1 = Inr (l2, s2)"
      by (auto simp: request_body_def Let_def attempt_convs)
    have bc1: "a_bc s1 = a_bc s0"
      using core_bc [OF core1] .
    note facts = request_message_ok [OF msg, unfolded bc1, OF inv(3)]
    have core2: "core s2 = core s0" and len2: "length (rl_clients_seen l2) \<le> n_peers"
      using facts(2,3) core1 room by simp_all
    obtain maj r where maj: "checkMajority lb (length (rl_clients_seen l2)) n_peers (rl_no_block l2) (rl_messages l2) = (maj, r)"
      by fastforce
    show ?thesis
    proof (cases maj)
      case True
      with majority_decided [OF inv(1) facts(1) len2] maj have "decided (a_bc s0) n_peers r l2" by simp
      with True maj assms(1) room take Some msg core2 show ?thesis
        by (auto simp: request_body_def request_post_def Let_def attempt_convs dest!: core_place_back)
    next
      case False
      with maj assms(1) room take Some msg core2 len2 facts(1) inv(1) show ?thesis
        by (auto simp: request_body_def request_inv_def request_post_def Let_def attempt_convs dest!: core_place_back
            split: if_splits)
    qed
  qed
qed

interpretation request_loop: loop_invariant "request_body w index n_peers" "request_inv s0 n_peers" "request_post s0 n_peers"
  for w index n_peers s0
  by unfold_locales (auto dest: request_body_cases)

text \<open>The measure of the loop: the messages still to come, and the tries that are left.\<close>

definition request_rank :: "world \<Rightarrow> nat \<Rightarrow> b_type option \<times> request_locals \<times> app \<Rightarrow> nat" where
  "request_rank w T = (\<lambda>(_, l, s). pending w T s + nat (n_tries - rl_tries l))"

lemma request_message_pending:
  assumes "quiet_after T w" "request_message w index item l s = Inr (l', s')"
  shows "pending w T s' = pending w T s" "rl_tries l' = rl_tries l"
  using assms
  by (auto simp: request_message_def Let_def attempt_convs dest: pending_SendBlockchain split: if_splits)

lemma request_message_fuel: "request_message w index item l s \<noteq> Inl Out_of_fuel"
  by (auto simp: request_message_def block_follows_def Let_def attempt_convs no_fuel_SendBlockchain split: if_splits)

lemma request_body_rank:
  assumes "quiet_after T w" "request_body w index n_peers (lb, l, s) = Inr (Inr x)"
  shows "request_rank w T x < request_rank w T (lb, l, s)"
proof -
  have room: "length (rl_clients_seen l) < n_peers"
    using assms(2) by (auto simp: request_body_def Let_def attempt_convs split: if_splits)
  with assms(2) obtain item s1 where take: "take_message w s = Inr (item, s1)"
    by (auto simp: request_body_def Let_def attempt_convs)
  note pend = pending_take_message [OF assms(1) take]
  show ?thesis
  proof (cases item)
    case None
    with assms(2) room take pend show ?thesis
      by (auto simp: request_body_def request_rank_def Let_def attempt_convs n_tries_def split: if_splits)
  next
    case (Some msg)
    with assms(2) room take obtain l2 s2 where msg: "request_message w index msg l s1 = Inr (l2, s2)"
      by (auto simp: request_body_def Let_def attempt_convs)
    from request_message_pending [OF assms(1) msg] assms(2) room take Some msg pend show ?thesis
      by (auto simp: request_body_def request_rank_def Let_def attempt_convs split: if_splits prod.splits)
  qed
qed

lemma request_body_fuel: "request_body w index n_peers x \<noteq> Inl Out_of_fuel"
  by (auto simp: request_body_def Let_def attempt_convs no_fuel_app_steps request_message_fuel split: prod.splits option.splits if_splits)

interpretation request_ends: loop_variant "request_body w index n_peers" "\<lambda>_. quiet_after T w" "\<lambda>_. True" "request_rank w T"
  for w index n_peers T
  by unfold_locales (auto simp: request_body_fuel intro: request_body_rank)

section \<open>Catching up\<close>

lemma wins_option:
  assumes "locals_ok bc l" "wins (options (rl_no_block l) (rl_messages l)) out (Some b)"
  shows "next_block bc b"
proof -
  from assms(2) obtain i where "i < length (options (rl_no_block l) (rl_messages l))"
    "fst (options (rl_no_block l) (rl_messages l) ! i) = Some b"
    by (auto simp: wins_def)
  then have "Some b \<in> fst ` set (options (rl_no_block l) (rl_messages l))"
    by (metis imageI nth_mem)
  with assms(1) show ?thesis
    by (auto simp: options_def locals_ok_def map_ok_def)
qed

lemma decided_next: "decided bc n_peers (Some b) l \<Longrightarrow> next_block bc b"
  by (auto simp: decided_def intro: wins_option split: if_splits)

lemma RequestBlockchainBlock_decides:
  assumes "world_ok w" "RequestBlockchainBlock fuel w lb s = Inr ((result, r), s')"
  shows "core s' = core s" "result \<Longrightarrow> r = Some b \<Longrightarrow> \<exists>n_peers l. decided (a_bc s) n_peers (Some b) l"
proof -
  obtain n_peers s1 where send: "app_broadcast w (bmh_bytes \<lparr>bmh_type = blockchain_type_code REQUESTBLOCK,
      bmh_peer_address = p_own_pa (a_peer s), bmh_index = chain_size s\<rparr>) s = Inr (n_peers, s1)"
    using assms(2) by (auto simp: RequestBlockchainBlock_def Let_def attempt_convs)
  have core1: "core s1 = core s"
    by (rule core_app_broadcast [OF send])
  have small: "2 * n_peers < 2 ^ 64"
    by (rule app_broadcast_count [OF assms(1) send])
  have "core s' = core s \<and> (result \<longrightarrow> r = Some b \<longrightarrow> (\<exists>n_peers l. decided (a_bc s) n_peers (Some b) l))"
  proof (cases "n_peers = 0")
    case True
    with assms(2) send core1 show ?thesis
      by (auto simp: RequestBlockchainBlock_def Let_def)
  next
    case False
    have "request_inv s n_peers (lb, request_init, s1)"
      using small core1 by (simp add: request_inv_def locals_ok_init) (simp add: request_init_def)
    then have "request_post s n_peers ((result, r), s')"
      by (rule request_loop.repeat_post) (use assms(2) send False in \<open>auto simp: RequestBlockchainBlock_def Let_def\<close>)
    then show ?thesis
      by (auto simp: request_post_def)
  qed
  then show "core s' = core s" "result \<Longrightarrow> r = Some b \<Longrightarrow> \<exists>n_peers l. decided (a_bc s) n_peers (Some b) l"
    by blast+
qed

text \<open>Blocks that continue a chain one after the other.\<close>

fun follows :: "bytes chain \<Rightarrow> b_type list \<Rightarrow> bool" where
  "follows bc [] = True"
| "follows bc (b # bs) = (next_block bc b \<and> follows (bc @ [b]) bs)"

lemma follows_append: "follows bc (xs @ ys) \<longleftrightarrow> follows bc xs \<and> follows (bc @ xs) ys"
  by (induction xs arbitrary: bc) auto

lemma follows_valid: "follows bc bs \<Longrightarrow> chain_valid SHA256FromDataAndHash default_T bc \<Longrightarrow>
  chain_valid SHA256FromDataAndHash default_T (bc @ bs)"
proof (induction bs arbitrary: bc)
  case (Cons b bs)
  then have "AddBlock SHA256FromDataAndHash (GetData b) raw_block bc = Some (bc @ [b])"
    by (simp add: add_next_block)
  with AddBlock_valid [OF Cons.prems(2), of "GetData b" raw_block] have "chain_valid SHA256FromDataAndHash default_T (bc @ [b])"
    by simp
  with Cons.IH [of "bc @ [b]"] Cons.prems(1) show ?case by simp
qed simp

interpretation again_loop: loop_invariant "request_again fuel w block_id" "\<lambda>(b, s). world_ok w \<and> core s = core s0"
    "\<lambda>(b, s). core s = core s0 \<and> (\<forall>blk. b = Some blk \<longrightarrow> next_block (a_bc s0) blk)"
  for fuel w block_id s0
proof (unfold_locales, goal_cases)
  case (1 x x')
  obtain b s where x: "x = (b, s)" by (cases x)
  with 1 obtain b' s' where run: "RequestBlockchainBlock fuel w b (log_entry w (LogRequestBlock block_id) s) = Inr ((False, b'), s')"
    "x' = (b', log_entry w (LogReceivedBlock block_id False) s')"
    by (auto simp: request_again_def Let_def attempt_convs split: if_splits)
  with 1 x RequestBlockchainBlock_decides(1) [OF _ run(1)] show ?case
    by simp
next
  case (2 x r)
  obtain b s where x: "x = (b, s)" by (cases x)
  with 2 obtain b' s' where run: "RequestBlockchainBlock fuel w b (log_entry w (LogRequestBlock block_id) s) = Inr ((True, b'), s')"
    "r = (b', log_entry w (LogReceivedBlock block_id True) s')"
    by (auto simp: request_again_def Let_def attempt_convs split: if_splits)
  have "world_ok w" "core s = core s0"
    using 2 x by auto
  then have "core (log_entry w (LogRequestBlock block_id) s) = core s0" "a_bc (log_entry w (LogRequestBlock block_id) s) = a_bc s0"
    using core_bc by (simp, metis core_log_entry core_bc)
  with RequestBlockchainBlock_decides [OF \<open>world_ok w\<close> run(1)] run(2) show ?case
    by (auto dest: decided_next)
qed

text \<open>Everything but the chain is as before, and the chain has been continued.\<close>

definition caught_up :: "app \<Rightarrow> app \<Rightarrow> bool" where
  "caught_up s0 s \<longleftrightarrow> (\<exists>bs. a_bc s = a_bc s0 @ bs \<and> follows (a_bc s0) bs) \<and>
     a_transactions s = a_transactions s0 \<and> a_candidates s = a_candidates s0 \<and> a_next s = a_next s0"

lemma caught_up_refl: "core s = core s0 \<Longrightarrow> caught_up s0 s"
  by (auto simp: caught_up_def core_def intro: exI [of _ "[]"])

lemma caught_up_add:
  assumes "caught_up s0 s" "core s1 = core s" "next_block (a_bc s) b" "add_block (GetData b) s1 = Inr s2"
  shows "caught_up s0 s2"
proof -
  have "a_bc s1 = a_bc s" "a_transactions s1 = a_transactions s" "a_candidates s1 = a_candidates s" "a_next s1 = a_next s"
    using assms(2) by (simp_all add: core_def)
  moreover have "s2 = s1\<lparr>a_bc := a_bc s1 @ [b]\<rparr>"
    using assms(3,4) \<open>a_bc s1 = a_bc s\<close> by (auto simp: add_block_def attempt_convs add_next_block)
  moreover obtain bs where "a_bc s = a_bc s0 @ bs" "follows (a_bc s0) bs"
    using assms(1) by (auto simp: caught_up_def)
  ultimately show ?thesis
    using assms(1,3) by (auto simp: caught_up_def follows_append intro!: exI [of _ "bs @ [b]"])
qed

interpretation chain_loop: loop_invariant "request_chain fuel w" "\<lambda>(b, s). world_ok w \<and> caught_up s0 s" "caught_up s0"
  for fuel w s0
proof (unfold_locales, goal_cases)
  case (1 x x')
  then obtain b s b' s1 where x: "x = (b, s)" "world_ok w" "caught_up s0 s"
    and again: "repeat_body fuel (request_again fuel w (Size (a_bc s))) (b, s) = Inr (Some b', s1)"
      "attempt (add_block (GetData b') s1) (\<lambda>s. Inr (Inr (Some b', s))) = Inr (Inr x' :: app + b_type option \<times> app)"
    by (cases x) (auto simp: request_chain_def Let_def attempt_eq_Inr split: option.splits)
  have "core s1 = core s" "next_block (a_bc s) b'"
    using again_loop.repeat_post [OF _ again(1), of s] x(2) by auto
  with caught_up_add [OF x(3)] again(2) x(2) show ?case
    by (auto simp: attempt_eq_Inr)
next
  case (2 x s1)
  then obtain b s where x: "x = (b, s)" "world_ok w" "caught_up s0 s"
    and again: "repeat_body fuel (request_again fuel w (Size (a_bc s))) (b, s) = Inr (None, s1)"
    by (cases x) (auto simp: request_chain_def Let_def attempt_eq_Inr split: option.splits)
  have "core s1 = core s"
    using again_loop.repeat_post [OF _ again, of s] x(2) by auto
  with x(3) show ?case
    by (auto simp: caught_up_def core_def)
qed

lemma RequestBlockchain_caught_up: "world_ok w \<Longrightarrow> RequestBlockchain fuel w s = Inr s' \<Longrightarrow> caught_up s s'"
  unfolding RequestBlockchain_def using chain_loop.repeat_post [of w s "(None, s)" fuel fuel s'] caught_up_refl [of s s] by simp

section \<open>Where the blocks come from\<close>

text \<open>The block that a message carries, when it is an answer with a block.\<close>

definition sent_block :: "message \<Rightarrow> b_type option" where
  "sent_block inbox_item = Option.bind (read_bmh (fst inbox_item)) (\<lambda>mh.
     if bmh_type mh = blockchain_type_code BLOCK then BlockFromData (drop 24 (fst inbox_item)) else None)"

definition sent_blocks :: "message set \<Rightarrow> b_type set" where
  "sent_blocks M = {b. \<exists>m \<in> M. sent_block m = Some b}"

lemma sent_blocks_mono: "M \<subseteq> N \<Longrightarrow> sent_blocks M \<subseteq> sent_blocks N"
  by (auto simp: sent_blocks_def)

definition map_blocks :: "vote_map \<Rightarrow> b_type set" where
  "map_blocks messages = (\<lambda>(_, b, _). b) ` set messages"

lemma map_blocks_simps [simp]:
  "map_blocks [] = {}" "map_blocks ((k, b, c) # messages) = insert b (map_blocks messages)"
  by (simp_all add: map_blocks_def)

lemma map_blocks_count [simp]: "map_blocks (map_count k messages) = map_blocks messages"
  by (induction messages) (auto simp: map_count_def split: if_splits)

lemma map_blocks_insert: "map_blocks (map_insert k (b, c) messages) \<subseteq> insert b (map_blocks messages)"
  by (induction messages) (auto split: if_splits)

lemma majority_loop_block:
  "fst (majority_loop its lb n m) = Some b \<Longrightarrow> lb = Some b \<or> b \<in> map_blocks its"
  by (induction its lb n m rule: majority_loop.induct) (auto split: if_splits)

lemma checkMajority_block:
  "checkMajority lb i n_peers no_block messages = (True, Some b) \<Longrightarrow> b \<in> map_blocks messages"
  by (cases messages)
     (auto simp: checkMajority_def majority_scan_def Let_def dest!: arg_cong [where f = fst] majority_loop_block
       split: if_splits prod.splits)

text \<open>
  The source of what the loop works with: every counted block has been received, and so have the messages that were put aside.
\<close>

definition sourced :: "world \<Rightarrow> app \<Rightarrow> b_type option \<times> request_locals \<times> app \<Rightarrow> bool" where
  "sourced w s0 = (\<lambda>(_, l, s). inflow w s0 s \<and> set (rl_read_messages l) \<subseteq> heard w s0 s \<and>
     map_blocks (rl_messages l) \<subseteq> sent_blocks (heard w s0 s))"

definition sourced_post :: "world \<Rightarrow> app \<Rightarrow> (bool \<times> b_type option) \<times> app \<Rightarrow> bool" where
  "sourced_post w s0 = (\<lambda>((result, r), s). inflow w s0 s \<and>
     (result \<longrightarrow> (\<forall>b. r = Some b \<longrightarrow> b \<in> sent_blocks (heard w s0 s))))"

lemma sourced_later: "sourced w s0 (lb, l, s) \<Longrightarrow> inflow w s s' \<Longrightarrow> sourced w s0 (lb', l, s')"
proof -
  assume 1: "sourced w s0 (lb, l, s)" and 2: "inflow w s s'"
  have "heard w s0 s \<subseteq> heard w s0 s'"
    using 2 by (intro heard_mono) (simp add: inflow_def)
  with 1 2 sent_blocks_mono [OF this] show ?thesis
    by (auto simp: sourced_def intro: inflow_trans)
qed

lemma request_message_sourced:
  assumes "request_message w index item l s = Inr (l', s')" "sourced w s0 (lb, l, s)" "item \<in> heard w s0 s"
  shows "sourced w s0 (lb, l', s')"
proof -
  obtain mh where mh: "read_bmh (fst item) = Some mh"
    using assms(1) by (auto simp: request_message_def Let_def attempt_convs)
  show ?thesis
  proof (cases "bmh_type mh = blockchain_type_code BLOCK")
    case True
    then obtain b where b: "BlockFromData (drop 24 (fst item)) = Some b"
      using assms(1) mh by (auto simp: request_message_def Let_def attempt_convs)
    then have "b \<in> sent_blocks (heard w s0 s)"
      using assms(3) mh True by (force simp: sent_blocks_def sent_block_def)
    moreover have "s' = s" "rl_read_messages l' = rl_read_messages l"
      "map_blocks (rl_messages l') \<subseteq> insert b (map_blocks (rl_messages l))"
      using assms(1) mh True b map_blocks_insert [of "GetHash b" b 1 "rl_messages l"]
      by (auto simp: request_message_def Let_def attempt_convs split: if_splits)
    ultimately show ?thesis
      using assms(2) by (auto simp: sourced_def)
  next
    case False
    then have "inflow w s s'" "set (rl_read_messages l') \<subseteq> insert item (set (rl_read_messages l))"
      "rl_messages l' = rl_messages l"
      using assms(1) mh inflow_SendBlockchain
      by (auto simp: request_message_def Let_def attempt_convs split: if_splits)
    note later = this
    have "heard w s0 s \<subseteq> heard w s0 s'"
      using later(1) by (intro heard_mono) (simp add: inflow_def)
    then have "set (rl_read_messages l') \<subseteq> heard w s0 s'"
      using later(2) assms(2,3) by (auto simp: sourced_def)
    with sourced_later [OF assms(2) later(1), of lb] later(3) show ?thesis
      by (simp add: sourced_def)
  qed
qed

lemma request_body_sourced:
  assumes "request_body w index n_peers (lb, l, s) = Inr out" "sourced w s0 (lb, l, s)"
  shows "case out of Inl r \<Rightarrow> sourced_post w s0 r | Inr x \<Rightarrow> sourced w s0 x"
proof -
  have finish: "inflow w s0 s' \<and> map_blocks (rl_messages l) \<subseteq> sent_blocks (heard w s0 s')"
    if "sourced w s0 (lb, l, s)" "place_back w (rl_read_messages l) s = Inr s'" for lb l s s'
  proof -
    have "inflow w s0 s'"
      using that(1) by (intro inflow_place_back [OF that(2)]) (simp_all add: sourced_def)
    moreover have "heard w s0 s \<subseteq> heard w s0 s'"
      using that(2) by (intro heard_mono) (auto simp: place_back_def Let_def attempt_eq_Inr)
    moreover note sent_blocks_mono [OF this]
    ultimately show ?thesis
      using that(1) by (auto simp: sourced_def)
  qed
  show ?thesis
  proof (cases "length (rl_clients_seen l) < n_peers")
    case False
    with assms show ?thesis
      by (auto simp: request_body_def sourced_post_def Let_def attempt_convs dest!: finish)
  next
    case room: True
    obtain item s1 where take: "take_message w s = Inr (item, s1)"
      using assms(1) room by (auto simp: request_body_def Let_def attempt_convs)
    have src1: "sourced w s0 (lb', l, s1)" for lb'
      by (rule sourced_later [OF assms(2) inflow_take_message(1) [OF take]])
    show ?thesis
    proof (cases item)
      case None
      have "sourced w s0 (lb, l\<lparr>rl_tries := rl_tries l + 1\<rparr>, s1)"
        using src1 by (simp add: sourced_def)
      with None assms(1) room take finish [OF this] show ?thesis
        by (auto simp: request_body_def sourced_post_def Let_def attempt_convs split: if_splits)
    next
      case (Some msg)
      with assms(1) room take obtain l2 s2 where msg: "request_message w index msg l s1 = Inr (l2, s2)"
        by (auto simp: request_body_def Let_def attempt_convs)
      have "inflow w s0 s"
        using assms(2) by (simp add: sourced_def)
      then have "msg \<in> heard w s0 s1"
        using inflow_take_message [OF take] Some heard_trans by blast
      then have src2: "sourced w s0 (lb', l2, s2)" for lb'
        by (rule request_message_sourced [OF msg src1])
      obtain maj r where maj: "checkMajority lb (length (rl_clients_seen l2)) n_peers (rl_no_block l2) (rl_messages l2) = (maj, r)"
        by fastforce
      have won: "b \<in> map_blocks (rl_messages l2)" if maj "r = Some b" for b
        using checkMajority_block maj that by simp
      show ?thesis
        using maj assms(1) room take Some msg src2 won finish [OF src2]
        by (auto simp: request_body_def sourced_post_def Let_def attempt_convs dest!: subsetD split: if_splits)
    qed
  qed
qed

interpretation sourced_loop: loop_invariant "request_body w index n_peers" "sourced w s0" "sourced_post w s0"
  for w index n_peers s0
  by unfold_locales (auto dest: request_body_sourced)

lemma RequestBlockchainBlock_sourced:
  assumes "RequestBlockchainBlock fuel w lb s = Inr ((result, r), s')"
  shows "sourced_post w s ((result, r), s')"
proof -
  obtain n_peers s1 where send: "app_broadcast w (bmh_bytes \<lparr>bmh_type = blockchain_type_code REQUESTBLOCK,
      bmh_peer_address = p_own_pa (a_peer s), bmh_index = chain_size s\<rparr>) s = Inr (n_peers, s1)"
    using assms by (auto simp: RequestBlockchainBlock_def Let_def attempt_convs)
  note flow = inflow_app_broadcast [OF send]
  show ?thesis
  proof (cases "n_peers = 0")
    case True
    with assms send flow show ?thesis
      by (auto simp: RequestBlockchainBlock_def Let_def sourced_post_def)
  next
    case False
    have "sourced w s (lb, request_init, s1)"
      using flow by (simp add: sourced_def request_init_def)
    then show ?thesis
      by (rule sourced_loop.repeat_post) (use assms send False in \<open>auto simp: RequestBlockchainBlock_def Let_def\<close>)
  qed
qed

interpretation sourced_again: loop_invariant "request_again fuel w block_id" "\<lambda>(b, s). inflow w s0 s"
    "\<lambda>(b, s). inflow w s0 s \<and> (\<forall>blk. b = Some blk \<longrightarrow> blk \<in> sent_blocks (heard w s0 s))"
  for fuel w block_id s0
proof (unfold_locales, goal_cases)
  case (1 x x')
  obtain b s where x: "x = (b, s)" by (cases x)
  with 1 obtain b' s' where run: "RequestBlockchainBlock fuel w b (log_entry w (LogRequestBlock block_id) s) = Inr ((False, b'), s')"
    "x' = (b', log_entry w (LogReceivedBlock block_id False) s')"
    by (auto simp: request_again_def Let_def attempt_convs split: if_splits)
  have "inflow w (log_entry w (LogRequestBlock block_id) s) s'"
    using RequestBlockchainBlock_sourced [OF run(1)] by (simp add: sourced_post_def)
  then show ?case
    using 1(1) x run(2) by (auto intro!: inflow_trans [OF _ inflow_log_entry] elim!: inflow_trans [rotated] simp: inflow_log_entry)
next
  case (2 x r)
  obtain b s where x: "x = (b, s)" by (cases x)
  with 2 obtain b' s' where run: "RequestBlockchainBlock fuel w b (log_entry w (LogRequestBlock block_id) s) = Inr ((True, b'), s')"
    "r = (b', log_entry w (LogReceivedBlock block_id True) s')"
    by (auto simp: request_again_def Let_def attempt_convs split: if_splits)
  let ?s = "log_entry w (LogRequestBlock block_id) s"
  let ?s' = "log_entry w (LogReceivedBlock block_id True) s'"
  note post = RequestBlockchainBlock_sourced [OF run(1)]
  have start: "inflow w s0 ?s"
    using 2(1) x by (auto intro: inflow_trans inflow_log_entry)
  have flow: "inflow w ?s ?s'"
    using post by (auto simp: sourced_post_def intro: inflow_trans inflow_log_entry)
  have "heard w ?s s' \<subseteq> heard w ?s ?s'"
    using inflow_log_entry [of w s'] by (intro heard_mono) (simp add: inflow_def)
  then have "sent_blocks (heard w ?s s') \<subseteq> sent_blocks (heard w s0 ?s')"
    using heard_trans [OF start flow] by (intro sent_blocks_mono) blast
  then show ?case
    using post inflow_trans [OF start flow] run(2) by (auto simp: sourced_post_def)
qed

text \<open>The chain has been continued by blocks that have been received.\<close>

definition fetched :: "world \<Rightarrow> app \<Rightarrow> app \<Rightarrow> bool" where
  "fetched w s0 s \<longleftrightarrow> inflow w s0 s \<and>
     (\<exists>bs. a_bc s = a_bc s0 @ bs \<and> set bs \<subseteq> sent_blocks (heard w s0 s))"

lemma fetched_add:
  assumes "fetched w s0 s" "inflow w s s1" "core s1 = core s" "next_block (a_bc s) b" "b \<in> sent_blocks (heard w s s1)"
    "add_block (GetData b) s1 = Inr s2"
  shows "fetched w s0 s2"
proof -
  have bc: "a_bc s1 = a_bc s"
    by (rule core_bc [OF assms(3)])
  have s2: "s2 = s1\<lparr>a_bc := a_bc s @ [b]\<rparr>"
    using assms(4,6) bc by (auto simp: add_block_def attempt_convs add_next_block)
  have flow: "inflow w s0 s"
    using assms(1) by (simp add: fetched_def)
  have later: "heard w s0 s \<subseteq> heard w s0 s1"
    using assms(2) by (intro heard_mono) (simp add: inflow_def)
  obtain bs where bs: "a_bc s = a_bc s0 @ bs" "set bs \<subseteq> sent_blocks (heard w s0 s)"
    using assms(1) by (auto simp: fetched_def)
  have "set (bs @ [b]) \<subseteq> sent_blocks (heard w s0 s1)"
    using bs(2) sent_blocks_mono [OF later] sent_blocks_mono [OF heard_trans [OF flow assms(2)]] assms(5) by auto
  moreover have "inflow w s0 s2" "heard w s0 s2 = heard w s0 s1"
    using inflow_trans [OF flow assms(2)] by (simp_all add: s2 inflow_def heard_def)
  ultimately show ?thesis
    using bs(1) by (auto simp: fetched_def s2 intro!: exI [of _ "bs @ [b]"])
qed

lemma fetched_same:
  assumes "fetched w s0 s" "inflow w s s1" "core s1 = core s"
  shows "fetched w s0 s1"
proof -
  have "heard w s0 s \<subseteq> heard w s0 s1"
    using assms(2) by (intro heard_mono) (simp add: inflow_def)
  with assms(1) core_bc [OF assms(3)] inflow_trans [OF _ assms(2)] sent_blocks_mono [OF this] show ?thesis
    by (auto simp: fetched_def)
qed

interpretation fetch_loop: loop_invariant "request_chain fuel w" "\<lambda>(b, s). world_ok w \<and> fetched w s0 s" "fetched w s0"
  for fuel w s0
proof (unfold_locales, goal_cases)
  case (1 x x')
  then obtain b s b' s1 where x: "x = (b, s)" "world_ok w" "fetched w s0 s"
    and again: "repeat_body fuel (request_again fuel w (Size (a_bc s))) (b, s) = Inr (Some b', s1)"
      "attempt (add_block (GetData b') s1) (\<lambda>s. Inr (Inr (Some b', s))) = Inr (Inr x' :: app + b_type option \<times> app)"
    by (cases x) (auto simp: request_chain_def Let_def attempt_eq_Inr split: option.splits)
  have "core s1 = core s" "next_block (a_bc s) b'" "inflow w s s1" "b' \<in> sent_blocks (heard w s s1)"
    using again_loop.repeat_post [OF _ again(1), of s] sourced_again.repeat_post [OF _ again(1), of s] x(2) by auto
  with fetched_add [OF x(3)] again(2) x(2) show ?case
    by (auto simp: attempt_eq_Inr)
next
  case (2 x s1)
  then obtain b s where x: "x = (b, s)" "world_ok w" "fetched w s0 s"
    and again: "repeat_body fuel (request_again fuel w (Size (a_bc s))) (b, s) = Inr (None, s1)"
    by (cases x) (auto simp: request_chain_def Let_def attempt_eq_Inr split: option.splits)
  have "core s1 = core s" "inflow w s s1"
    using again_loop.repeat_post [OF _ again, of s] sourced_again.repeat_post [OF _ again, of s] x(2) by auto
  with fetched_same [OF x(3)] show ?case
    by blast
qed

lemma RequestBlockchain_fetched: "world_ok w \<Longrightarrow> RequestBlockchain fuel w s = Inr s' \<Longrightarrow> fetched w s s'"
  unfolding RequestBlockchain_def
  using fetch_loop.repeat_post [of w s "(None, s)" fuel fuel s'] by (auto simp: fetched_def)

section \<open>Silent peers\<close>

text \<open>A world in which other peers are always listed and no message ever arrives.\<close>

definition silent :: "world \<Rightarrow> bool" where
  "silent w \<longleftrightarrow> (\<forall>t. tk_arrivals (w t) = [] \<and> (\<forall>p. \<exists>pas. p_network_info (tk_peer (w t) p) = Some pas \<and>
     p_n_peers (tk_peer (w t) p) = length pas \<and> (\<exists>pa \<in> set pas. pa \<noteq> p_own_pa (tk_peer (w t) p))))"

lemma silent_broadcast:
  assumes "silent w" "app_broadcast w data s = Inr (n, s')" "a_inbox s = []"
  shows "0 < n" "a_inbox s' = []"
proof -
  let ?p = "tk_peer (w (a_clock s)) (a_peer s)"
  obtain pas pa where "p_network_info ?p = Some pas" "p_n_peers ?p = length pas" "pa \<in> set pas" "pa \<noteq> p_own_pa ?p"
    "tk_arrivals (w (a_clock s)) = []"
    using assms(1) unfolding silent_def by blast
  moreover from this have "filter (\<lambda>pa. pa \<noteq> p_own_pa ?p) pas \<noteq> []"
    by (auto simp: filter_empty_conv)
  ultimately have "0 < n \<and> a_inbox s' = []"
    using assms(2,3)
    by (auto simp: app_broadcast_def Let_def attempt_convs broadcast_def bind_eq_Some_conv broadcast_loop_eq split: if_splits)
  then show "0 < n" "a_inbox s' = []" by simp_all
qed

lemma silent_place_back: "silent w \<Longrightarrow> place_back w ms s = Inr s' \<Longrightarrow> a_inbox s' = a_inbox s @ ms"
  by (auto simp: place_back_def Let_def attempt_eq_Inr fold_snoc silent_def)

lemma silent_log: "silent w \<Longrightarrow> a_inbox (log_entry w e s) = a_inbox s"
  by (simp add: log_entry_def Let_def silent_def)

lemma silent_take: "silent w \<Longrightarrow> a_inbox s = [] \<Longrightarrow> take_message w s = Inr (m, s') \<Longrightarrow> m = None \<and> a_inbox s' = []"
  by (auto simp: take_message_def Let_def attempt_eq_Inr silent_def)

lemma silent_body:
  assumes "silent w" "0 < n_peers" "a_inbox s = []" "rl_clients_seen l = []" "rl_read_messages l = []"
    "request_body w index n_peers (lb, l, s) = Inr out"
  shows "case out of Inl ((result, _), s) \<Rightarrow> \<not> result \<and> a_inbox s = []
    | Inr (_, l, s) \<Rightarrow> a_inbox s = [] \<and> rl_clients_seen l = [] \<and> rl_read_messages l = []"
proof -
  obtain item s1 where take: "take_message w s = Inr (item, s1)"
    using assms(2,4,6) by (auto simp: request_body_def Let_def attempt_convs)
  have "item = None" "a_inbox s1 = []"
    using silent_take [OF assms(1,3) take] by simp_all
  with assms take show ?thesis
    by (auto simp: request_body_def Let_def attempt_convs silent_place_back split: if_splits)
qed

interpretation silent_loop: loop_invariant "request_body w index n_peers"
    "\<lambda>(lb, l, s). silent w \<and> 0 < n_peers \<and> a_inbox s = [] \<and> rl_clients_seen l = [] \<and> rl_read_messages l = []"
    "\<lambda>((result, _), s). \<not> result \<and> a_inbox s = []"
  for w index n_peers
  by unfold_locales (auto dest!: silent_body)

lemma silent_request:
  assumes "silent w" "a_inbox s = []" "RequestBlockchainBlock fuel w lb s = Inr ((result, r), s')"
  shows "\<not> result \<and> a_inbox s' = []"
proof -
  obtain n_peers s1 where send: "app_broadcast w (bmh_bytes \<lparr>bmh_type = blockchain_type_code REQUESTBLOCK,
      bmh_peer_address = p_own_pa (a_peer s), bmh_index = chain_size s\<rparr>) s = Inr (n_peers, s1)"
    using assms(3) by (auto simp: RequestBlockchainBlock_def Let_def attempt_convs)
  note n = silent_broadcast [OF assms(1) send assms(2)]
  have "repeat_body fuel (request_body w (chain_size s) n_peers) (lb, request_init, s1) = Inr ((result, r), s')"
    using assms(3) send n by (auto simp: RequestBlockchainBlock_def Let_def)
  from silent_loop.repeat_post [OF _ this] assms(1) n show ?thesis
    by (simp add: request_init_def)
qed

interpretation silent_again: loop_invariant "request_again fuel w block_id" "\<lambda>(b, s). silent w \<and> a_inbox s = []" "\<lambda>_. False"
  for fuel w block_id
proof (unfold_locales, goal_cases)
  case (1 x x')
  then show ?case
    by (auto simp: request_again_def Let_def attempt_convs silent_log split: if_splits dest!: silent_request [rotated 2])
next
  case (2 x r)
  then show ?case
    by (auto simp: request_again_def Let_def attempt_convs silent_log split: if_splits dest!: silent_request [rotated 2])
qed

lemma silent_RequestBlockchain:
  assumes "silent w" "a_inbox s = []"
  shows "RequestBlockchain fuel w s \<noteq> Inr s'"
proof
  assume "RequestBlockchain fuel w s = Inr s'"
  then obtain n out where "request_chain fuel w (None, s) = Inr out"
    by (cases fuel) (auto simp: RequestBlockchain_def attempt_eq_Inr)
  then obtain r where "repeat_body fuel (request_again fuel w (Size (a_bc s))) (None, s) = Inr r"
    by (auto simp: request_chain_def Let_def attempt_eq_Inr)
  from silent_again.repeat_post [OF _ this] assms show False by simp
qed

section \<open>Answers\<close>

definition answer_to :: "blockchain_message_header \<Rightarrow> app \<Rightarrow> bytes" where
  "answer_to mh s =
     (let header = \<lambda>type. bmh_bytes \<lparr>bmh_type = blockchain_type_code type, bmh_peer_address = p_own_pa (a_peer s),
                                     bmh_index = bmh_index mh\<rparr>
      in case GetBlockFromIndex (unat (bmh_index mh)) (a_bc s) of
        Some b \<Rightarrow> header BLOCK @ DataFromBlock b | None \<Rightarrow> header NOBLOCK)"

lemma app_respond_sends:
  assumes "app_respond w data pa s = Inr s'"
  shows "\<exists>frame. frame_of P2P data = Some frame \<and> a_sent s' = a_sent s @ [(frame, create_sockaddr_in pa)]"
proof -
  obtain frame where "frame_of P2P data = Some frame"
    using frame_of_total by blast
  with assms show ?thesis
    by (auto simp: app_respond_def respond_def Let_def attempt_convs client_socket_eq split: if_splits)
qed

lemma SendBlockchain_sends:
  assumes "SendBlockchain w mh s = Inr s'"
  shows "\<exists>frame. frame_of P2P (answer_to mh s) = Some frame \<and>
    a_sent s' = a_sent s @ [(frame, create_sockaddr_in (bmh_peer_address mh))]"
proof -
  obtain s1 e where s1: "app_respond w (answer_to mh s) (bmh_peer_address mh) s = Inr s1" "s' = log_entry w e s1"
    using assms by (auto simp: SendBlockchain_def answer_to_def Let_def attempt_convs split: option.splits)
  have "a_sent s' = a_sent s1"
    using s1(2) by (simp add: log_entry_def Let_def)
  with app_respond_sends [OF s1(1)] show ?thesis by simp
qed

lemma linked_nth:
  "linked f p bs \<Longrightarrow> i < length bs \<Longrightarrow> blk_prev_hash (bs ! i) = (if i = 0 then p else blk_hash (bs ! (i - 1))) \<and>
    blk_hash (bs ! i) = f (blk_data (bs ! i)) (blk_prev_hash (bs ! i))"
proof (induction bs arbitrary: p i)
  case (Cons b bs)
  then show ?case by (cases i) (auto simp: nth_Cons' split: if_splits)
qed simp

lemma prefix_next_block:
  assumes "chain_valid SHA256FromDataAndHash default_T bc" "\<forall>b \<in> set bc. length (blk_data b) = sizeof_T" "0 < i" "i < Size bc"
  shows "next_block (take i bc) (bc ! i)" "length (GetHash (bc ! i)) = 64" "length (GetPrevHash (bc ! i)) = 64"
proof -
  have i: "i < length bc" "i - 1 < length bc" "take i bc \<noteq> []"
    using assms(3,4) by (auto simp: Size_def)
  have linked: "linked SHA256FromDataAndHash [] bc"
    using assms(1) by (simp add: chain_valid_def)
  have "last (take i bc) = bc ! (i - 1)"
    using i assms(3) by (simp add: last_conv_nth min_absorb2)
  then show "next_block (take i bc) (bc ! i)"
    using linked_nth [OF linked i(1)] i assms(2,3)
    by (simp add: next_block_def GetTopHash_def vector_back_def GetHash_def GetPrevHash_def GetData_def)
  show "length (GetHash (bc ! i)) = 64" "length (GetPrevHash (bc ! i)) = 64"
    using linked_nth [OF linked i(1)] linked_nth [OF linked i(2)] assms(3)
    by (simp_all add: GetHash_def GetPrevHash_def SHA256FromDataAndHash_def)
qed

lemma length_DataFromBlock: "length (DataFromBlock b) = 24 + length (GetHash b) + length (GetPrevHash b) + length (GetData b)"
  by (simp add: DataFromBlock_def block_data_bytes_def Let_def)

text \<open>The other side of \<open>block_follows_next\<close>, and what counting a valid block does.\<close>

lemma next_block_follows: "next_block (a_bc s) b \<Longrightarrow> block_follows b s = Inr True"
  by (auto simp: next_block_def block_follows_def)

lemma request_message_counts:
  assumes "next_block (a_bc s) b" "length (GetHash b) = 64" "length (GetPrevHash b) = 64" "pa \<notin> set (rl_clients_seen l)"
  shows "request_message w index
      (bmh_bytes \<lparr>bmh_type = blockchain_type_code BLOCK, bmh_peer_address = pa, bmh_index = i\<rparr> @ DataFromBlock b, n) l s =
    Inr (l\<lparr>rl_clients_seen := rl_clients_seen l @ [pa],
           rl_messages := (if map_of (rl_messages l) (GetHash b) \<noteq> None then map_count (GetHash b) (rl_messages l)
                           else map_insert (GetHash b) (b, 1) (rl_messages l))\<rparr>, s)"
proof -
  have "length (GetData b) = sizeof_T"
    using assms(1) by (simp add: next_block_def)
  then have "BlockFromData (DataFromBlock b) = Some b"
    using BlockFromData_DataFromBlock [of b "[]"] assms(2,3) by simp
  with assms show ?thesis
    by (simp add: request_message_def Let_def client_found_iff next_block_follows)
qed

section \<open>Properties\<close>

lemma sample_block_next: "next_block genesis sample_block"
  by (simp add: next_block_def GetTopHash_def vector_back_def genesis_eq) (simp add: sample_block_def block_defs default_T_def)

text \<open>
  C17: Once a vote for any block has been counted, the decision is exact: the function reports a majority if and only if half
  of the peers have answered and one option (a block of the map, or no block) leads every other option by more than the
  number of answers that are still out, so that no further answer can change the winner; and it returns that winner.
\<close>

theorem checkMajority_decides:
  assumes "messages \<noteq> []" "i \<le> n_peers" "2 * n_peers < 2 ^ 64" "\<forall>(k, b, c) \<in> set messages. c \<le> i" "no_block \<le> i"
  shows "checkMajority largest_block i n_peers no_block messages = (True, r) \<longleftrightarrow>
    n_peers div 2 \<le> i \<and> wins ((None, no_block) # map (\<lambda>(_, b, c). (Some b, c)) messages) (n_peers - i) r"
  using checkMajority_wins [OF assms] by (simp add: options_def)

theorem checkMajority_decides_witness:
  "checkMajority None 2 3 0 [([1], sample_block, 2)] = (True, Some sample_block)"
proof -
  have "wins ((None, 0) # map (\<lambda>(_, b, c). (Some b, c)) [([1 :: u8], sample_block, 2)]) (3 - 2) (Some sample_block)"
    by (auto simp: wins_def less_Suc_eq intro!: exI [of _ 1])
  with checkMajority_decides [of "[([1], sample_block, 2)]" 2 3 0 None "Some sample_block"] show ?thesis
    by simp
qed

text \<open>
  A request for a block leaves the chain, the transactions and the candidates alone. When it succeeds with a block,
  that block continues the chain: adding its data gives the chain with exactly this block on top.
\<close>

theorem RequestBlockchainBlock_adopts:
  assumes "world_ok w" "RequestBlockchainBlock fuel w lb s = Inr ((True, Some b), s')"
  shows "core s' = core s \<and> AddBlock SHA256FromDataAndHash (GetData b) uninit (a_bc s') = Some (a_bc s @ [b])"
proof -
  note facts = RequestBlockchainBlock_decides [OF assms]
  from facts(2) [OF TrueI refl] obtain n l where d: "decided (a_bc s) n (Some b) l" by blast
  from core_bc [OF facts(1)] add_next_block [OF decided_next [OF d]] facts(1) show ?thesis
    by simp
qed

lemma sample_world_ok [simp]: "length pas < 2 ^ 61 \<Longrightarrow> world_ok (\<lambda>t. sample_tick (ms t) pas)"
  by (simp add: world_ok_def)

lemma sample_broadcast:
  "app_broadcast (\<lambda>t. sample_tick (ms t) [other_peer]) data (sample_app bc inbox) = Inr (n, s) \<longleftrightarrow>
    (\<exists>frame. frame_of P2P data = Some frame \<and> n = 1 \<and> s = (sync (\<lambda>t. sample_tick (ms t) [other_peer]) (sample_app bc inbox))
      \<lparr>a_peer := (sample_peer [other_peer])\<lparr>p_open := 3\<rparr>, a_sent := [(frame, create_sockaddr_in other_peer)]\<rparr>)"
proof -
  obtain frame where "frame_of P2P data = Some frame"
    using frame_of_total by blast
  then show ?thesis
    by (auto simp: app_broadcast_def broadcast_def broadcast_loop_eq sample_app_def sample_peer_def Let_def other_peer_def
        init_peer_address_def)
qed

lemma sample_take:
  "take_message (\<lambda>t. sample_tick (ms t) pas) s =
    (case a_inbox s @ ms (a_clock s) of
       [] \<Rightarrow> Inr (None, sync (\<lambda>t. sample_tick (ms t) pas) s)
     | item # inbox \<Rightarrow> Inr (Some item, (sync (\<lambda>t. sample_tick (ms t) pas) s)\<lparr>a_inbox := inbox\<rparr>))"
  by (simp add: take_message_def Lock_def Unlock_def Let_def split: list.splits)

lemma sample_place_back:
  "place_back (\<lambda>t. sample_tick (ms t) pas) messages s =
    Inr ((sync (\<lambda>t. sample_tick (ms t) pas) s)\<lparr>a_inbox := a_inbox s @ ms (a_clock s) @ messages\<rparr>)"
  by (simp add: place_back_def Lock_def Unlock_def Let_def fold_snoc)

text \<open>A request that is answered with the next block.\<close>

definition sample_answer :: message where
  "sample_answer = (bmh_bytes \<lparr>bmh_type = blockchain_type_code BLOCK, bmh_peer_address = other_peer, bmh_index = 1\<rparr> @
     DataFromBlock sample_block, 1776)"

lemma sample_request:
  "\<exists>s'. RequestBlockchainBlock 1 (\<lambda>t. sample_tick [] [other_peer]) None (sample_app genesis [sample_answer]) =
    Inr ((True, Some sample_block), s')"
proof -
  let ?w = "\<lambda>t :: nat. sample_tick [] [other_peer]"
  obtain frame where frame: "frame_of P2P (bmh_bytes \<lparr>bmh_type = blockchain_type_code REQUESTBLOCK,
      bmh_peer_address = p_own_pa (a_peer (sample_app genesis [sample_answer])),
      bmh_index = chain_size (sample_app genesis [sample_answer])\<rparr>) = Some frame"
    using frame_of_total by blast
  obtain s1 where s1: "app_broadcast ?w (bmh_bytes \<lparr>bmh_type = blockchain_type_code REQUESTBLOCK,
      bmh_peer_address = p_own_pa (a_peer (sample_app genesis [sample_answer])),
      bmh_index = chain_size (sample_app genesis [sample_answer])\<rparr>) (sample_app genesis [sample_answer]) = Inr (1, s1)"
    using frame by (auto simp: sample_broadcast)
  have state1: "a_inbox s1 = [sample_answer]" "a_bc s1 = genesis"
    using s1 by (auto simp: sample_broadcast)
  define s2 where "s2 = (sync ?w s1)\<lparr>a_inbox := []\<rparr>"
  have s2: "take_message ?w s1 = Inr (Some sample_answer, s2)" "a_bc s2 = genesis"
    using state1 by (simp_all add: sample_take s2_def)
  have "request_message ?w i sample_answer request_init s2 = Inr (request_init\<lparr>rl_clients_seen := [other_peer],
      rl_messages := [(GetHash sample_block, sample_block, 1)]\<rparr>, s2)" for i
    unfolding sample_answer_def
    by (subst request_message_counts) (simp_all add: s2(2) sample_block_next request_init_def)
  then have "\<exists>s'. request_body ?w i 1 (None, request_init, s1) = Inr (Inl ((True, Some sample_block), s'))" for i
    using s2(1) by (simp add: request_body_def Let_def sample_place_back checkMajority_def majority_scan_def size_minus_def
        request_init_def)
  then show ?thesis
    using s1 by (simp add: RequestBlockchainBlock_def Let_def) (metis attempt_simps(2) old.sum.simps(5))
qed

theorem RequestBlockchainBlock_adopts_witness:
  "\<exists>s'. RequestBlockchainBlock 1 (\<lambda>t. sample_tick [] [other_peer]) None (sample_app genesis [sample_answer]) =
      Inr ((True, Some sample_block), s') \<and>
    AddBlock SHA256FromDataAndHash (GetData sample_block) raw_block (a_bc s') = Some (genesis @ [sample_block])"
proof -
  from sample_request obtain s' where
    run: "RequestBlockchainBlock 1 (\<lambda>t. sample_tick [] [other_peer]) None (sample_app genesis [sample_answer]) =
      Inr ((True, Some sample_block), s')" by blast
  from RequestBlockchainBlock_adopts [OF _ run, of raw_block] run show ?thesis
    by (auto simp: sample_app_def)
qed

text \<open>
  C23: When only finitely many messages arrive, a request for a block ends: fuel for one iteration per message still to come
  and one per try is enough, whatever the messages contain (the process may also exit, or read outside a short message).
\<close>

theorem RequestBlockchainBlock_ends:
  assumes "\<forall>t \<ge> T. tk_arrivals (w t) = []"
    "length (a_inbox s) + (\<Sum>t = a_clock s..<T. length (tk_arrivals (w t))) + nat n_tries < fuel"
  shows "RequestBlockchainBlock fuel w lb s \<noteq> Inl Out_of_fuel"
proof -
  have quiet: "quiet_after T w"
    using assms(1) by (simp add: quiet_after_def)
  have "repeat_body fuel (request_body w index n) (lb, request_init, s1) \<noteq> Inl Out_of_fuel"
    if "app_broadcast w data s = Inr (n, s1)" for index n data s1
  proof (rule request_ends.repeat_enough_fuel [OF quiet])
    show "request_rank w T (lb, request_init, s1) < fuel"
      using assms(2) pending_app_broadcast [OF quiet that] by (simp add: request_rank_def request_init_def pending_def)
  qed
  then show ?thesis
    by (auto simp: RequestBlockchainBlock_def Let_def attempt_convs no_fuel_app_steps)
qed

theorem RequestBlockchainBlock_ends_witness:
  "RequestBlockchainBlock 12 (\<lambda>t. sample_tick [] [other_peer]) None (sample_app genesis [sample_answer]) \<noteq> Inl Out_of_fuel"
  by (rule RequestBlockchainBlock_ends [of 0]) (simp_all add: n_tries_def)

text \<open>A catching up that fetches one block: the only peer sends it, and then answers that there is no further one.\<close>

definition no_block_answer :: message where
  "no_block_answer = (bmh_bytes \<lparr>bmh_type = blockchain_type_code NOBLOCK, bmh_peer_address = other_peer, bmh_index = 2\<rparr>, 24)"

abbreviation one_peer :: world where
  "one_peer \<equiv> \<lambda>_. sample_tick [] [other_peer]"

lemma one_peer_broadcast:
  assumes "p_own_pa (a_peer s) \<noteq> other_peer" "p_open (a_peer s) < 1024"
  shows "\<exists>s'. app_broadcast one_peer data s = Inr (1, s') \<and> a_inbox s' = a_inbox s \<and> core s' = core s \<and>
    p_own_pa (a_peer s') = p_own_pa (a_peer s) \<and> p_open (a_peer s') \<le> p_open (a_peer s) + 1"
proof -
  obtain frame where "frame_of P2P data = Some frame"
    using frame_of_total by blast
  with assms have "\<exists>s'. app_broadcast one_peer data s = Inr (1, s') \<and> a_inbox s' = a_inbox s \<and>
    p_own_pa (a_peer s') = p_own_pa (a_peer s) \<and> p_open (a_peer s') \<le> p_open (a_peer s) + 1"
    by (auto simp: app_broadcast_def broadcast_def broadcast_loop_eq Let_def)
  then show ?thesis
    using core_app_broadcast by blast
qed

lemma one_peer_request:
  assumes "p_own_pa (a_peer s) \<noteq> other_peer" "p_open (a_peer s) < 1024" "a_inbox s = m # rest"
    and answer: "\<And>i s. a_bc s = bc \<Longrightarrow> request_message one_peer i m request_init s = Inr (l, s)" "a_bc s = bc"
    and l: "length (rl_clients_seen l) = 1" "rl_read_messages l = []"
      "checkMajority lb 1 1 (rl_no_block l) (rl_messages l) = (True, r)"
  shows "\<exists>s'. RequestBlockchainBlock (Suc n) one_peer lb s = Inr ((True, r), s') \<and> a_inbox s' = rest \<and> core s' = core s \<and>
    p_own_pa (a_peer s') = p_own_pa (a_peer s) \<and> p_open (a_peer s') \<le> p_open (a_peer s) + 1"
proof -
  let ?req = "bmh_bytes \<lparr>bmh_type = blockchain_type_code REQUESTBLOCK, bmh_peer_address = p_own_pa (a_peer s),
      bmh_index = chain_size s\<rparr>"
  obtain s1 where s1: "app_broadcast one_peer ?req s = Inr (1, s1)" "a_inbox s1 = a_inbox s" "core s1 = core s"
    "p_own_pa (a_peer s1) = p_own_pa (a_peer s)" "p_open (a_peer s1) \<le> p_open (a_peer s) + 1"
    using one_peer_broadcast [OF assms(1,2)] by blast
  define s2 where "s2 = (sync one_peer s1)\<lparr>a_inbox := rest\<rparr>"
  have bc: "a_bc s2 = bc"
    using core_bc [OF s1(3)] answer(2) by (simp add: s2_def)
  have s2: "take_message one_peer s1 = Inr (Some m, s2)"
    using s1(2) assms(3) by (simp add: sample_take s2_def)
  define s3 where "s3 = (sync one_peer s2)\<lparr>a_inbox := rest\<rparr>"
  have "place_back one_peer [] s2 = Inr s3"
    by (simp add: sample_place_back s3_def s2_def)
  then have "request_body one_peer (chain_size s) 1 (lb, request_init, s1) = Inr (Inl ((True, r), s3))"
    using s2 answer(1) [OF bc] l by (simp add: request_body_def request_init_def Let_def)
  then have "RequestBlockchainBlock (Suc n) one_peer lb s = Inr ((True, r), s3)"
    using s1(1) by (simp add: RequestBlockchainBlock_def Let_def)
  then show ?thesis
    using s1 by (auto simp: s3_def s2_def core_def)
qed

lemma one_peer_fetches:
  "\<exists>s'. RequestBlockchain 2 one_peer (sample_app genesis [sample_answer, no_block_answer]) = Inr s' \<and>
    a_bc s' = genesis @ [sample_block]"
proof -
  let ?s = "log_entry one_peer (LogRequestBlock 1) (sample_app genesis [sample_answer, no_block_answer])"
  let ?l = "request_init\<lparr>rl_clients_seen := [other_peer], rl_messages := [(GetHash sample_block, sample_block, 1)]\<rparr>"
  let ?l' = "request_init\<lparr>rl_clients_seen := [other_peer], rl_no_block := 1\<rparr>"
  have log: "a_bc (log_entry one_peer e s) = a_bc s" "a_inbox (log_entry one_peer e s) = a_inbox s"
    "p_own_pa (a_peer (log_entry one_peer e s)) = p_own_pa (a_peer s)" "p_open (a_peer (log_entry one_peer e s)) = p_open (a_peer s)"
    for e s
    by (simp_all add: log_entry_def Let_def)
  have "\<exists>s'. RequestBlockchainBlock (Suc 1) one_peer None ?s = Inr ((True, Some sample_block), s') \<and>
    a_inbox s' = [no_block_answer] \<and> core s' = core ?s \<and> p_own_pa (a_peer s') = p_own_pa (a_peer ?s) \<and>
    p_open (a_peer s') \<le> p_open (a_peer ?s) + 1"
  proof (rule one_peer_request [where m = sample_answer and bc = genesis and l = ?l])
    show "request_message one_peer i sample_answer request_init s = Inr (?l, s)" if "a_bc s = genesis" for i and s :: app
      unfolding sample_answer_def
      by (subst request_message_counts) (simp_all add: that sample_block_next request_init_def)
  qed (simp_all add: log request_init_def checkMajority_def majority_scan_def size_minus_def)
  then obtain s1 where s1: "RequestBlockchainBlock 2 one_peer None ?s = Inr ((True, Some sample_block), s1)"
    "a_inbox s1 = [no_block_answer]" "core s1 = core ?s" "p_own_pa (a_peer s1) \<noteq> other_peer" "p_open (a_peer s1) \<le> 3"
    by (auto simp: log numeral_2_eq_2)
  define s2 where "s2 = (log_entry one_peer (LogReceivedBlock 1 True) s1)\<lparr>a_bc := genesis @ [sample_block]\<rparr>"
  have bc1: "a_bc s1 = genesis"
    using core_bc [OF s1(3)] by (simp add: log)
  then have add: "add_block (GetData sample_block) (log_entry one_peer (LogReceivedBlock 1 True) s1) = Inr s2"
    by (simp add: add_block_def log add_next_block [OF sample_block_next] s2_def)
  let ?s2 = "log_entry one_peer (LogRequestBlock 2) s2"
  have "\<exists>s'. RequestBlockchainBlock (Suc 1) one_peer (Some sample_block) ?s2 = Inr ((True, None), s') \<and>
    a_inbox s' = [] \<and> core s' = core ?s2 \<and> p_own_pa (a_peer s') = p_own_pa (a_peer ?s2) \<and>
    p_open (a_peer s') \<le> p_open (a_peer ?s2) + 1"
  proof (rule one_peer_request [where m = no_block_answer and bc = "genesis @ [sample_block]" and l = ?l'])
    show "request_message one_peer i no_block_answer request_init s = Inr (?l', s)" for i and s :: app
      using read_bmh_bytes [of "\<lparr>bmh_type = blockchain_type_code NOBLOCK, bmh_peer_address = other_peer, bmh_index = 2\<rparr>" "[]"]
      by (simp add: request_message_def no_block_answer_def request_init_def client_found_def Let_def)
  qed (use s1(2,4,5) in \<open>simp_all add: log s2_def request_init_def checkMajority_def\<close>)
  then obtain s3 where s3: "RequestBlockchainBlock 2 one_peer (Some sample_block) ?s2 = Inr ((True, None), s3)" "core s3 = core ?s2"
    by (auto simp: numeral_2_eq_2)
  have "a_bc s3 = genesis @ [sample_block]"
    using core_bc [OF s3(2)] by (simp add: log s2_def)
  moreover have "Size genesis = 1" "Size (genesis @ [sample_block]) = 2"
    by (simp_all add: genesis_eq Size_def)
  then have "request_chain 2 one_peer (None, sample_app genesis [sample_answer, no_block_answer]) = Inr (Inr (Some sample_block, s2))"
    "request_chain 2 one_peer (Some sample_block, s2) = Inr (Inl (log_entry one_peer (LogReceivedBlock 2 True) s3))"
    using s1(1) s3(1) add by (simp_all add: request_chain_def request_again_def Let_def numeral_2_eq_2 s2_def [symmetric])
      (simp_all add: s2_def)
  ultimately show ?thesis
    by (simp add: RequestBlockchain_def numeral_2_eq_2 log)
qed

text \<open>
  C7: Catching up appends to the chain exactly blocks that peers have sent: afterwards the chain is the old one followed by
  blocks each of which arrived, with its data, its hash and its previous hash, in a block message that was in the mailbox or
  came while catching up, and each of which continues the chain before it, so a valid chain stays valid. Transactions and
  candidates are as before. (A chain of blocks under other hashes than those that arrived is what adding the data of blocks that
  do not fit would give.)
\<close>

theorem RequestBlockchain_extends:
  assumes "world_ok w" "chain_valid SHA256FromDataAndHash default_T (a_bc s)" "RequestBlockchain fuel w s = Inr s'"
  shows "(\<exists>bs. a_bc s' = a_bc s @ bs \<and> (\<forall>b \<in> set bs. \<exists>inbox_item \<in> heard w s s'. sent_block inbox_item = Some b)) \<and>
    chain_valid SHA256FromDataAndHash default_T (a_bc s') \<and> a_transactions s' = a_transactions s \<and>
    a_candidates s' = a_candidates s"
  using RequestBlockchain_caught_up [OF assms(1,3)] RequestBlockchain_fetched [OF assms(1,3)] follows_valid [OF _ assms(2)]
  by (auto simp: caught_up_def fetched_def sent_blocks_def)

theorem RequestBlockchain_extends_witness:
  "\<exists>s'. RequestBlockchain 2 (\<lambda>_. sample_tick [] [other_peer]) (sample_app genesis [sample_answer, no_block_answer]) = Inr s' \<and>
    a_bc s' = genesis @ [sample_block] \<and> chain_valid SHA256FromDataAndHash default_T (a_bc s') \<and>
    (\<exists>inbox_item \<in> heard (\<lambda>_. sample_tick [] [other_peer]) (sample_app genesis [sample_answer, no_block_answer]) s'.
      sent_block inbox_item = Some sample_block)"
proof -
  obtain s' where run: "RequestBlockchain 2 one_peer (sample_app genesis [sample_answer, no_block_answer]) = Inr s'"
    "a_bc s' = genesis @ [sample_block]"
    using one_peer_fetches by blast
  from RequestBlockchain_extends [OF _ _ run(1)] run(2)
  have "chain_valid SHA256FromDataAndHash default_T (a_bc s') \<and>
    (\<exists>inbox_item \<in> heard one_peer (sample_app genesis [sample_answer, no_block_answer]) s'. sent_block inbox_item = Some sample_block)"
    by auto
  with run show ?thesis
    by blast
qed

text \<open>
  A peer whose other peers never answer does not get past catching up: with listed peers and no message ever arriving,
  \<^verbatim>\<open>RequestBlockchain\<close> returns for no amount of fuel (each round it gives up and asks again).
\<close>

theorem RequestBlockchain_silent:
  assumes "\<forall>t. tk_arrivals (w t) = [] \<and> (\<forall>p. \<exists>pas. p_network_info (tk_peer (w t) p) = Some pas \<and>
      p_n_peers (tk_peer (w t) p) = length pas \<and> (\<exists>pa \<in> set pas. pa \<noteq> p_own_pa (tk_peer (w t) p)))"
    "a_inbox s = []"
  shows "RequestBlockchain fuel w s \<noteq> Inr s'"
  by (rule silent_RequestBlockchain) (use assms in \<open>simp_all add: silent_def\<close>)

theorem RequestBlockchain_silent_witness:
  "\<forall>fuel s'. RequestBlockchain fuel (\<lambda>t. sample_tick [] [other_peer, init_peer_address 2 82 1]) (sample_app genesis []) \<noteq> Inr s'"
proof -
  have other: "\<exists>pa \<in> set [other_peer, init_peer_address 2 82 1]. pa \<noteq> q" for q
    by (auto simp: other_peer_def init_peer_address_def)
  have "RequestBlockchain fuel (\<lambda>t. sample_tick [] [other_peer, init_peer_address 2 82 1]) (sample_app genesis []) \<noteq> Inr s'"
    for fuel s'
    by (rule RequestBlockchain_silent) (use other in simp_all)
  then show ?thesis by blast
qed

text \<open>
  An answer fits its question: the peer that is asked for block \<open>i\<close> sends, to the address in the request, one frame whose
  payload has even length, and a peer whose chain is the first \<open>i\<close> blocks of the sender's counts that payload as a vote
  of the sender for exactly the block at index \<open>i\<close>.
\<close>

theorem SendBlockchain_answer_counts:
  assumes "SendBlockchain w mh s = Inr s'" "chain_valid SHA256FromDataAndHash default_T (a_bc s)"
    "\<forall>b \<in> set (a_bc s). length (blk_data b) = sizeof_T" "0 < unat (bmh_index mh)" "unat (bmh_index mh) < Size (a_bc s)"
    "a_bc s2 = take (unat (bmh_index mh)) (a_bc s)" "p_own_pa (a_peer s) \<notin> set (rl_clients_seen l)"
  shows "\<exists>frame payload. frame_of P2P payload = Some frame \<and> even (length payload) \<and>
    a_sent s' = a_sent s @ [(frame, create_sockaddr_in (bmh_peer_address mh))] \<and>
    (let b = a_bc s ! unat (bmh_index mh) in
     request_message w2 index (payload, n) l s2 =
       Inr (l\<lparr>rl_clients_seen := rl_clients_seen l @ [p_own_pa (a_peer s)],
              rl_messages := (if map_of (rl_messages l) (GetHash b) \<noteq> None then map_count (GetHash b) (rl_messages l)
                              else map_insert (GetHash b) (b, 1) (rl_messages l))\<rparr>, s2))"
proof -
  let ?b = "a_bc s ! unat (bmh_index mh)"
  note b = prefix_next_block [OF assms(2-5)]
  have answer: "answer_to mh s = bmh_bytes \<lparr>bmh_type = blockchain_type_code BLOCK, bmh_peer_address = p_own_pa (a_peer s),
      bmh_index = bmh_index mh\<rparr> @ DataFromBlock ?b"
    using assms(5) by (simp add: answer_to_def GetBlockFromIndex_def Size_def Let_def)
  have "even (length (answer_to mh s))"
    using b by (simp add: answer length_DataFromBlock next_block_def sizeof_T_def MAX_TRANSACTIONS_def)
  moreover obtain frame where "frame_of P2P (answer_to mh s) = Some frame"
    "a_sent s' = a_sent s @ [(frame, create_sockaddr_in (bmh_peer_address mh))]"
    using SendBlockchain_sends [OF assms(1)] by blast
  moreover have "request_message w2 index (answer_to mh s, n) l s2 =
      Inr (l\<lparr>rl_clients_seen := rl_clients_seen l @ [p_own_pa (a_peer s)],
             rl_messages := (if map_of (rl_messages l) (GetHash ?b) \<noteq> None then map_count (GetHash ?b) (rl_messages l)
                             else map_insert (GetHash ?b) (?b, 1) (rl_messages l))\<rparr>, s2)"
    unfolding answer by (rule request_message_counts) (use b assms(6,7) in simp_all)
  ultimately show ?thesis
    unfolding Let_def by blast
qed

lemma sample_respond:
  "\<exists>s'. app_respond (\<lambda>t. sample_tick (ms t) pas) data pa (sample_app bc inbox) = Inr s'"
proof -
  obtain frame where "frame_of P2P data = Some frame"
    using frame_of_total by blast
  then show ?thesis
    by (simp add: app_respond_def respond_def client_socket_eq Let_def)
qed

theorem SendBlockchain_answer_counts_witness:
  "\<exists>s' payload frame. SendBlockchain (\<lambda>t. sample_tick [] [])
      \<lparr>bmh_type = 1, bmh_peer_address = other_peer, bmh_index = 1\<rparr> (sample_app (genesis @ [sample_block]) []) = Inr s' \<and>
    frame_of P2P payload = Some frame \<and> a_sent s' = [(frame, create_sockaddr_in other_peer)] \<and>
    (\<exists>l. request_message (\<lambda>t. sample_tick [] []) 1 (payload, 1776) request_init (sample_app genesis []) =
      Inr (l, sample_app genesis []) \<and> rl_messages l = [(GetHash sample_block, sample_block, 1)])"
proof -
  let ?s = "sample_app (genesis @ [sample_block]) []" and ?w = "\<lambda>t :: nat. sample_tick [] []"
  let ?mh = "\<lparr>bmh_type = 1, bmh_peer_address = other_peer, bmh_index = 1\<rparr>"
  have top: "GetBlockFromIndex (unat (1 :: size_t)) (genesis @ [sample_block]) = Some sample_block"
    by (simp add: GetBlockFromIndex_def Size_def genesis_eq)
  obtain s1 where "app_respond ?w (answer_to ?mh ?s) other_peer ?s = Inr s1"
    using sample_respond [of "\<lambda>_. []" "[]"] by blast
  then obtain s' where run: "SendBlockchain ?w ?mh ?s = Inr s'"
    using top by (simp add: SendBlockchain_def answer_to_def Let_def)
  have valid: "chain_valid SHA256FromDataAndHash default_T (genesis @ [sample_block])"
    using follows_valid [OF _ genesis_valid, of "[sample_block]"] sample_block_next by simp
  have block: "(genesis @ [sample_block]) ! 1 = sample_block" "take 1 (genesis @ [sample_block]) = genesis"
    by (simp_all add: genesis_eq)
  have sizes: "\<forall>b \<in> set (genesis @ [sample_block]). length (blk_data b) = sizeof_T"
    using sample_block_sizes(3) by (auto simp: genesis_eq default_T_def GetData_def)
  have size: "Size (genesis @ [sample_block]) = 2"
    by (simp add: Size_def genesis_eq)
  let ?l = "request_init\<lparr>rl_clients_seen := [p_own_pa (sample_peer [])],
    rl_messages := [(GetHash sample_block, sample_block, 1)]\<rparr>"
  have init: "rl_messages request_init = []" "rl_clients_seen request_init = []"
    by (simp_all add: request_init_def)
  obtain frame payload where "frame_of P2P payload = Some frame" "a_sent s' = [(frame, create_sockaddr_in other_peer)]"
    "request_message ?w 1 (payload, 1776) request_init (sample_app genesis []) = Inr (?l, sample_app genesis [])"
    using SendBlockchain_answer_counts [OF run, of "sample_app genesis []" request_init ?w 1 1776] valid sizes block size init
    by (auto simp: Let_def)
  moreover have "rl_messages ?l = [(GetHash sample_block, sample_block, 1)]"
    by simp
  ultimately show ?thesis
    using run by blast
qed

end
