(* ===== verification/Voting.thy ===== *)
theory Voting
  imports ChainSync "HOL-Library.Sublist"
begin

text \<open>
  Adding a block, from \<^verbatim>\<open>application/application.cc\<close>: a peer proposes a block with a proof of work, every peer checks it
  and broadcasts its vote, every peer counts the votes, and the accepted block with the lowest hash is added. Counting
  votes can handle another request, which counts votes in turn: fuel bounds the depth of this recursion and the
  iterations of each loop.
\<close>

section \<open>Voting on a request\<close>

text \<open>The conditions for an agreeing vote, in the order in which the code checks them.\<close>

definition check_request :: "addition_request \<Rightarrow> b_type \<Rightarrow> bytes \<Rightarrow> app \<Rightarrow> stop + bool" where
  "check_request request_bar b key s =
     (let hash = SHA256FromBlock b in
      if bmh_index (bar_bmh request_bar) < chain_size s then Inr False
      else attempt (from_option Undefined (GetTopHash (a_bc s))) (\<lambda>top.
        if GetPrevHash b \<noteq> top then Inr False
        else if GetHash b \<noteq> SHA256FromDataAndHash (GetData b) (GetPrevHash b) then Inr False
        else attempt (from_option Undefined (CheckSolution DIFFICULTY hash key)) (\<lambda>solved.
          if \<not> solved then Inr False else Inr True)))"

text \<open>
  \<open>check_votes\<close> is the call of \<^verbatim>\<open>CheckVotesForBlock\<close>. A new block takes the next allocation number.
\<close>

definition handle_addition_request ::
  "(nat \<Rightarrow> b_type \<Rightarrow> bool \<Rightarrow> app \<Rightarrow> stop + bool \<times> app) \<Rightarrow> world \<Rightarrow> message \<Rightarrow> bool \<Rightarrow> app \<Rightarrow> stop + bool \<times> app" where
  "handle_addition_request check_votes w request allow_agree s =
     (let request_message = fst request in
      attempt (from_option Undefined (read_bmh request_message)) (\<lambda>mh.
      if bmh_index mh > chain_size s then
        attempt (push_message w request s) (\<lambda>s. Inr (False, s))
      else
        attempt (from_option Undefined (read_request request_message)) (\<lambda>request_bar.
        let pow_size = unat (bar_pow_size request_bar) in
        attempt (from_option Undefined (BlockFromData (drop (32 + pow_size) request_message))) (\<lambda>b.
        let id = a_next s; s = s\<lparr>a_next := a_next s + 1\<rparr>; block_hash = GetHash b in
        attempt (from_option Undefined (read_bytes request_message 32 pow_size)) (\<lambda>key.
        attempt (check_request request_bar b key s) (\<lambda>ok.
        let vote = \<lparr>bv_bmh = \<lparr>bmh_type = blockchain_type_code VOTE, bmh_peer_address = p_own_pa (a_peer s),
                              bmh_index = bmh_index (bar_bmh request_bar)\<rparr>,
                    bv_agree = (if ok then allow_agree else False), bv_hash_size = of_nat (length block_hash)\<rparr>
        in
        attempt (app_broadcast w (vote_bytes vote @ block_hash) s) (\<lambda>(n_peers, s).
        if allow_agree then
          attempt (check_votes n_peers b (bv_agree vote) s) (\<lambda>(accepted, s).
          if accepted then Inr (bv_agree vote, s\<lparr>a_candidates := a_candidates s @ [(id, b)]\<rparr>)
          else Inr (bv_agree vote, s))
        else Inr (bv_agree vote, s))))))))"

section \<open>Counting votes\<close>

record vote_locals =
  vl_tries :: nat
  vl_n_agrees :: nat
  vl_n_disagrees :: nat
  vl_read_messages :: "message list"
  vl_clients_seen :: "peer_address list"

definition vote_init :: "bool \<Rightarrow> vote_locals" where
  "vote_init own_vote = \<lparr>vl_tries = 0, vl_n_agrees = (if own_vote then 1 else 0), vl_n_disagrees = (if own_vote then 0 else 1),
     vl_read_messages = [], vl_clients_seen = []\<rparr>"

text \<open>A vote for the block at the next index, from a client that has not been counted.\<close>

definition count_vote :: "bytes \<Rightarrow> b_type \<Rightarrow> vote_locals \<Rightarrow> stop + vote_locals" where
  "count_vote msg req_block l =
     attempt (from_option Undefined (read_vote msg)) (\<lambda>vote.
     attempt (from_option Undefined (read_bytes msg 40 (unat (bv_hash_size vote)))) (\<lambda>block_hash.
     let clnt = bmh_peer_address (bv_bmh vote) in
     if \<not> client_found clnt (vl_clients_seen l) then
       (if block_hash = GetHash req_block then
          (let l = (if bv_agree vote then l\<lparr>vl_n_agrees := vl_n_agrees l + 1\<rparr> else l\<lparr>vl_n_disagrees := vl_n_disagrees l + 1\<rparr>)
           in Inr (l\<lparr>vl_clients_seen := vl_clients_seen l @ [clnt]\<rparr>))
        else Inr l)
     else Inr l))"

text \<open>
  Handling one message: \<open>Inl\<close> is the early \<^verbatim>\<open>return false\<close>, which leaves the messages set aside where they
  are.
\<close>

definition vote_message ::
  "(message \<Rightarrow> bool \<Rightarrow> app \<Rightarrow> stop + bool \<times> app) \<Rightarrow> world \<Rightarrow> b_type \<Rightarrow> message \<Rightarrow> vote_locals \<Rightarrow> app \<Rightarrow>
     stop + (bool \<times> app + vote_locals \<times> app)" where
  "vote_message handle w req_block inbox_item l s =
     (let msg = fst inbox_item; set_aside = l\<lparr>vl_read_messages := vl_read_messages l @ [inbox_item]\<rparr> in
      attempt (from_option Undefined (read_bmh msg)) (\<lambda>mh.
      if bmh_type mh = blockchain_type_code VOTE \<and> bmh_index mh \<le> chain_size s then
        (if bmh_index mh = chain_size s then attempt (count_vote msg req_block l) (\<lambda>l. Inr (Inr (l, s)))
         else Inr (Inr (l, s)))
      else if bmh_type mh = blockchain_type_code VOTE then Inr (Inr (set_aside, s))
      else if bmh_type mh = blockchain_type_code REQUESTBLOCK then
        (if bmh_index mh \<le> chain_size s then attempt (SendBlockchain w mh s) (\<lambda>s. Inr (Inr (l, s)))
         else Inr (Inr (set_aside, s)))
      else if bmh_type mh = blockchain_type_code ADDREQUEST then
        (if bmh_index mh = chain_size s then
           attempt (from_option Undefined (read_request msg)) (\<lambda>request_bar.
           attempt (from_option Undefined (BlockFromData (drop (32 + unat (bar_pow_size request_bar)) msg))) (\<lambda>b.
           if GetHash b \<le> GetHash req_block then
             attempt (handle inbox_item True s) (\<lambda>(agreed, s).
             if agreed then Inr (Inl (False, s)) else Inr (Inr (l, s)))
           else
             attempt (handle inbox_item False s) (\<lambda>(_, s). Inr (Inr (l, s)))))
         else Inr (Inr (set_aside, s)))
      else Inr (Inr (l, s))))"

text \<open>One iteration of the \<^verbatim>\<open>while\<close> loop; \<open>n_peers\<close> already includes this peer.\<close>

definition votes_body ::
  "(message \<Rightarrow> bool \<Rightarrow> app \<Rightarrow> stop + bool \<times> app) \<Rightarrow> world \<Rightarrow> nat \<Rightarrow> b_type \<Rightarrow> vote_locals \<times> app \<Rightarrow>
     stop + (bool \<times> app + vote_locals \<times> app)" where
  "votes_body handle w n_peers req_block = (\<lambda>(l, s).
     let finish = (\<lambda>result l s. attempt (place_back w (vl_read_messages l) s) (\<lambda>s. Inr (Inl (result, s))));
         give_up = (\<lambda>l s. if vl_tries l \<ge> n_peers * nat n_tries then finish False l s else Inr (Inr (l, s)))
     in
     if length (vl_clients_seen l) + 1 < n_peers then
       attempt (take_message w s) (\<lambda>(item, s).
       case item of
         Some inbox_item \<Rightarrow>
           attempt (vote_message handle w req_block inbox_item l s) (\<lambda>out.
           case out of
             Inl early \<Rightarrow> Inr (Inl early)
           | Inr (l, s) \<Rightarrow>
               if vl_n_agrees l > n_peers div 2 then finish True l s
               else if vl_n_disagrees l > n_peers div 2 then finish False l s
               else give_up l s)
       | None \<Rightarrow> give_up (l\<lparr>vl_tries := vl_tries l + 1\<rparr>) s)
     else
       finish (vl_n_agrees l > size_minus (vl_n_disagrees l + n_peers) (length (vl_clients_seen l) + 1)) l s)"

primrec CheckVotesForBlock :: "nat \<Rightarrow> world \<Rightarrow> nat \<Rightarrow> b_type \<Rightarrow> bool \<Rightarrow> app \<Rightarrow> stop + bool \<times> app" where
  "CheckVotesForBlock 0 w n_peers req_block own_vote s = Inl Out_of_fuel"
| "CheckVotesForBlock (Suc fuel) w n_peers req_block own_vote s =
     repeat_body (Suc fuel)
       (votes_body (handle_addition_request (CheckVotesForBlock fuel w) w) w (n_peers + 1) req_block)
       (vote_init own_vote, s)"

definition HandleBlockAdditionRequest :: "nat \<Rightarrow> world \<Rightarrow> message \<Rightarrow> bool \<Rightarrow> app \<Rightarrow> stop + bool \<times> app" where
  "HandleBlockAdditionRequest fuel w = handle_addition_request (CheckVotesForBlock fuel w) w"

section \<open>Proposing a block\<close>

definition solve :: "bytes \<Rightarrow> stop + bytes" where
  "solve seed = attempt (from_option Out_of_fuel (SolveProblem DIFFICULTY seed)) (\<lambda>r.
     case r of Inl _ \<Rightarrow> Inl Undefined | Inr key \<Rightarrow> Inr key)"

definition AddBlockToBlockchain :: "nat \<Rightarrow> world \<Rightarrow> bytes \<Rightarrow> app \<Rightarrow> stop + (nat \<times> b_type) option \<times> app" where
  "AddBlockToBlockchain fuel w data s =
     attempt (from_option Undefined (SneakPeekBlock SHA256FromDataAndHash data raw_block (a_bc s))) (\<lambda>new_block.
     let id = a_next s; s = s\<lparr>a_next := a_next s + 1\<rparr>;
         new_block_hash = SHA256FromBlock new_block;
         new_block_data = DataFromBlock new_block
     in
     attempt (solve new_block_hash) (\<lambda>pow.
     let own_pa = p_own_pa (a_peer s);
         request_bar = \<lparr>bar_bmh = \<lparr>bmh_type = blockchain_type_code ADDREQUEST, bmh_peer_address = own_pa,
                                   bmh_index = chain_size s\<rparr>, bar_pow_size = of_nat (length pow)\<rparr>
     in
     attempt (app_broadcast w (request_bytes request_bar @ pow @ new_block_data) s) (\<lambda>(n_peers, s).
     attempt (CheckVotesForBlock fuel w n_peers new_block True s) (\<lambda>(accepted, s).
     let vote = \<lparr>bv_bmh = \<lparr>bmh_type = blockchain_type_code VOTE, bmh_peer_address = own_pa,
                           bmh_index = bmh_index (bar_bmh request_bar)\<rparr>,
                 bv_agree = accepted, bv_hash_size = of_nat (length (GetHash new_block))\<rparr>
     in
     attempt (app_broadcast w (vote_bytes vote @ GetHash new_block) s) (\<lambda>(_, s).
     if \<not> accepted then Inr (None, s)
     else Inr (Some (id, new_block), s\<lparr>a_candidates := a_candidates s @ [(id, new_block)]\<rparr>))))))"

section \<open>Handling all requests\<close>

definition requests_body :: "nat \<Rightarrow> world \<Rightarrow> message list \<times> app \<Rightarrow> stop + (message list \<times> app + message list \<times> app)" where
  "requests_body fuel w = (\<lambda>(read_messages, s).
     attempt (take_message w s) (\<lambda>(item, s).
     case item of
       None \<Rightarrow> Inr (Inl (read_messages, s))
     | Some inbox_item \<Rightarrow>
         attempt (from_option Undefined (read_bmh (fst inbox_item))) (\<lambda>mh.
         if bmh_type mh = blockchain_type_code ADDREQUEST \<and> bmh_index mh = chain_size s then
           attempt (HandleBlockAdditionRequest fuel w inbox_item True s) (\<lambda>(_, s). Inr (Inr (read_messages, s)))
         else Inr (Inr (read_messages @ [inbox_item], s)))))"

text \<open>The loop over the candidates behind the first.\<close>

fun best_of :: "nat \<times> b_type \<Rightarrow> (nat \<times> b_type) list \<Rightarrow> nat \<times> b_type" where
  "best_of best [] = best"
| "best_of best (c # cs) = (if GetHash (snd c) \<le> GetHash (snd best) then best_of c cs else best_of best cs)"

definition HandleAllBlockAdditionRequests :: "nat \<Rightarrow> world \<Rightarrow> app \<Rightarrow> stop + (nat \<times> b_type) option \<times> app" where
  "HandleAllBlockAdditionRequests fuel w s =
     attempt (repeat_body fuel (requests_body fuel w) ([], s)) (\<lambda>(read_messages, s).
     let (best, s) = (case a_candidates s of
             c # cs \<Rightarrow> (Some (best_of c cs), s\<lparr>a_candidates := []\<rparr>)
           | [] \<Rightarrow> (None, s))
     in attempt (place_back w read_messages s) (\<lambda>s. Inr (best, s)))"

section \<open>What counting votes changes\<close>

text \<open>
  The chain and the transactions stay, sent datagrams and candidates only grow, new candidates are whole blocks, and
  allocation numbers are handed out once.
\<close>

definition grows :: "app \<Rightarrow> app \<Rightarrow> bool" where
  "grows s s' \<longleftrightarrow> a_bc s' = a_bc s \<and> a_transactions s' = a_transactions s \<and> a_next s \<le> a_next s' \<and>
     (\<exists>out. a_sent s' = a_sent s @ out) \<and>
     (\<exists>cs. a_candidates s' = a_candidates s @ cs \<and>
        (\<forall>(id, b) \<in> set cs. a_next s \<le> id \<and> id < a_next s' \<and> length (GetData b) = sizeof_T))"

lemma grows_refl [simp]: "grows s s"
  by (simp add: grows_def)

lemma grows_trans [trans]:
  assumes "grows s s'" "grows s' s''"
  shows "grows s s''"
proof -
  obtain out cs where 1: "a_sent s' = a_sent s @ out" "a_candidates s' = a_candidates s @ cs"
    "\<forall>(id, b) \<in> set cs. a_next s \<le> id \<and> id < a_next s' \<and> length (GetData b) = sizeof_T" "a_next s \<le> a_next s'"
    using assms(1) by (auto simp: grows_def)
  obtain out' cs' where 2: "a_sent s'' = a_sent s' @ out'" "a_candidates s'' = a_candidates s' @ cs'"
    "\<forall>(id, b) \<in> set cs'. a_next s' \<le> id \<and> id < a_next s'' \<and> length (GetData b) = sizeof_T" "a_next s' \<le> a_next s''"
    using assms(2) by (auto simp: grows_def)
  have "\<forall>(id, b) \<in> set (cs @ cs'). a_next s \<le> id \<and> id < a_next s'' \<and> length (GetData b) = sizeof_T"
    using 1(3,4) 2(3,4) by fastforce
  with 1 2 assms show ?thesis
    by (auto simp: grows_def)
qed

lemma grows_core: "core s' = core s \<Longrightarrow> a_sent s' = a_sent s @ out \<Longrightarrow> grows s s'"
  by (auto simp: grows_def core_def)

lemma grows_take: "take_message w s = Inr (m, s') \<Longrightarrow> grows s s'"
  by (frule core_take_message, rule grows_core [where out = "[]"])
     (auto simp: take_message_def Let_def attempt_eq_Inr split: list.splits)

lemma grows_push: "push_message w m s = Inr s' \<Longrightarrow> grows s s'"
  by (frule core_push_message, rule grows_core [where out = "[]"]) (auto simp: push_message_def Let_def attempt_eq_Inr)

lemma grows_place_back: "place_back w ms s = Inr s' \<Longrightarrow> grows s s'"
  by (frule core_place_back, rule grows_core [where out = "[]"]) (auto simp: place_back_def Let_def attempt_eq_Inr)

text \<open>The peers that a broadcast goes to: those on the list when it starts, without the sender.\<close>

definition recipients :: "world \<Rightarrow> app \<Rightarrow> peer_address list" where
  "recipients w s = (let p = tk_peer (w (a_clock s)) (a_peer s) in
     case p_network_info p of None \<Rightarrow> [] | Some pas \<Rightarrow> filter (\<lambda>pa. pa \<noteq> p_own_pa p) (take (p_n_peers p) pas))"

lemma recipients_next [simp]: "recipients w (s\<lparr>a_next := k\<rparr>) = recipients w s"
  by (simp add: recipients_def)

lemma app_broadcast_sends:
  assumes "app_broadcast w data s = Inr (n, s')"
  shows "\<exists>frame. frame_of P2P data = Some frame \<and> length (recipients w s) = n \<and>
    a_sent s' = a_sent s @ map (\<lambda>pa. (frame, create_sockaddr_in pa)) (recipients w s)"
proof -
  obtain frame where "frame_of P2P data = Some frame"
    using frame_of_total by blast
  with assms show ?thesis
    by (auto simp: recipients_def app_broadcast_def Let_def attempt_convs broadcast_def bind_eq_Some_conv broadcast_loop_eq
        split: if_splits option.splits)
qed

lemma grows_broadcast: "app_broadcast w data s = Inr (n, s') \<Longrightarrow> grows s s'"
  using app_broadcast_sends core_app_broadcast by (metis grows_core)

lemma grows_SendBlockchain: "SendBlockchain w mh s = Inr s' \<Longrightarrow> grows s s'"
  using SendBlockchain_sends core_SendBlockchain by (metis grows_core)

lemmas grows_steps = grows_take grows_push grows_place_back grows_broadcast grows_SendBlockchain

lemma grows_new_id: "grows s (s\<lparr>a_next := a_next s + 1\<rparr>)"
  by (simp add: grows_def)

lemma grows_candidate: "grows (s\<lparr>a_next := a_next s + 1\<rparr>) s' \<Longrightarrow> length (GetData b) = sizeof_T \<Longrightarrow> grows s (s'\<lparr>a_candidates := a_candidates s' @ [(a_next s, b)]\<rparr>)"
  by (fastforce simp: grows_def)

text \<open>The vote that answers a request, as it is broadcast.\<close>

definition vote_payload :: "app \<Rightarrow> size_t \<Rightarrow> bool \<Rightarrow> b_type \<Rightarrow> bytes" where
  "vote_payload s index agree b =
     vote_bytes \<lparr>bv_bmh = \<lparr>bmh_type = blockchain_type_code VOTE, bmh_peer_address = p_own_pa (a_peer s), bmh_index = index\<rparr>,
                 bv_agree = agree, bv_hash_size = of_nat (length (GetHash b))\<rparr> @ GetHash b"

lemma handle_addition_request_cases:
  assumes "handle_addition_request check_votes w request allow_agree s = Inr (v, s')"
  obtains
    (early) mh where "read_bmh (fst request) = Some mh" "chain_size s < bmh_index mh" "push_message w request s = Inr s'" "\<not> v"
  | (voted) r b key ok n s1 where
      "read_bmh (fst request) = Some (bar_bmh r)" "\<not> chain_size s < bmh_index (bar_bmh r)" "read_request (fst request) = Some r"
      "BlockFromData (drop (32 + unat (bar_pow_size r)) (fst request)) = Some b"
      "read_bytes (fst request) 32 (unat (bar_pow_size r)) = Some key"
      "check_request r b key s = Inr ok" "v \<longleftrightarrow> ok \<and> allow_agree"
      "app_broadcast w (vote_payload s (bmh_index (bar_bmh r)) v b) (s\<lparr>a_next := a_next s + 1\<rparr>) = Inr (n, s1)"
      "if allow_agree then \<exists>accepted s2. check_votes n b v s1 = Inr (accepted, s2) \<and>
         s' = (if accepted then s2\<lparr>a_candidates := a_candidates s2 @ [(a_next s, b)]\<rparr> else s2) else s' = s1"
proof -
  obtain mh where mh: "read_bmh (fst request) = Some mh"
    using assms by (auto simp: handle_addition_request_def Let_def attempt_convs)
  show ?thesis
  proof (cases "chain_size s < bmh_index mh")
    case True
    with assms mh early show ?thesis
      by (auto simp: handle_addition_request_def Let_def attempt_convs)
  next
    case False
    have same: "check_request r b key (s\<lparr>a_next := k\<rparr>) = check_request r b key s" for r b key k
      by (simp add: check_request_def chain_size_def)
    from assms mh False obtain r where r: "read_request (fst request) = Some r"
      by (auto simp: handle_addition_request_def Let_def attempt_convs)
    have head: "mh = bar_bmh r"
      using mh r by (auto simp: read_bmh_def read_request_def read_bytes_def request_of_def bmh_of_def peer_address_of_def
          drop_take min_def split: if_splits)
    from assms mh False r obtain b where b: "BlockFromData (drop (32 + unat (bar_pow_size r)) (fst request)) = Some b"
      by (auto simp: handle_addition_request_def Let_def attempt_convs)
    from assms mh False r b obtain key where key: "read_bytes (fst request) 32 (unat (bar_pow_size r)) = Some key"
      by (auto simp: handle_addition_request_def Let_def attempt_convs)
    from assms mh False r b key obtain ok where ok: "check_request r b key s = Inr ok"
      by (auto simp: handle_addition_request_def Let_def attempt_convs same)
    define agree where "agree = (if ok then allow_agree else False)"
    let ?s = "s\<lparr>a_next := a_next s + 1\<rparr>"
    from assms mh False r b key ok have
      run: "attempt (app_broadcast w (vote_payload s (bmh_index (bar_bmh r)) agree b) ?s) (\<lambda>(n_peers, s1).
        if allow_agree then
          attempt (check_votes n_peers b agree s1) (\<lambda>(accepted, s2).
          if accepted then Inr (agree, s2\<lparr>a_candidates := a_candidates s2 @ [(a_next s, b)]\<rparr>) else Inr (agree, s2))
        else Inr (agree, s1)) = (Inr (v, s') :: stop + bool \<times> app)"
      by (simp add: handle_addition_request_def Let_def same vote_payload_def agree_def cong: if_cong)
    then obtain n s1 where send: "app_broadcast w (vote_payload s (bmh_index (bar_bmh r)) agree b) ?s = Inr (n, s1)"
      by (auto simp: attempt_convs)
    have v: "v = agree"
      using run send by (auto simp: attempt_eq_Inr split: if_splits)
    have tail: "if allow_agree then \<exists>accepted s2. check_votes n b v s1 = Inr (accepted, s2) \<and>
         s' = (if accepted then s2\<lparr>a_candidates := a_candidates s2 @ [(a_next s, b)]\<rparr> else s2) else s' = s1"
    proof (cases allow_agree)
      case True
      with run send obtain accepted s2 where check: "check_votes n b agree s1 = Inr (accepted, s2)"
        by (auto simp: attempt_eq_Inr)
      with run send True have "s' = (if accepted then s2\<lparr>a_candidates := a_candidates s2 @ [(a_next s, b)]\<rparr> else s2)"
        by (simp split: if_splits)
      with check v True show ?thesis by auto
    next
      case False
      with run send show ?thesis by simp
    qed
    show ?thesis
    proof (rule voted [OF _ _ r b key ok _ _ tail])
      show "read_bmh (fst request) = Some (bar_bmh r)" "\<not> chain_size s < bmh_index (bar_bmh r)"
        using mh head False by simp_all
      show "v \<longleftrightarrow> ok \<and> allow_agree"
        by (simp add: v agree_def)
      show "app_broadcast w (vote_payload s (bmh_index (bar_bmh r)) v b) ?s = Inr (n, s1)"
        using send v by simp
    qed
  qed
qed

section \<open>The loop that counts\<close>

text \<open>
  Every counted vote belongs to a different client, and every counted agreement is one in a message that this run has had
  at hand; this peer's own vote is counted as well.
\<close>

definition agrees_with :: "size_t \<Rightarrow> b_type \<Rightarrow> message \<Rightarrow> peer_address \<Rightarrow> bool" where
  "agrees_with index b m pa \<longleftrightarrow> (case read_vote (fst m) of
       Some v \<Rightarrow> bmh_type (bv_bmh v) = blockchain_type_code VOTE \<and> bmh_index (bv_bmh v) = index \<and>
         bmh_peer_address (bv_bmh v) = pa \<and> bv_agree v \<and> read_bytes (fst m) 40 (unat (bv_hash_size v)) = Some (GetHash b)
     | None \<Rightarrow> False)"

definition supporters :: "world \<Rightarrow> app \<Rightarrow> app \<Rightarrow> b_type \<Rightarrow> peer_address set" where
  "supporters w s0 s b = {pa. \<exists>m \<in> heard w s0 s. agrees_with (chain_size s0) b m pa}"

definition tally_ok :: "vote_locals \<Rightarrow> bool" where
  "tally_ok l \<longleftrightarrow> distinct (vl_clients_seen l) \<and> vl_n_agrees l + vl_n_disagrees l = length (vl_clients_seen l) + 1"

definition backed :: "world \<Rightarrow> app \<Rightarrow> b_type \<Rightarrow> bool \<Rightarrow> vote_locals \<Rightarrow> app \<Rightarrow> bool" where
  "backed w s0 b own l s \<longleftrightarrow> inflow w s0 s \<and> set (vl_read_messages l) \<subseteq> heard w s0 s \<and>
     (\<exists>A. distinct A \<and> set A \<subseteq> set (vl_clients_seen l) \<and> set A \<subseteq> supporters w s0 s b \<and>
        vl_n_agrees l = (if own then 1 else 0) + length A)"

definition handler_ok :: "(message \<Rightarrow> bool \<Rightarrow> app \<Rightarrow> stop + bool \<times> app) \<Rightarrow> world \<Rightarrow> bool" where
  "handler_ok handle w \<longleftrightarrow> (\<forall>m a s mh r s'. read_bmh (fst m) = Some mh \<longrightarrow> bmh_index mh = chain_size s \<longrightarrow>
     handle m a s = Inr (r, s') \<longrightarrow> grows s s' \<and> inflow w s s')"

lemma tally_ok_init: "tally_ok (vote_init own)"
  by (simp add: tally_ok_def vote_init_def)

lemma backed_init: "backed w s b own (vote_init own) s"
  by (auto simp: backed_def vote_init_def)

lemma finite_supporters [simp]: "finite (supporters w s0 s b)"
proof (rule finite_subset)
  show "supporters w s0 s b \<subseteq> (\<lambda>m. bmh_peer_address (bv_bmh (the (read_vote (fst m))))) ` heard w s0 s"
    by (force simp: supporters_def agrees_with_def split: option.splits)
qed simp

lemma supporters_mono: "a_clock s \<le> a_clock s' \<Longrightarrow> supporters w s0 s b \<subseteq> supporters w s0 s' b"
  using heard_mono [of s s' w s0] by (auto simp: supporters_def)

lemma backed_mono: "backed w s0 b own l s \<Longrightarrow> inflow w s s' \<Longrightarrow> backed w s0 b own l s'"
proof -
  assume 1: "backed w s0 b own l s" and 2: "inflow w s s'"
  have "supporters w s0 s b \<subseteq> supporters w s0 s' b" "heard w s0 s \<subseteq> heard w s0 s'"
    using 2 by (intro supporters_mono heard_mono; simp add: inflow_def)+
  with 1 2 show ?thesis
    unfolding backed_def by (meson inflow_trans order_trans)
qed

lemma backed_aside: "backed w s0 b own l s \<Longrightarrow> m \<in> heard w s0 s \<Longrightarrow>
  backed w s0 b own (l\<lparr>vl_read_messages := vl_read_messages l @ [m]\<rparr>) s"
  by (simp add: backed_def)

lemma backed_tries: "backed w s0 b own (l\<lparr>vl_tries := k\<rparr>) s = backed w s0 b own l s"
  by (simp add: backed_def)

lemma backed_majority: "backed w s0 b own l s \<Longrightarrow> vl_n_agrees l \<le> (if own then 1 else 0) + card (supporters w s0 s b)"
proof -
  assume "backed w s0 b own l s"
  then obtain A where "distinct A" "set A \<subseteq> supporters w s0 s b" "vl_n_agrees l = (if own then 1 else 0) + length A"
    by (auto simp: backed_def)
  moreover from this have "length A \<le> card (supporters w s0 s b)"
    by (metis card_mono distinct_card finite_supporters)
  ultimately show ?thesis by simp
qed

lemma count_vote_ok:
  assumes run: "count_vote (fst m) b l = Inr l'" and tally: "tally_ok l" and bk: "backed w s0 b own l s"
    and m: "m \<in> heard w s0 s" "read_bmh (fst m) = Some mh" "bmh_type mh = blockchain_type_code VOTE" "bmh_index mh = chain_size s0"
  shows "tally_ok l' \<and> length (vl_clients_seen l') \<le> length (vl_clients_seen l) + 1 \<and> backed w s0 b own l' s"
proof -
  obtain v h where vh: "read_vote (fst m) = Some v" "read_bytes (fst m) 40 (unat (bv_hash_size v)) = Some h"
    using run by (auto simp: count_vote_def attempt_eq_Inr from_option_eq_Inr)
  have head: "bv_bmh v = mh"
    using vh(1) m(2) by (auto simp: read_bmh_def read_vote_def read_bytes_def vote_of_def bmh_of_def peer_address_of_def
        drop_take min_def split: if_splits)
  let ?pa = "bmh_peer_address mh"
  show ?thesis
  proof (cases "client_found ?pa (vl_clients_seen l) \<or> h \<noteq> GetHash b")
    case True
    with run vh head have "l' = l"
      by (simp add: count_vote_def Let_def split: if_splits)
    with tally bk show ?thesis by simp
  next
    case False
    then have new: "?pa \<notin> set (vl_clients_seen l)" and h: "h = GetHash b"
      by (simp_all add: client_found_iff)
    have l': "l' = l\<lparr>vl_n_agrees := vl_n_agrees l + (if bv_agree v then 1 else 0),
        vl_n_disagrees := vl_n_disagrees l + (if bv_agree v then 0 else 1), vl_clients_seen := vl_clients_seen l @ [?pa]\<rparr>"
      using run vh head new h by (cases "bv_agree v") (auto simp: count_vote_def Let_def client_found_iff)
    obtain A where A: "distinct A" "set A \<subseteq> set (vl_clients_seen l)" "set A \<subseteq> supporters w s0 s b"
      "vl_n_agrees l = (if own then 1 else 0) + length A"
      using bk by (auto simp: backed_def)
    have "?pa \<in> supporters w s0 s b" if "bv_agree v"
      using that m vh head h by (auto simp: supporters_def agrees_with_def intro!: bexI [of _ m])
    then have "backed w s0 b own l' s"
      unfolding backed_def
    proof (intro conjI exI [of _ "if bv_agree v then ?pa # A else A"])
      show "inflow w s0 s" "set (vl_read_messages l') \<subseteq> heard w s0 s"
        using bk l' by (simp_all add: backed_def)
    qed (use A new l' in auto)
    with l' tally new show ?thesis
      by (auto simp: tally_ok_def)
  qed
qed

lemma vote_message_ok:
  assumes run: "vote_message handle w req_block item l s = Inr out" and handle: "handler_ok handle w" and tally: "tally_ok l"
    and bk: "backed w s0 req_block own l s" and item: "item \<in> heard w s0 s" and size: "chain_size s = chain_size s0"
  shows "case out of Inl (r, s') \<Rightarrow> \<not> r \<and> grows s s' \<and> inflow w s0 s'
    | Inr (l', s') \<Rightarrow> grows s s' \<and> tally_ok l' \<and> length (vl_clients_seen l') \<le> length (vl_clients_seen l) + 1 \<and>
        backed w s0 req_block own l' s'"
proof -
  have aside: "tally_ok (l\<lparr>vl_read_messages := ms\<rparr>)" for ms
    using tally by (simp add: tally_ok_def)
  have from_start: "inflow w s0 s"
    using bk by (simp add: backed_def)
  obtain mh where mh: "read_bmh (fst item) = Some mh"
    using run by (auto simp: vote_message_def Let_def attempt_convs)
  consider (vote) "bmh_type mh = 3" | (ask) "bmh_type mh = 1" | (add) "bmh_type mh = 4" | (other) "bmh_type mh \<notin> {1, 3, 4}"
    by blast
  then show ?thesis
  proof cases
    case vote
    show ?thesis
    proof (cases "bmh_index mh = chain_size s")
      case True
      with run mh vote obtain l' where "count_vote (fst item) req_block l = Inr l'" "out = Inr (l', s)"
        by (auto simp: vote_message_def Let_def attempt_eq_Inr)
      with count_vote_ok [OF this(1) tally bk item mh] vote True size show ?thesis by simp
    next
      case False
      with run mh vote tally aside bk backed_aside [OF bk item] show ?thesis
        by (auto simp: vote_message_def Let_def split: if_splits)
    qed
  next
    case ask
    show ?thesis
    proof (cases "bmh_index mh \<le> chain_size s")
      case True
      with run mh ask obtain s' where s': "SendBlockchain w mh s = Inr s'" "out = Inr (l, s')"
        by (auto simp: vote_message_def Let_def attempt_eq_Inr)
      with tally backed_mono [OF bk inflow_SendBlockchain [OF s'(1)]] grows_SendBlockchain [OF s'(1)] show ?thesis by simp
    next
      case False
      with run mh ask aside backed_aside [OF bk item] show ?thesis
        by (auto simp: vote_message_def Let_def)
    qed
  next
    case add
    show ?thesis
    proof (cases "bmh_index mh = chain_size s")
      case True
      have h: "handle item a s = Inr (r, s') \<Longrightarrow> grows s s' \<and> inflow w s s'" for a r s'
        using handle mh True unfolding handler_ok_def by blast
      from add run mh True tally show ?thesis
        by (auto simp: vote_message_def Let_def attempt_convs split: if_splits dest!: h
            intro: backed_mono [OF bk] inflow_trans [OF from_start])
    next
      case False
      with add run mh aside backed_aside [OF bk item] show ?thesis
        by (auto simp: vote_message_def Let_def)
    qed
  next
    case other
    with run mh tally bk show ?thesis
      by (auto simp: vote_message_def Let_def)
  qed
qed

definition votes_inv ::
  "(message \<Rightarrow> bool \<Rightarrow> app \<Rightarrow> stop + bool \<times> app) \<Rightarrow> world \<Rightarrow> app \<Rightarrow> b_type \<Rightarrow> bool \<Rightarrow> nat \<Rightarrow> vote_locals \<times> app \<Rightarrow> bool" where
  "votes_inv handle w s0 b own n_peers = (\<lambda>(l, s). handler_ok handle w \<and> grows s0 s \<and> tally_ok l \<and>
     length (vl_clients_seen l) + 1 \<le> n_peers \<and> backed w s0 b own l s)"

definition votes_post :: "world \<Rightarrow> app \<Rightarrow> b_type \<Rightarrow> bool \<Rightarrow> nat \<Rightarrow> bool \<times> app \<Rightarrow> bool" where
  "votes_post w s0 b own n_peers = (\<lambda>(r, s). grows s0 s \<and> inflow w s0 s \<and>
     (r \<longrightarrow> n_peers < 2 * ((if own then 1 else 0) + card (supporters w s0 s b))))"

lemma votes_finish:
  assumes "attempt (place_back w (vl_read_messages l) s) (\<lambda>s. Inr (Inl (r, s))) = (Inr out :: stop + (bool \<times> app + vote_locals \<times> app))"
    "votes_inv handle w s0 b own n_peers (l, s)" "r \<Longrightarrow> n_peers < 2 * vl_n_agrees l"
  shows "case out of Inl r \<Rightarrow> votes_post w s0 b own n_peers r | Inr x \<Rightarrow> votes_inv handle w s0 b own n_peers x"
proof -
  obtain s' where s': "place_back w (vl_read_messages l) s = Inr s'" "out = Inl (r, s')"
    using assms(1) by (auto simp: attempt_eq_Inr)
  have bk: "backed w s0 b own l s" and grow: "grows s0 s"
    using assms(2) by (simp_all add: votes_inv_def)
  have inflow: "inflow w s0 s'"
    using bk by (intro inflow_place_back [OF s'(1)]) (simp_all add: backed_def)
  have "a_clock s \<le> a_clock s'"
    using s'(1) by (auto simp: place_back_def Let_def attempt_eq_Inr)
  then have "card (supporters w s0 s b) \<le> card (supporters w s0 s' b)"
    by (intro card_mono supporters_mono) simp_all
  with backed_majority [OF bk] assms(3) inflow grows_trans [OF grow grows_place_back [OF s'(1)]] s'(2) show ?thesis
    by (cases r) (simp_all add: votes_post_def)
qed

lemma votes_body_cases:
  assumes run: "votes_body handle w n_peers req_block (l, s) = Inr out"
    and inv: "votes_inv handle w s0 req_block own n_peers (l, s)"
  shows "case out of Inl r \<Rightarrow> votes_post w s0 req_block own n_peers r | Inr x \<Rightarrow> votes_inv handle w s0 req_block own n_peers x"
proof (cases "length (vl_clients_seen l) + 1 < n_peers")
  case False
  with inv have all: "length (vl_clients_seen l) + 1 = n_peers" "vl_n_agrees l + vl_n_disagrees l = n_peers"
    by (auto simp: votes_inv_def tally_ok_def)
  then have "n_peers < 2 * vl_n_agrees l" if "vl_n_agrees l > size_minus (vl_n_disagrees l + n_peers) (length (vl_clients_seen l) + 1)"
    using that by (simp add: size_minus_def)
  with votes_finish [OF _ inv] run False show ?thesis
    by (simp add: votes_body_def Let_def)
next
  case room: True
  obtain item s1 where take: "take_message w s = Inr (item, s1)"
    using run room by (auto simp: votes_body_def Let_def attempt_convs)
  have grow0: "grows s0 s" and handle: "handler_ok handle w" and tally: "tally_ok l" and bk0: "backed w s0 req_block own l s"
    using inv by (auto simp: votes_inv_def)
  have grow: "grows s0 s1" and bk: "backed w s0 req_block own l s1"
    using grows_trans [OF grow0 grows_take [OF take]] backed_mono [OF bk0 inflow_take_message(1) [OF take]] by simp_all
  show ?thesis
  proof (cases item)
    case None
    let ?l = "l\<lparr>vl_tries := vl_tries l + 1\<rparr>"
    have inv1: "votes_inv handle w s0 req_block own n_peers (?l, s1)"
      using inv grow bk by (simp add: votes_inv_def tally_ok_def backed_tries)
    show ?thesis
    proof (cases "vl_tries ?l \<ge> n_peers * nat n_tries")
      case True
      with votes_finish [OF _ inv1, of False] run room take None show ?thesis
        by (simp add: votes_body_def Let_def)
    next
      case False
      with run room take None inv1 show ?thesis
        by (simp add: votes_body_def Let_def) auto
    qed
  next
    case (Some msg)
    obtain out1 where msg: "vote_message handle w req_block msg l s1 = Inr out1"
      using run room take Some by (auto simp: votes_body_def Let_def attempt_convs)
    have "inflow w s0 s"
      using bk0 by (simp add: backed_def)
    with inflow_take_message [OF take] Some have heard: "msg \<in> heard w s0 s1"
      using heard_trans by blast
    have size: "chain_size s1 = chain_size s0"
      using grow by (simp add: chain_size_def grows_def)
    note facts = vote_message_ok [OF msg handle tally bk heard size]
    show ?thesis
    proof (cases out1)
      case (Inl r)
      with facts grow run room take Some msg show ?thesis
        by (auto simp: votes_body_def Let_def votes_post_def intro: grows_trans)
    next
      case (Inr x)
      obtain l2 s2 where x: "x = (l2, s2)" by (cases x)
      have inv2: "votes_inv handle w s0 req_block own n_peers (l2, s2)"
        using facts Inr x grow handle room by (auto simp: votes_inv_def intro: grows_trans)
      have maj: "n_peers < 2 * vl_n_agrees l2" if "vl_n_agrees l2 > n_peers div 2"
        using that by linarith
      show ?thesis
        using run room take Some msg Inr x inv2 votes_finish [OF _ inv2] maj
        by (simp add: votes_body_def Let_def split: if_splits) auto
    qed
  qed
qed

interpretation votes_loop: loop_invariant "votes_body handle w n_peers req_block" "votes_inv handle w s0 req_block own n_peers"
    "votes_post w s0 req_block own n_peers" for handle w n_peers req_block s0 own
  by unfold_locales (auto dest: votes_body_cases)

lemma handle_addition_request_ok:
  assumes votes: "\<And>n b v s r s'. check_votes n b v s = Inr (r, s') \<Longrightarrow> grows s s' \<and> inflow w s s'"
    and run: "handle_addition_request check_votes w request allow_agree s = Inr (v, s')"
  shows "grows s s'" "read_bmh (fst request) = Some mh \<Longrightarrow> bmh_index mh = chain_size s \<Longrightarrow> inflow w s s'"
proof -
  have "grows s s' \<and> (read_bmh (fst request) = Some mh \<longrightarrow> bmh_index mh = chain_size s \<longrightarrow> inflow w s s')"
  proof (rule handle_addition_request_cases [OF run])
    show ?thesis if "push_message w request s = Inr s'" "read_bmh (fst request) = Some mh'" "chain_size s < bmh_index mh'" for mh'
      using grows_push [OF that(1)] that(2,3) by auto
  next
    fix r b key ok n s1
    assume parsed: "BlockFromData (drop (32 + unat (bar_pow_size r)) (fst request)) = Some b"
      and send: "app_broadcast w (vote_payload s (bmh_index (bar_bmh r)) v b) (s\<lparr>a_next := a_next s + 1\<rparr>) = Inr (n, s1)"
      and tail: "if allow_agree then \<exists>accepted s2. check_votes n b v s1 = Inr (accepted, s2) \<and>
           s' = (if accepted then s2\<lparr>a_candidates := a_candidates s2 @ [(a_next s, b)]\<rparr> else s2) else s' = s1"
    note one = grows_broadcast [OF send] and first = inflow_app_broadcast [OF send, unfolded inflow_update]
    show ?thesis
    proof (cases allow_agree)
      case True
      with tail obtain accepted s2 where check: "check_votes n b v s1 = Inr (accepted, s2)"
        "s' = (if accepted then s2\<lparr>a_candidates := a_candidates s2 @ [(a_next s, b)]\<rparr> else s2)"
        by auto
      have two: "grows (s\<lparr>a_next := a_next s + 1\<rparr>) s2" and "inflow w s s2"
        using grows_trans [OF one] inflow_trans [OF first] votes [OF check(1)] by blast+
      then show ?thesis
        using grows_candidate [OF two BlockFromData_size [OF parsed]] grows_trans [OF grows_new_id two] check(2) by simp
    next
      case False
      with tail one first show ?thesis
        by (auto intro: grows_trans [OF grows_new_id])
    qed
  qed
  then show "grows s s'" "read_bmh (fst request) = Some mh \<Longrightarrow> bmh_index mh = chain_size s \<Longrightarrow> inflow w s s'"
    by blast+
qed

lemma CheckVotes_post:
  "CheckVotesForBlock fuel w n_peers b own_vote s = Inr (r, s') \<Longrightarrow> votes_post w s b own_vote (n_peers + 1) (r, s')"
proof (induction fuel arbitrary: n_peers b own_vote s r s')
  case (Suc fuel)
  let ?handle = "handle_addition_request (CheckVotesForBlock fuel w) w"
  have votes: "grows s s' \<and> inflow w s s'" if "CheckVotesForBlock fuel w n b v s = Inr (r, s')" for n b v s r s'
    using Suc.IH [OF that] by (simp add: votes_post_def)
  have "handler_ok ?handle w"
    unfolding handler_ok_def
    by (intro allI impI conjI) (auto intro: handle_addition_request_ok(1) [OF votes] handle_addition_request_ok(2) [OF votes])
  then have "votes_inv ?handle w s b own_vote (n_peers + 1) (vote_init own_vote, s)"
    by (simp add: votes_inv_def tally_ok_init backed_init) (simp add: vote_init_def)
  then show ?case
    by (rule votes_loop.repeat_post) (rule Suc.prems [unfolded CheckVotesForBlock.simps])
qed simp

lemma CheckVotes_grows: "CheckVotesForBlock fuel w n_peers b own_vote s = Inr (r, s') \<Longrightarrow> grows s s' \<and> inflow w s s'"
  using CheckVotes_post by (fastforce simp: votes_post_def)

lemma Handle_grows: "HandleBlockAdditionRequest fuel w request allow_agree s = Inr (v, s') \<Longrightarrow> grows s s'"
  unfolding HandleBlockAdditionRequest_def using handle_addition_request_ok(1) CheckVotes_grows by metis

lemma check_request_iff:
  "check_request r b key s = Inr ok \<Longrightarrow> \<not> chain_size s < bmh_index (bar_bmh r) \<Longrightarrow>
    ok \<longleftrightarrow> bmh_index (bar_bmh r) = chain_size s \<and> GetTopHash (a_bc s) = Some (GetPrevHash b) \<and>
      GetHash b = SHA256FromDataAndHash (GetData b) (GetPrevHash b) \<and>
      CheckSolution DIFFICULTY (SHA256FromBlock b) key = Some True"
  by (auto simp: check_request_def Let_def attempt_convs split: if_splits)

section \<open>The count ends\<close>

text \<open>Requests for the next block do not add to the messages still to come; with less than \<open>k\<close> of these the handler ends.\<close>

definition handler_ends :: "(message \<Rightarrow> bool \<Rightarrow> app \<Rightarrow> stop + bool \<times> app) \<Rightarrow> world \<Rightarrow> nat \<Rightarrow> nat \<Rightarrow> bool" where
  "handler_ends handle w T k \<longleftrightarrow> (\<forall>m a s mh. read_bmh (fst m) = Some mh \<longrightarrow> bmh_index mh = chain_size s \<longrightarrow>
     (\<forall>r s'. handle m a s = Inr (r, s') \<longrightarrow> pending w T s' \<le> pending w T s) \<and>
     (pending w T s < k \<longrightarrow> handle m a s \<noteq> Inl Out_of_fuel))"

lemma count_vote_same:
  "count_vote msg b l = Inr l' \<Longrightarrow> vl_read_messages l' = vl_read_messages l \<and> vl_tries l' = vl_tries l"
  "count_vote msg b l \<noteq> Inl Out_of_fuel"
proof -
  show "count_vote msg b l \<noteq> Inl Out_of_fuel"
    by (auto simp: count_vote_def Let_def attempt_eq_Inl from_option_eq_Inl)
  assume run: "count_vote msg b l = Inr l'"
  then obtain v h where "read_vote msg = Some v" "read_bytes msg 40 (unat (bv_hash_size v)) = Some h"
    by (auto simp: count_vote_def attempt_eq_Inr from_option_eq_Inr)
  with run show "vl_read_messages l' = vl_read_messages l \<and> vl_tries l' = vl_tries l"
    by (simp add: count_vote_def Let_def split: if_splits) auto
qed

lemma vote_message_pending:
  assumes run: "vote_message handle w req_block item l s = Inr out" and quiet: "quiet_after T w"
    and handle: "handler_ends handle w T k"
  shows "case out of Inl (r, s') \<Rightarrow> pending w T s' \<le> pending w T s
    | Inr (l', s') \<Rightarrow> pending w T s' \<le> pending w T s \<and> vl_tries l' = vl_tries l \<and>
        length (vl_read_messages l') \<le> length (vl_read_messages l) + 1"
proof -
  obtain mh where mh: "read_bmh (fst item) = Some mh"
    using run by (auto simp: vote_message_def Let_def attempt_convs)
  consider (vote) "bmh_type mh = 3" | (ask) "bmh_type mh = 1" | (add) "bmh_type mh = 4" | (other) "bmh_type mh \<notin> {1, 3, 4}"
    by blast
  then show ?thesis
  proof cases
    case vote
    with run mh show ?thesis
      by (auto simp: vote_message_def Let_def attempt_convs split: if_splits dest: count_vote_same(1))
  next
    case ask
    with run mh quiet show ?thesis
      by (auto simp: vote_message_def Let_def attempt_convs split: if_splits dest: pending_SendBlockchain)
  next
    case add
    have h: "bmh_index mh = chain_size s \<Longrightarrow> handle item a s = Inr (r, s') \<Longrightarrow> pending w T s' \<le> pending w T s" for a r s'
      using handle mh unfolding handler_ends_def by blast
    show ?thesis
    proof (cases "bmh_index mh = chain_size s")
      case True
      from add run mh True show ?thesis
        by (auto simp: vote_message_def Let_def attempt_convs split: if_splits dest!: h [OF True])
    next
      case False
      with add run mh show ?thesis
        by (auto simp: vote_message_def Let_def)
    qed
  next
    case other
    with run mh show ?thesis
      by (auto simp: vote_message_def Let_def)
  qed
qed

lemma vote_message_fuel:
  assumes "handler_ends handle w T k" "pending w T s < k"
  shows "vote_message handle w req_block item l s \<noteq> Inl Out_of_fuel"
proof
  assume run: "vote_message handle w req_block item l s = Inl Out_of_fuel"
  then obtain mh where mh: "read_bmh (fst item) = Some mh"
    by (auto simp: vote_message_def Let_def attempt_convs)
  have h: "bmh_index mh = chain_size s \<Longrightarrow> handle item a s \<noteq> Inl Out_of_fuel" for a
    using assms mh unfolding handler_ends_def by blast
  from run mh h show False
    by (auto simp: vote_message_def Let_def attempt_convs no_fuel_SendBlockchain count_vote_same(2) split: if_splits)
qed

definition votes_rank :: "world \<Rightarrow> nat \<Rightarrow> nat \<Rightarrow> vote_locals \<times> app \<Rightarrow> nat" where
  "votes_rank w T n_peers = (\<lambda>(l, s). pending w T s + (n_peers * nat n_tries - vl_tries l))"

definition votes_room :: "(message \<Rightarrow> bool \<Rightarrow> app \<Rightarrow> stop + bool \<times> app) \<Rightarrow> world \<Rightarrow> nat \<Rightarrow> nat \<Rightarrow> nat \<Rightarrow> vote_locals \<times> app \<Rightarrow> bool" where
  "votes_room handle w T k m = (\<lambda>(l, s). quiet_after T w \<and> handler_ends handle w T k \<and>
     pending w T s + length (vl_read_messages l) \<le> m)"

lemma pending_place_back: "quiet_after T w \<Longrightarrow> place_back w ms s = Inr s' \<Longrightarrow> pending w T s' = pending w T s + length ms"
proof -
  assume quiet: "quiet_after T w" and run: "place_back w ms s = Inr s'"
  have "pending w T s' = pending w T (sync w s) + length ms"
    using run by (auto simp: place_back_def Let_def attempt_eq_Inr fold_snoc pending_def)
  with quiet show ?thesis by simp
qed

lemma votes_body_room:
  assumes run: "votes_body handle w n_peers req_block (l, s) = Inr out" and room: "votes_room handle w T k m (l, s)"
  shows "case out of Inl (r, s') \<Rightarrow> pending w T s' \<le> m
    | Inr x \<Rightarrow> votes_room handle w T k m x \<and> votes_rank w T n_peers x < votes_rank w T n_peers (l, s)"
proof (cases "length (vl_clients_seen l) + 1 < n_peers")
  case False
  with run room show ?thesis
    by (auto simp: votes_body_def Let_def attempt_eq_Inr votes_room_def dest: pending_place_back)
next
  case more: True
  have quiet: "quiet_after T w" and handle: "handler_ends handle w T k" and le: "pending w T s + length (vl_read_messages l) \<le> m"
    using room by (auto simp: votes_room_def)
  obtain item s1 where take: "take_message w s = Inr (item, s1)"
    using run more by (auto simp: votes_body_def Let_def attempt_convs)
  note pend = pending_take_message [OF quiet take]
  show ?thesis
  proof (cases item)
    case None
    with run more take quiet handle le pend show ?thesis
      by (auto simp: votes_body_def Let_def attempt_eq_Inr votes_room_def votes_rank_def dest: pending_place_back split: if_splits)
  next
    case (Some msg)
    obtain out1 where msg: "vote_message handle w req_block msg l s1 = Inr out1"
      using run more take Some by (auto simp: votes_body_def Let_def attempt_convs)
    note facts = vote_message_pending [OF msg quiet handle]
    show ?thesis
    proof (cases out1)
      case (Inl r)
      with facts pend le run more take Some msg show ?thesis
        by (auto simp: votes_body_def Let_def)
    next
      case (Inr x)
      obtain l2 s2 where x: "x = (l2, s2)" by (cases x)
      have le2: "pending w T s2 + length (vl_read_messages l2) \<le> m" "pending w T s2 < pending w T s" "vl_tries l2 = vl_tries l"
        using facts Inr x pend le Some by auto
      have "votes_room handle w T k m (l2, s2)" "votes_rank w T n_peers (l2, s2) < votes_rank w T n_peers (l, s)"
        using quiet handle le2 by (simp_all add: votes_room_def votes_rank_def)
      with le2(1) run more take Some msg Inr x quiet show ?thesis
        by (auto simp: votes_body_def Let_def attempt_eq_Inr dest: pending_place_back split: if_splits)
    qed
  qed
qed

lemma votes_body_fuel:
  assumes "votes_room handle w T k m (l, s)" "m \<le> k"
  shows "votes_body handle w n_peers req_block (l, s) \<noteq> Inl Out_of_fuel"
proof
  assume run: "votes_body handle w n_peers req_block (l, s) = Inl Out_of_fuel"
  have quiet: "quiet_after T w" and handle: "handler_ends handle w T k" and le: "pending w T s \<le> k"
    using assms by (auto simp: votes_room_def)
  obtain item s1 where take: "take_message w s = Inr (item, s1)" "length (vl_clients_seen l) + 1 < n_peers"
    using run by (auto simp: votes_body_def Let_def attempt_convs no_fuel_app_steps split: if_splits)
  show False
  proof (cases item)
    case None
    with run take show False
      by (auto simp: votes_body_def Let_def attempt_eq_Inl no_fuel_app_steps split: if_splits)
  next
    case (Some msg)
    have small: "pending w T s1 < k"
      using pending_take_message [OF quiet take(1)] Some le by simp
    note fuel = vote_message_fuel [OF handle small, of req_block msg l]
    show False
    proof (cases "vote_message handle w req_block msg l s1")
      case (Inl err)
      with run take Some fuel show False
        by (simp add: votes_body_def Let_def)
    next
      case (Inr out1)
      with run take Some show False
        by (cases out1) (auto simp: votes_body_def Let_def attempt_eq_Inl no_fuel_app_steps split: if_splits)
    qed
  qed
qed

interpretation votes_ends: loop_variant "votes_body handle w n_peers req_block"
    "\<lambda>x. votes_room handle w T k m x \<and> m \<le> k" "\<lambda>(r, s). pending w T s \<le> m" "votes_rank w T n_peers"
  for handle w n_peers req_block T k m
  by unfold_locales (auto dest: votes_body_room votes_body_fuel)

interpretation votes_calm: loop_invariant "votes_body handle w n_peers req_block"
    "votes_room handle w T k m" "\<lambda>(r, s). pending w T s \<le> m" for handle w n_peers req_block T k m
  by unfold_locales (auto dest: votes_body_room)

text \<open>Worlds in which the tracker never lists more than \<open>N\<close> peers.\<close>

definition peers_at_most :: "nat \<Rightarrow> world \<Rightarrow> bool" where
  "peers_at_most N w \<longleftrightarrow> (\<forall>t p. p_n_peers (tk_peer (w t) p) \<le> N)"

lemma app_broadcast_at_most: "peers_at_most N w \<Longrightarrow> app_broadcast w data s = Inr (n, s') \<Longrightarrow> n \<le> N"
proof -
  assume "peers_at_most N w" "app_broadcast w data s = Inr (n, s')"
  then have "n \<le> p_n_peers (tk_peer (w (a_clock s)) (a_peer s))" "p_n_peers (tk_peer (w (a_clock s)) (a_peer s)) \<le> N"
    by (auto simp: app_broadcast_def Let_def attempt_eq_Inr from_option_eq_Inr peers_at_most_def dest: broadcast_count)
  then show ?thesis by simp
qed

lemma pending_next [simp]:
  "pending w T (s\<lparr>a_next := k\<rparr>) = pending w T s" "pending w T (s\<lparr>a_candidates := cs\<rparr>) = pending w T s"
  by (simp_all add: pending_def)

text \<open>The fuel that is enough when \<open>m\<close> messages are still to come.\<close>

definition enough :: "nat \<Rightarrow> nat \<Rightarrow> nat" where
  "enough N m = m + (N + 1) * nat n_tries"

lemma handle_addition_request_ends:
  assumes quiet: "quiet_after T w" and bound: "peers_at_most N w"
    and votes: "\<And>n b v s r s'. n \<le> N \<Longrightarrow> check_votes n b v s = Inr (r, s') \<Longrightarrow> pending w T s' \<le> pending w T s"
    and fuel: "\<And>n b v s. n \<le> N \<Longrightarrow> pending w T s < k \<Longrightarrow> check_votes n b v s \<noteq> Inl Out_of_fuel"
  shows "handler_ends (handle_addition_request check_votes w) w T k"
  unfolding handler_ends_def
proof (intro allI impI conjI)
  fix m :: message and a s mh r s'
  assume mh: "read_bmh (fst m) = Some mh" "bmh_index mh = chain_size s"
  {
    assume run: "handle_addition_request check_votes w m a s = Inr (r, s')"
    show "pending w T s' \<le> pending w T s"
    proof (rule handle_addition_request_cases [OF run])
      show "pending w T s' \<le> pending w T s" if "read_bmh (fst m) = Some mh'" "chain_size s < bmh_index mh'" for mh'
        using that mh by simp
    next
      fix q b key ok n s1
      assume send: "app_broadcast w (vote_payload s (bmh_index (bar_bmh q)) r b) (s\<lparr>a_next := a_next s + 1\<rparr>) = Inr (n, s1)"
        and tail: "if a then \<exists>accepted s2. check_votes n b r s1 = Inr (accepted, s2) \<and>
           s' = (if accepted then s2\<lparr>a_candidates := a_candidates s2 @ [(a_next s, b)]\<rparr> else s2) else s' = s1"
      have s1: "pending w T s1 = pending w T s"
        using pending_app_broadcast [OF quiet send] by simp
      show "pending w T s' \<le> pending w T s"
      proof (cases a)
        case True
        with tail obtain accepted s2 where two: "check_votes n b r s1 = Inr (accepted, s2)"
          "s' = (if accepted then s2\<lparr>a_candidates := a_candidates s2 @ [(a_next s, b)]\<rparr> else s2)"
          by auto
        with votes [OF app_broadcast_at_most [OF bound send] two(1)] s1 show ?thesis by simp
      next
        case False
        with tail s1 show ?thesis by simp
      qed
    qed
  }
  assume small: "pending w T s < k"
  show "handle_addition_request check_votes w m a s \<noteq> Inl Out_of_fuel"
  proof
    assume run: "handle_addition_request check_votes w m a s = Inl Out_of_fuel"
    then obtain n b v s1 data where send: "app_broadcast w data (s\<lparr>a_next := a_next s + 1\<rparr>) = Inr (n, s1)"
      "check_votes n b v s1 = Inl Out_of_fuel"
      using mh by (auto simp: handle_addition_request_def Let_def attempt_eq_Inl from_option_eq_Inl check_request_def no_fuel_app_steps
          split: if_splits prod.splits)
    have "pending w T s1 < k"
      using pending_app_broadcast [OF quiet send(1)] small by simp
    with fuel [OF app_broadcast_at_most [OF bound send(1)] this] send(2) show False by simp
  qed
qed

lemma CheckVotes_ends:
  assumes quiet: "quiet_after T w" and bound: "peers_at_most N w" and n: "n \<le> N"
  shows "CheckVotesForBlock fuel w n b v s = Inr (r, s') \<Longrightarrow> pending w T s' \<le> pending w T s"
    "enough N (pending w T s) < fuel \<Longrightarrow> CheckVotesForBlock fuel w n b v s \<noteq> Inl Out_of_fuel"
proof -
  have "(\<forall>r s'. CheckVotesForBlock fuel w n b v s = Inr (r, s') \<longrightarrow> pending w T s' \<le> pending w T s) \<and>
    (enough N (pending w T s) < fuel \<longrightarrow> CheckVotesForBlock fuel w n b v s \<noteq> Inl Out_of_fuel)"
    using n
  proof (induction fuel arbitrary: n b v s)
    case (Suc fuel)
    let ?handle = "handle_addition_request (CheckVotesForBlock fuel w) w" and ?k = "fuel - enough N 0"
    have ends: "handler_ends ?handle w T ?k"
    proof (rule handle_addition_request_ends [OF quiet bound])
      show "pending w T s' \<le> pending w T s" if "n \<le> N" "CheckVotesForBlock fuel w n b v s = Inr (r, s')" for n b v s r s'
        using Suc.IH [OF that(1)] that(2) by blast
      show "CheckVotesForBlock fuel w n b v s \<noteq> Inl Out_of_fuel" if "n \<le> N" "pending w T s < ?k" for n b v s
        using Suc.IH [OF that(1), of b v s] that(2) by (simp add: enough_def)
    qed
    have start: "votes_room ?handle w T k (pending w T s) (vote_init v, s)" if "handler_ends ?handle w T k" for k
      using quiet that by (simp add: votes_room_def vote_init_def)
    have "handler_ends ?handle w T 0"
      using ends by (simp add: handler_ends_def)
    note calm = start [OF this]
    show ?case
    proof (intro conjI allI impI)
      fix r s'
      assume "CheckVotesForBlock (Suc fuel) w n b v s = Inr (r, s')"
      from votes_calm.repeat_post [OF calm this [unfolded CheckVotesForBlock.simps]]
      show "pending w T s' \<le> pending w T s" by simp
    next
      assume "enough N (pending w T s) < Suc fuel"
      then have k: "pending w T s \<le> ?k"
        by (simp add: enough_def)
      have "votes_rank w T (n + 1) (vote_init v, s) < Suc fuel"
      proof -
        have "(n + 1) * nat n_tries \<le> (N + 1) * nat n_tries"
          using Suc.prems by (intro mult_le_mono1) simp
        with \<open>enough N (pending w T s) < Suc fuel\<close> show ?thesis
          unfolding votes_rank_def enough_def vote_init_def prod.case by (simp only: vote_locals.simps diff_zero)
      qed
      with votes_ends.repeat_enough_fuel [of ?handle w T ?k "pending w T s" "(vote_init v, s)"] start [OF ends] k
      show "CheckVotesForBlock (Suc fuel) w n b v s \<noteq> Inl Out_of_fuel"
        by (simp del: repeat_body.simps)
    qed
  qed simp
  then show "CheckVotesForBlock fuel w n b v s = Inr (r, s') \<Longrightarrow> pending w T s' \<le> pending w T s"
    "enough N (pending w T s) < fuel \<Longrightarrow> CheckVotesForBlock fuel w n b v s \<noteq> Inl Out_of_fuel"
    by blast+
qed

section \<open>Votes of all peers\<close>

text \<open>Worlds in which nothing arrives any more and the mutex works.\<close>

definition calm :: "world \<Rightarrow> bool" where
  "calm w \<longleftrightarrow> (\<forall>t. tk_arrivals (w t) = [] \<and> tk_lock (w t) = 0 \<and> tk_unlock (w t) = 0)"

lemma calm_take:
  "calm w \<Longrightarrow> a_inbox s = m # ms \<Longrightarrow> take_message w s = Inr (Some m, (sync w s)\<lparr>a_inbox := ms\<rparr>)"
  by (simp add: take_message_def calm_def Lock_def Unlock_def Let_def)

text \<open>The peer's other thread is idle as well.\<close>

definition idle :: "world \<Rightarrow> bool" where
  "idle w \<longleftrightarrow> calm w \<and> (\<forall>t p. tk_peer (w t) p = p)"

text \<open>What counting in a calm world keeps, but for the messages it takes from the mailbox.\<close>

definition undisturbed :: "world \<Rightarrow> app \<Rightarrow> app \<Rightarrow> bool" where
  "undisturbed w s s' \<longleftrightarrow> core s' = core s \<and> (idle w \<longrightarrow> a_peer s' = a_peer s)"

lemma undisturbed_trans: "undisturbed w s s' \<Longrightarrow> undisturbed w s' s'' \<Longrightarrow> undisturbed w s s''"
  by (simp add: undisturbed_def)

lemma undisturbed_sync: "undisturbed w s ((sync w s)\<lparr>a_inbox := ms\<rparr>)"
  by (simp add: undisturbed_def idle_def)

lemma calm_place_back:
  "calm w \<Longrightarrow> \<exists>s'. place_back w ms s = Inr s' \<and> undisturbed w s s' \<and> a_inbox s' = a_inbox s @ ms"
  by (simp add: place_back_def calm_def Lock_def Unlock_def Let_def undisturbed_sync fold_snoc)

text \<open>The message with which the peer \<open>pa\<close> votes on the block.\<close>

definition ballot :: "app \<Rightarrow> b_type \<Rightarrow> size_t \<Rightarrow> peer_address \<times> bool \<Rightarrow> message" where
  "ballot s b len = (\<lambda>(pa, agree).
     (vote_bytes \<lparr>bv_bmh = \<lparr>bmh_type = blockchain_type_code VOTE, bmh_peer_address = pa, bmh_index = chain_size s\<rparr>,
                  bv_agree = agree, bv_hash_size = of_nat (length (GetHash b))\<rparr> @ GetHash b, len))"

lemma vote_message_ballot:
  assumes "length (GetHash b) < 2 ^ 64" "pa \<notin> set (vl_clients_seen l)" "chain_size s' = chain_size s"
  shows "vote_message handle w b (ballot s b len (pa, agree)) l s' =
    Inr (Inr (l\<lparr>vl_n_agrees := vl_n_agrees l + (if agree then 1 else 0),
                vl_n_disagrees := vl_n_disagrees l + (if agree then 0 else 1), vl_clients_seen := vl_clients_seen l @ [pa]\<rparr>, s'))"
proof -
  let ?bmh = "\<lparr>bmh_type = blockchain_type_code VOTE, bmh_peer_address = pa, bmh_index = chain_size s\<rparr>"
  let ?v = "\<lparr>bv_bmh = ?bmh, bv_agree = agree, bv_hash_size = of_nat (length (GetHash b))\<rparr>"
  have head: "read_bmh (vote_bytes ?v @ GetHash b) = Some ?bmh"
    by (simp add: vote_bytes_def del: blockchain_type_code.simps)
  have hash: "read_bytes (vote_bytes ?v @ GetHash b) 40 (unat (of_nat (length (GetHash b)) :: size_t)) = Some (GetHash b)"
    using assms(1) by (simp add: read_bytes_def unat_of_nat)
  show ?thesis
    using assms(2,3) head hash
    by (cases agree) (simp_all add: vote_message_def ballot_def count_vote_def Let_def client_found_iff)
qed

lemma count_ballots:
  assumes "calm w" "length (GetHash b) < 2 ^ 64"
    and "a_inbox s' = map (ballot s b len) ballots" "chain_size s' = chain_size s" "tally_ok l" "vl_tries l = 0"
    "distinct (vl_clients_seen l @ map fst ballots)" "length (vl_clients_seen l) + 1 + length ballots = N" "length ballots < fuel"
    "vl_read_messages l = []"
  shows "\<exists>s'' k. repeat_body fuel (votes_body handle w N b) (l, s') =
    Inr (N < 2 * (vl_n_agrees l + length (filter snd ballots)), s'') \<and> undisturbed w s' s'' \<and>
    a_inbox s'' = map (ballot s b len) (drop k ballots)"
  using assms(3-)
proof (induction ballots arbitrary: l s' fuel)
  case Nil
  then obtain fuel' where "fuel = Suc fuel'" by (cases fuel) auto
  moreover have "vl_n_agrees l > size_minus (vl_n_disagrees l + N) (length (vl_clients_seen l) + 1) \<longleftrightarrow> N < 2 * vl_n_agrees l"
    using Nil by (auto simp: size_minus_def tally_ok_def)
  moreover obtain s'' where "place_back w (vl_read_messages l) s' = Inr s''" "undisturbed w s' s''" "a_inbox s'' = []"
    using calm_place_back [OF assms(1), of "[]" s'] Nil by auto
  ultimately show ?case
    using Nil by (simp add: votes_body_def Let_def)
next
  case (Cons x ballots)
  obtain pa agree where x: "x = (pa, agree)" by (cases x)
  obtain fuel' where fuel: "fuel = Suc fuel'" using Cons.prems by (cases fuel) auto
  let ?s = "(sync w s')\<lparr>a_inbox := map (ballot s b len) ballots\<rparr>"
  let ?l = "l\<lparr>vl_n_agrees := vl_n_agrees l + (if agree then 1 else 0),
    vl_n_disagrees := vl_n_disagrees l + (if agree then 0 else 1), vl_clients_seen := vl_clients_seen l @ [pa]\<rparr>"
  have take: "take_message w s' = Inr (Some (ballot s b len (pa, agree)), ?s)"
    using calm_take [OF assms(1)] Cons.prems(1) x by simp
  have size: "chain_size ?s = chain_size s"
    using Cons.prems(2) by (simp add: chain_size_def)
  have new: "pa \<notin> set (vl_clients_seen l)"
    using Cons.prems(5) x by auto
  note vote = vote_message_ballot [OF assms(2) new size, of handle w len agree]
  have tally: "tally_ok ?l"
    using Cons.prems(3) new by (auto simp: tally_ok_def)
  have tries: "\<not> vl_tries ?l \<ge> N * nat n_tries"
    using Cons.prems(4,6) by (simp add: n_tries_def)
  obtain s2 where put: "place_back w (vl_read_messages ?l) ?s = Inr s2" "undisturbed w ?s s2"
    "a_inbox s2 = map (ballot s b len) (drop 1 (x # ballots))"
    using calm_place_back [OF assms(1), of "[]" ?s] Cons.prems(8) by auto
  have after: "undisturbed w s' s2"
    using undisturbed_sync put(2) by (rule undisturbed_trans)
  have total: "vl_n_agrees ?l + vl_n_disagrees ?l + length ballots = N"
    using tally Cons.prems(6) by (simp add: tally_ok_def)
  have le: "length (filter snd ballots) \<le> length ballots" by simp
  have more: "N < 2 * (A + k)" if "N div 2 < A" for A k :: nat
    using that by presburger
  have less: "\<not> N < 2 * (A + k)" if "N div 2 < D" "A + D + r = N" "k \<le> r" for A D k r :: nat
    using that by presburger
  have goal: "vl_n_agrees l + length (filter snd (x # ballots)) = vl_n_agrees ?l + length (filter snd ballots)"
    by (simp add: x)
  have body: "votes_body handle w N b (l, s') =
      (if vl_n_agrees ?l > N div 2 then Inr (Inl (True, s2))
       else if vl_n_disagrees ?l > N div 2 then Inr (Inl (False, s2)) else Inr (Inr (?l, ?s)))"
    using Cons.prems(6) take vote tries put by (simp add: votes_body_def Let_def)
  consider "vl_n_agrees ?l > N div 2" | "\<not> vl_n_agrees ?l > N div 2" "vl_n_disagrees ?l > N div 2"
    | "\<not> vl_n_agrees ?l > N div 2" "\<not> vl_n_disagrees ?l > N div 2" by blast
  then show ?case
  proof cases
    case 1
    then have "N < 2 * (vl_n_agrees ?l + length (filter snd ballots))" by (rule more)
    with 1 body goal fuel after put(3) show ?thesis by (intro exI [of _ s2] exI [of _ 1]) simp
  next
    case 2
    then have "\<not> N < 2 * (vl_n_agrees ?l + length (filter snd ballots))" using less total le by blast
    with 2 body goal fuel after put(3) show ?thesis by (intro exI [of _ s2] exI [of _ 1]) simp
  next
    case 3
    have "\<exists>s'' k. repeat_body fuel' (votes_body handle w N b) (?l, ?s) =
        Inr (N < 2 * (vl_n_agrees ?l + length (filter snd ballots)), s'') \<and> undisturbed w ?s s'' \<and>
        a_inbox s'' = map (ballot s b len) (drop k ballots)"
      by (rule Cons.IH) (use Cons.prems tally size x fuel in \<open>simp_all\<close>)
    then obtain s'' k where rest: "repeat_body fuel' (votes_body handle w N b) (?l, ?s) =
        Inr (N < 2 * (vl_n_agrees ?l + length (filter snd ballots)), s'')" "undisturbed w s' s''"
        "a_inbox s'' = map (ballot s b len) (drop (Suc k) (x # ballots))"
      using undisturbed_trans [OF undisturbed_sync] by fastforce
    have "votes_body handle w N b (l, s') = Inr (Inr (?l, ?s))"
      unfolding body using 3 by (simp only: if_False)
    then have "repeat_body fuel (votes_body handle w N b) (l, s') = repeat_body fuel' (votes_body handle w N b) (?l, ?s)"
      unfolding fuel repeat_body.simps by (simp only: attempt_simps sum.case)
    with rest show ?thesis
      unfolding goal by (intro exI [of _ s''] exI [of _ "Suc k"]) simp
  qed
qed

section \<open>The best candidate\<close>

lemma best_of_least: "best_of c cs \<in> set (c # cs) \<and> (\<forall>x \<in> set (c # cs). GetHash (snd (best_of c cs)) \<le> GetHash (snd x))"
proof (induction cs arbitrary: c)
  case (Cons d cs)
  show ?case
  proof (cases "GetHash (snd d) \<le> GetHash (snd c)")
    case True
    with Cons [of d] show ?thesis by (auto intro: order_trans)
  next
    case False
    with Cons [of c] show ?thesis by (auto dest: order_trans)
  qed
qed simp

interpretation requests_loop: loop_invariant "requests_body fuel w" "\<lambda>(_, s). grows s0 s" "\<lambda>(_, s). grows s0 s"
  for fuel w s0
proof (unfold_locales, goal_cases)
  case (1 x x')
  then show ?case
    by (auto simp: requests_body_def attempt_eq_Inr dest!: grows_take Handle_grows split: option.splits if_splits)
      (meson grows_trans)+
next
  case (2 x r)
  then show ?case
    by (auto simp: requests_body_def attempt_eq_Inr dest!: grows_take split: option.splits if_splits) (meson grows_trans)
qed

lemma HandleAll_best:
  assumes "HandleAllBlockAdditionRequests fuel w s = Inr (best, s')"
  shows "\<exists>ms s1. repeat_body fuel (requests_body fuel w) ([], s) = Inr (ms, s1) \<and> grows s s1 \<and> a_bc s' = a_bc s \<and> a_transactions s' = a_transactions s \<and> a_candidates s' = [] \<and>
    (case best of None \<Rightarrow> a_candidates s1 = []
     | Some c \<Rightarrow> c \<in> set (a_candidates s1) \<and> (\<forall>x \<in> set (a_candidates s1). GetHash (snd c) \<le> GetHash (snd x)))"
proof -
  obtain ms s1 where loop: "repeat_body fuel (requests_body fuel w) ([], s) = Inr (ms, s1)"
    using assms by (auto simp: HandleAllBlockAdditionRequests_def attempt_eq_Inr)
  have g: "grows s s1"
    using requests_loop.repeat_post [OF _ loop, of s] by simp
  then have same: "a_bc s1 = a_bc s" "a_transactions s1 = a_transactions s"
    by (simp_all add: grows_def)
  have "a_bc s' = a_bc s \<and> a_transactions s' = a_transactions s \<and> a_candidates s' = [] \<and>
      best = (case a_candidates s1 of c # cs \<Rightarrow> Some (best_of c cs) | [] \<Rightarrow> None)"
    using assms loop same
    by (cases "a_candidates s1")
      (auto simp: HandleAllBlockAdditionRequests_def attempt_eq_Inr core_def dest!: core_place_back)
  with loop g best_of_least show ?thesis
    by (intro exI [of _ ms] exI [of _ s1]) (auto split: list.splits)
qed

section \<open>Proposals\<close>

lemma solve_eq_Inr: "solve seed = Inr key \<longleftrightarrow> SolveProblem DIFFICULTY seed = Some (Inr key)"
proof (cases "SolveProblem DIFFICULTY seed")
  case (Some x)
  then show ?thesis by (cases x) (auto simp: solve_def)
qed (simp add: solve_def)

lemma AddBlockToBlockchain_cases:
  assumes "AddBlockToBlockchain fuel w data s = Inr (r, s')"
  obtains b key n s1 accepted s2 m s3 where "SneakPeekBlock SHA256FromDataAndHash data raw_block (a_bc s) = Some b"
    "SolveProblem DIFFICULTY (SHA256FromBlock b) = Some (Inr key)"
    "app_broadcast w (request_bytes \<lparr>bar_bmh = \<lparr>bmh_type = blockchain_type_code ADDREQUEST,
        bmh_peer_address = p_own_pa (a_peer s), bmh_index = chain_size s\<rparr>, bar_pow_size = of_nat (length key)\<rparr> @ key @
      DataFromBlock b) (s\<lparr>a_next := a_next s + 1\<rparr>) = Inr (n, s1)"
    "CheckVotesForBlock fuel w n b True s1 = Inr (accepted, s2)"
    "app_broadcast w (vote_payload s (chain_size s) accepted b) s2 = Inr (m, s3)"
    "if accepted then r = Some (a_next s, b) \<and> s' = s3\<lparr>a_candidates := a_candidates s3 @ [(a_next s, b)]\<rparr>
     else r = None \<and> s' = s3"
proof -
  have size: "chain_size (s\<lparr>a_next := k\<rparr>) = chain_size s" for k
    by (simp add: chain_size_def)
  from assms obtain b where b: "SneakPeekBlock SHA256FromDataAndHash data raw_block (a_bc s) = Some b"
    by (auto simp: AddBlockToBlockchain_def attempt_eq_Inr from_option_eq_Inr)
  with assms obtain key where key: "solve (SHA256FromBlock b) = Inr key"
    by (auto simp: AddBlockToBlockchain_def attempt_eq_Inr Let_def)
  with assms b obtain n s1 where send: "app_broadcast w (request_bytes \<lparr>bar_bmh = \<lparr>bmh_type = blockchain_type_code ADDREQUEST,
        bmh_peer_address = p_own_pa (a_peer s), bmh_index = chain_size s\<rparr>, bar_pow_size = of_nat (length key)\<rparr> @ key @
      DataFromBlock b) (s\<lparr>a_next := a_next s + 1\<rparr>) = Inr (n, s1)"
    by (auto simp: AddBlockToBlockchain_def attempt_eq_Inr Let_def size)
  with assms b key obtain accepted s2 where votes: "CheckVotesForBlock fuel w n b True s1 = Inr (accepted, s2)"
    by (auto simp: AddBlockToBlockchain_def attempt_eq_Inr Let_def size)
  with assms b key send obtain m s3 where vote: "app_broadcast w (vote_payload s (chain_size s) accepted b) s2 = Inr (m, s3)"
    by (auto simp: AddBlockToBlockchain_def attempt_eq_Inr Let_def size vote_payload_def)
  have "if accepted then r = Some (a_next s, b) \<and> s' = s3\<lparr>a_candidates := a_candidates s3 @ [(a_next s, b)]\<rparr>
     else r = None \<and> s' = s3"
    using assms b key send votes vote by (simp add: AddBlockToBlockchain_def Let_def size vote_payload_def split: if_splits)
  with that b key send votes vote show ?thesis
    unfolding solve_eq_Inr by blast
qed

text \<open>The proposed block becomes a candidate under a number of its own; requests handled meanwhile add others.\<close>

lemma AddBlockToBlockchain_facts:
  assumes "AddBlockToBlockchain fuel w data s = Inr (r, s')" "length data = sizeof_T"
  shows "grows s s'" "r = Some (i, b) \<Longrightarrow> i = a_next s \<and> GetData b = data"
    "(i, b) \<in> set (a_candidates s') \<Longrightarrow> i \<notin> fst ` set (a_candidates s) \<Longrightarrow> i = a_next s \<Longrightarrow> GetData b = data"
proof -
  have "grows s s' \<and> (r = Some (i, b) \<longrightarrow> i = a_next s \<and> GetData b = data) \<and>
    ((i, b) \<in> set (a_candidates s') \<longrightarrow> i \<notin> fst ` set (a_candidates s) \<longrightarrow> i = a_next s \<longrightarrow> GetData b = data)"
  proof (rule AddBlockToBlockchain_cases [OF assms(1)])
    fix b' key n s1 accepted s2 m s3
    assume peek: "SneakPeekBlock SHA256FromDataAndHash data raw_block (a_bc s) = Some b'"
      and send: "app_broadcast w (request_bytes \<lparr>bar_bmh = \<lparr>bmh_type = blockchain_type_code ADDREQUEST,
          bmh_peer_address = p_own_pa (a_peer s), bmh_index = chain_size s\<rparr>, bar_pow_size = of_nat (length key)\<rparr> @ key @
        DataFromBlock b') (s\<lparr>a_next := a_next s + 1\<rparr>) = Inr (n, s1)"
      and votes: "CheckVotesForBlock fuel w n b' True s1 = Inr (accepted, s2)"
      and vote: "app_broadcast w (vote_payload s (chain_size s) accepted b') s2 = Inr (m, s3)"
      and result: "if accepted then r = Some (a_next s, b') \<and> s' = s3\<lparr>a_candidates := a_candidates s3 @ [(a_next s, b')]\<rparr>
        else r = None \<and> s' = s3"
    have data: "GetData b' = data"
      using peek by (auto simp: SneakPeekBlock_def bind_eq_Some_conv Let_def Block_eq GetData_def)
    have "grows s1 s3"
      using CheckVotes_grows [OF votes] grows_broadcast [OF vote] by (blast intro: grows_trans)
    then have g: "grows (s\<lparr>a_next := a_next s + 1\<rparr>) s3"
      using grows_broadcast [OF send] by (rule grows_trans [rotated])
    have "grows s s'"
      using result grows_candidate [OF g, of b'] grows_trans [OF grows_new_id g] data assms(2) by (simp split: if_splits)
    moreover obtain cs where "a_candidates s3 = a_candidates s @ cs" "\<forall>(i, b) \<in> set cs. a_next s < i"
      using g by (fastforce simp: grows_def)
    ultimately show ?thesis
      using result data by (auto split: if_splits intro: rev_image_eqI)
  qed
  then show "grows s s'" "r = Some (i, b) \<Longrightarrow> i = a_next s \<and> GetData b = data"
    "(i, b) \<in> set (a_candidates s') \<Longrightarrow> i \<notin> fst ` set (a_candidates s) \<Longrightarrow> i = a_next s \<Longrightarrow> GetData b = data"
    by blast+
qed

lemma request_parts:
  assumes "bar_pow_size r = of_nat (length key)" "length key < 2 ^ 64" "length (GetHash b) < 2 ^ 64"
    "length (GetPrevHash b) < 2 ^ 64" "length (GetData b) = sizeof_T"
    and msg_def: "msg = request_bytes r @ key @ DataFromBlock b @ rest"
  shows "read_bmh msg = Some (bar_bmh r)" "read_request msg = Some r"
    "BlockFromData (drop (32 + unat (bar_pow_size r)) msg) = Some b" "read_bytes msg 32 (unat (bar_pow_size r)) = Some key"
proof -
  have key: "unat (bar_pow_size r) = length key"
    using assms(1,2) by (simp add: unat_of_nat)
  show "read_bmh msg = Some (bar_bmh r)"
    by (simp add: msg_def request_bytes_def)
  show "read_request msg = Some r"
    unfolding msg_def by (rule read_request_bytes)
  have "drop (32 + length key) msg = DataFromBlock b @ rest"
    by (simp add: msg_def)
  then show "BlockFromData (drop (32 + unat (bar_pow_size r)) msg) = Some b"
    using BlockFromData_DataFromBlock [OF assms(3-5)] key by simp
  show "read_bytes msg 32 (unat (bar_pow_size r)) = Some key"
    unfolding key msg_def by (rule read_bytes_append) simp_all
qed

lemma Handle_vote:
  assumes "HandleBlockAdditionRequest fuel w (request_bytes r @ key @ DataFromBlock b @ rest, len) allow_agree s = Inr (v, s')"
    "bar_pow_size r = of_nat (length key)" "length key < 2 ^ 64" "length (GetHash b) < 2 ^ 64" "length (GetPrevHash b) < 2 ^ 64"
    "length (GetData b) = sizeof_T" "bmh_index (bar_bmh r) \<le> chain_size s"
  shows "v \<longleftrightarrow> allow_agree \<and> bmh_index (bar_bmh r) = chain_size s \<and> GetTopHash (a_bc s) = Some (GetPrevHash b) \<and>
      GetHash b = SHA256FromDataAndHash (GetData b) (GetPrevHash b) \<and>
      CheckSolution DIFFICULTY (SHA256FromBlock b) key = Some True"
    "\<exists>frame more. frame_of P2P (vote_payload s (bmh_index (bar_bmh r)) v b) = Some frame \<and>
      a_sent s' = a_sent s @ map (\<lambda>pa. (frame, create_sockaddr_in pa)) (recipients w s) @ more"
proof -
  note parts = request_parts [OF assms(2-6) refl, of rest]
  have "(v \<longleftrightarrow> allow_agree \<and> bmh_index (bar_bmh r) = chain_size s \<and> GetTopHash (a_bc s) = Some (GetPrevHash b) \<and>
      GetHash b = SHA256FromDataAndHash (GetData b) (GetPrevHash b) \<and>
      CheckSolution DIFFICULTY (SHA256FromBlock b) key = Some True) \<and>
    (\<exists>frame more. frame_of P2P (vote_payload s (bmh_index (bar_bmh r)) v b) = Some frame \<and>
      a_sent s' = a_sent s @ map (\<lambda>pa. (frame, create_sockaddr_in pa)) (recipients w s) @ more)"
    using assms(1) unfolding HandleBlockAdditionRequest_def
  proof (rule handle_addition_request_cases)
    fix mh
    assume "read_bmh (fst (request_bytes r @ key @ DataFromBlock b @ rest, len)) = Some mh" "chain_size s < bmh_index mh"
    with parts(1) assms(7) show ?thesis by simp
  next
    fix r' b' key' ok n s1
    assume got: "read_request (fst (request_bytes r @ key @ DataFromBlock b @ rest, len)) = Some r'"
      "BlockFromData (drop (32 + unat (bar_pow_size r')) (fst (request_bytes r @ key @ DataFromBlock b @ rest, len))) = Some b'"
      "read_bytes (fst (request_bytes r @ key @ DataFromBlock b @ rest, len)) 32 (unat (bar_pow_size r')) = Some key'"
      "\<not> chain_size s < bmh_index (bar_bmh r')" "check_request r' b' key' s = Inr ok" "v \<longleftrightarrow> ok \<and> allow_agree"
      and send: "app_broadcast w (vote_payload s (bmh_index (bar_bmh r')) v b') (s\<lparr>a_next := a_next s + 1\<rparr>) = Inr (n, s1)"
      and tail: "if allow_agree then \<exists>accepted s2. CheckVotesForBlock fuel w n b' v s1 = Inr (accepted, s2) \<and>
         s' = (if accepted then s2\<lparr>a_candidates := a_candidates s2 @ [(a_next s, b')]\<rparr> else s2) else s' = s1"
    have same: "r' = r" "b' = b" "key' = key"
      using got(1-3) parts(2-4) by simp_all
    obtain frame where frame: "frame_of P2P (vote_payload s (bmh_index (bar_bmh r)) v b) = Some frame"
      "a_sent s1 = a_sent s @ map (\<lambda>pa. (frame, create_sockaddr_in pa)) (recipients w s)"
      using app_broadcast_sends [OF send] same by auto
    have "\<exists>more. a_sent s' = a_sent s1 @ more"
    proof (cases allow_agree)
      case True
      with tail obtain accepted s2 where two: "CheckVotesForBlock fuel w n b' v s1 = Inr (accepted, s2)"
        "a_sent s' = a_sent s2"
        by (auto split: if_splits)
      with CheckVotes_grows [OF two(1)] show ?thesis
        by (auto simp: grows_def)
    next
      case False
      with tail show ?thesis by simp
    qed
    with frame check_request_iff [OF got(5,4)] got(6) same show ?thesis
      by auto
  qed
  then show "v \<longleftrightarrow> allow_agree \<and> bmh_index (bar_bmh r) = chain_size s \<and> GetTopHash (a_bc s) = Some (GetPrevHash b) \<and>
      GetHash b = SHA256FromDataAndHash (GetData b) (GetPrevHash b) \<and>
      CheckSolution DIFFICULTY (SHA256FromBlock b) key = Some True"
    "\<exists>frame more. frame_of P2P (vote_payload s (bmh_index (bar_bmh r)) v b) = Some frame \<and>
      a_sent s' = a_sent s @ map (\<lambda>pa. (frame, create_sockaddr_in pa)) (recipients w s) @ more"
    by blast+
qed

lemma SneakPeek_next:
  assumes "SneakPeekBlock SHA256FromDataAndHash data raw_block bc = Some b" "chain_valid SHA256FromDataAndHash default_T bc"
    "length data = sizeof_T"
  shows "next_block bc b" "length (GetHash b) = 64" "length (GetPrevHash b) = 64" "GetData b = data"
proof -
  obtain top where top: "bc \<noteq> []" "top = last bc" "b = \<lparr>blk_data = data, blk_hash = SHA256FromDataAndHash data (blk_hash top),
      blk_prev_hash = blk_hash top\<rparr>"
    using assms(1) by (auto simp: SneakPeekBlock_def bind_eq_Some_conv vector_back_def Block_eq GetHash_def Let_def split: if_splits)
  have linked: "linked SHA256FromDataAndHash [] bc"
    using assms(2) by (simp add: chain_valid_def)
  have "top = bc ! (length bc - 1)" "length bc - 1 < length bc"
    using top(1,2) by (simp_all add: last_conv_nth)
  with linked_nth [OF linked, of "length bc - 1"] have "length (blk_hash top) = 64"
    by (simp add: SHA256FromDataAndHash_def)
  then show "next_block bc b" "length (GetHash b) = 64" "length (GetPrevHash b) = 64" "GetData b = data"
    using top assms(3)
    by (simp_all add: next_block_def GetTopHash_def vector_back_def GetHash_def GetPrevHash_def GetData_def SHA256FromDataAndHash_def)
qed

section \<open>Properties\<close>

text \<open>
  C20: A peer's vote on a request for the next block (or an earlier one) is decided by five conditions and nothing else: the caller allows
  agreeing, the index is the size of the chain, the block continues the chain's top hash, it carries its own hash, and
  its proof of work is valid. The first datagrams it sends are one and the same vote, which carries this decision and the
  block's hash.
\<close>

theorem HandleBlockAdditionRequest_vote:
  assumes "HandleBlockAdditionRequest fuel w (request_bytes r @ key @ DataFromBlock b @ rest, len) allow_agree s = Inr (v, s')"
    "bar_pow_size r = of_nat (length key)" "length key < 2 ^ 64" "length (GetHash b) < 2 ^ 64" "length (GetPrevHash b) < 2 ^ 64"
    "length (GetData b) = sizeof_T" "bmh_index (bar_bmh r) \<le> chain_size s"
  shows "(v \<longleftrightarrow> allow_agree \<and> bmh_index (bar_bmh r) = chain_size s \<and> GetTopHash (a_bc s) = Some (GetPrevHash b) \<and>
      GetHash b = SHA256FromDataAndHash (GetData b) (GetPrevHash b) \<and>
      CheckSolution DIFFICULTY (SHA256FromBlock b) key = Some True) \<and>
    (\<exists>frame more. frame_of P2P (vote_payload s (bmh_index (bar_bmh r)) v b) = Some frame \<and>
      a_sent s' = a_sent s @ map (\<lambda>pa. (frame, create_sockaddr_in pa)) (recipients w s) @ more)"
  using Handle_vote [OF assms] by blast

lemma nobody_broadcast:
  "\<exists>s'. app_broadcast (\<lambda>t. sample_tick (ms t) []) data s = Inr (0, s') \<and> core s' = core s"
  using frame_of_total [of P2P data] by (auto simp: app_broadcast_def broadcast_def Let_def)

lemma nobody_votes: "\<exists>s'. CheckVotesForBlock 1 (\<lambda>t. sample_tick (ms t) []) 0 b own s = Inr (own, s')"
  by (simp add: votes_body_def vote_init_def Let_def sample_place_back size_minus_def)

definition sample_request_message :: message where
  "sample_request_message = (request_bytes \<lparr>bar_bmh = \<lparr>bmh_type = blockchain_type_code ADDREQUEST,
     bmh_peer_address = other_peer, bmh_index = 0\<rparr>, bar_pow_size = 1\<rparr> @ [1] @ DataFromBlock sample_block @ [], 1809)"

theorem HandleBlockAdditionRequest_vote_witness:
  "\<exists>v s'. HandleBlockAdditionRequest 1 (\<lambda>t. sample_tick [] []) sample_request_message True (sample_app genesis []) = Inr (v, s') \<and> \<not> v"
proof -
  let ?w = "\<lambda>t :: nat. sample_tick [] []" and ?s = "sample_app genesis []"
  let ?r = "\<lparr>bar_bmh = \<lparr>bmh_type = blockchain_type_code ADDREQUEST, bmh_peer_address = other_peer, bmh_index = 0\<rparr>,
    bar_pow_size = 1\<rparr> :: addition_request"
  have parts: "read_bmh (fst sample_request_message) = Some (bar_bmh ?r)" "read_request (fst sample_request_message) = Some ?r"
    "BlockFromData (drop (32 + unat (bar_pow_size ?r)) (fst sample_request_message)) = Some sample_block"
    "read_bytes (fst sample_request_message) 32 (unat (bar_pow_size ?r)) = Some [1]"
    by (rule request_parts [where r = ?r and key = "[1]" and b = sample_block and rest = "[]"];
        simp add: sample_request_message_def)+
  have size: "chain_size ?s = 1" "chain_size (?s\<lparr>a_next := k\<rparr>) = 1" for k
    by (simp_all add: chain_size_def Size_def genesis_eq)
  have check: "check_request ?r sample_block [1] (?s\<lparr>a_next := k\<rparr>) = Inr False" for k
    by (simp add: check_request_def size)
  obtain s1 where send: "app_broadcast ?w (vote_payload (?s\<lparr>a_next := 1\<rparr>) 0 False sample_block) (?s\<lparr>a_next := 1\<rparr>) = Inr (0, s1)"
    using nobody_broadcast [of "\<lambda>_. []"] by blast
  obtain s2 where "CheckVotesForBlock 1 ?w 0 sample_block False s1 = Inr (False, s2)"
    using nobody_votes [of "\<lambda>_. []"] by blast
  then have "\<exists>v s'. HandleBlockAdditionRequest 1 ?w sample_request_message True ?s = Inr (v, s')"
    using parts size check send
    by (simp add: HandleBlockAdditionRequest_def handle_addition_request_def Let_def vote_payload_def sample_app_def del: CheckVotesForBlock.simps)
      (rule exI [of _ False], simp)
  then obtain v s' where run: "HandleBlockAdditionRequest 1 ?w sample_request_message True ?s = Inr (v, s')" by blast
  with HandleBlockAdditionRequest_vote [OF run [unfolded sample_request_message_def]] size show ?thesis
    by auto
qed

lemma CheckVotes_ballots:
  assumes "\<forall>t. tk_arrivals (w t) = [] \<and> tk_lock (w t) = 0 \<and> tk_unlock (w t) = 0" "length (GetHash b) < 2 ^ 64"
    "a_inbox s = map (ballot s b len) ballots" "distinct (map fst ballots)" "length ballots < fuel"
  shows "\<exists>s' k. CheckVotesForBlock fuel w (length ballots) b own_vote s =
    Inr (length ballots + 1 < 2 * ((if own_vote then 1 else 0) + length (filter snd ballots)), s') \<and>
    undisturbed w s s' \<and> a_inbox s' = map (ballot s b len) (drop k ballots)"
proof -
  obtain fuel' where fuel: "fuel = Suc fuel'"
    using assms(5) by (cases fuel) auto
  have calm: "calm w"
    using assms(1) by (simp add: calm_def)
  have init: "vl_clients_seen (vote_init own_vote) = []" "vl_tries (vote_init own_vote) = 0"
    "vl_n_agrees (vote_init own_vote) = (if own_vote then 1 else 0)" "vl_read_messages (vote_init own_vote) = []"
    by (simp_all add: vote_init_def)
  have "\<exists>s'' k. repeat_body (Suc fuel') (votes_body (handle_addition_request (CheckVotesForBlock fuel' w) w) w (length ballots + 1) b)
      (vote_init own_vote, s) = Inr (length ballots + 1 < 2 * (vl_n_agrees (vote_init own_vote) + length (filter snd ballots)), s'') \<and>
      undisturbed w s s'' \<and> a_inbox s'' = map (ballot s b len) (drop k ballots)"
    by (rule count_ballots [OF calm assms(2,3)]) (use assms(4,5) fuel init tally_ok_init in simp_all)
  then show ?thesis
    unfolding fuel CheckVotesForBlock.simps init .
qed

lemma CheckVotes_ballots_result:
  assumes "\<forall>t. tk_arrivals (w t) = [] \<and> tk_lock (w t) = 0 \<and> tk_unlock (w t) = 0" "length (GetHash b) < 2 ^ 64"
    "a_inbox s = map (ballot s b len) ballots" "distinct (map fst ballots)" "length ballots < fuel"
  shows "\<exists>s'. CheckVotesForBlock fuel w (length ballots) b own_vote s =
    Inr (length ballots + 1 < 2 * ((if own_vote then 1 else 0) + length (filter snd ballots)), s')"
  using CheckVotes_ballots [OF assms, of own_vote] by blast

lemma ballot_sample: "ballot (sample_app bc inbox) = ballot (sample_app bc [])"
  by (simp add: ballot_def chain_size_def fun_eq_iff)

text \<open>
  C19: The count is exact: when every one of the \<open>n\<close> other peers has cast one vote for the block at the next index, in any
  order, \<^verbatim>\<open>CheckVotesForBlock\<close> accepts exactly when more than half of the \<open>n + 1\<close> votes, its own included, agree; an even
  split rejects. The early decisions never change this outcome.
\<close>

theorem CheckVotesForBlock_counts_majority:
  assumes "\<forall>t. tk_arrivals (w t) = [] \<and> tk_lock (w t) = 0 \<and> tk_unlock (w t) = 0" "length (GetHash b) < 2 ^ 64"
    "a_inbox s = map (ballot s b len) ballots" "distinct (map fst ballots)" "length ballots < fuel"
  shows "\<exists>s'. CheckVotesForBlock fuel w (length ballots) b own_vote s =
    Inr (length ballots + 1 < 2 * ((if own_vote then 1 else 0) + length (filter snd ballots)), s')"
  by (rule CheckVotes_ballots_result [OF assms])

theorem CheckVotesForBlock_counts_majority_witness:
  "\<exists>s'. CheckVotesForBlock 4 (\<lambda>t. sample_tick [] []) 3 sample_block True
    (sample_app genesis (map (ballot (sample_app genesis []) sample_block 104)
      [(init_peer_address 2 81 1, True), (init_peer_address 2 82 1, False), (init_peer_address 2 83 1, True)])) = Inr (True, s')"
proof -
  let ?v = "[(init_peer_address 2 81 1, True), (init_peer_address 2 82 1, False), (init_peer_address 2 83 1, True)]"
  let ?s = "sample_app genesis (map (ballot (sample_app genesis []) sample_block 104) ?v)"
  have inbox: "a_inbox ?s = map (ballot ?s sample_block 104) ?v"
    by (simp add: ballot_sample [of genesis "map _ _"] del: list.map)
  have "\<exists>s'. CheckVotesForBlock 4 (\<lambda>t. sample_tick [] []) (length ?v) sample_block True ?s =
      Inr (length ?v + 1 < 2 * ((if True then 1 else 0) + length (filter snd ?v)), s')"
    by (rule CheckVotesForBlock_counts_majority [OF _ _ inbox]) (simp_all add: init_peer_address_def)
  moreover have "length ?v = 3" "length ?v + 1 < 2 * ((if True then 1 else 0) + length (filter snd ?v))"
    by simp_all
  ultimately show ?thesis by metis
qed

text \<open>
  C22: Counting votes ends when only finitely many messages arrive, however many requests it handles in between: fuel for each
  message still to come and ten tries per peer is enough.
\<close>

theorem CheckVotesForBlock_ends:
  assumes "\<forall>t \<ge> T. tk_arrivals (w t) = []" "\<forall>t p. p_n_peers (tk_peer (w t) p) \<le> N" "n_peers \<le> N"
    "length (a_inbox s) + (\<Sum>t = a_clock s..<T. length (tk_arrivals (w t))) + (N + 1) * nat n_tries < fuel"
  shows "CheckVotesForBlock fuel w n_peers b own_vote s \<noteq> Inl Out_of_fuel"
proof (rule CheckVotes_ends(2))
  show "quiet_after T w" "peers_at_most N w"
    using assms(1,2) by (simp_all add: quiet_after_def peers_at_most_def)
qed (use assms(3,4) in \<open>simp_all add: enough_def pending_def\<close>)

theorem CheckVotesForBlock_ends_witness:
  "CheckVotesForBlock 22 (\<lambda>t. sample_tick [] [other_peer]) 1 sample_block True (sample_app genesis [sample_answer]) \<noteq> Inl Out_of_fuel"
  by (rule CheckVotesForBlock_ends [where T = 0 and N = 1]) (simp_all add: n_tries_def)

text \<open>
  C4: In any run, whatever arrives in whatever order and however requests nest, a block is accepted only with a strict majority of all
  peers behind it: counting each peer once, and only peers for which a message with an agreeing vote for this hash and
  index was in the mailbox or arrived during the run, they and this peer's own vote are more than half. Counting never
  touches the chain or the transactions.
\<close>

theorem CheckVotesForBlock_needs_majority:
  assumes "CheckVotesForBlock fuel w n_peers b own_vote s = Inr (accepted, s')"
  shows "a_bc s' = a_bc s \<and> a_transactions s' = a_transactions s \<and>
    (accepted \<longrightarrow> n_peers + 1 < 2 * ((if own_vote then 1 else 0) +
       card {pa. \<exists>m \<in> set (a_inbox s) \<union> (\<Union>t \<in> {a_clock s..<a_clock s'}. set (tk_arrivals (w t))).
         agrees_with (chain_size s) b m pa}))"
  using CheckVotes_post [OF assms] by (simp_all add: votes_post_def grows_def supporters_def heard_def)

theorem CheckVotesForBlock_needs_majority_witness:
  "\<exists>ms s'. let s = sample_app genesis ms in
    CheckVotesForBlock 3 (\<lambda>t. sample_tick [] []) 2 sample_block True s = Inr (True, s') \<and> length ms = 2 \<and>
    3 < 2 * (1 + card {pa. \<exists>m \<in> set ms. agrees_with (chain_size s) sample_block m pa})"
proof -
  let ?v = "[(init_peer_address 2 81 1, False), (init_peer_address 2 82 1, True)]"
  let ?s = "sample_app genesis (map (ballot (sample_app genesis []) sample_block 104) ?v)"
  have inbox: "a_inbox ?s = map (ballot ?s sample_block 104) ?v"
    by (simp add: ballot_sample [of genesis "map _ _"] del: list.map)
  have "\<exists>s'. CheckVotesForBlock 3 (\<lambda>t. sample_tick [] []) (length ?v) sample_block True ?s =
      Inr (length ?v + 1 < 2 * ((if True then 1 else 0) + length (filter snd ?v)), s')"
    by (rule CheckVotes_ballots_result [OF _ _ inbox]) (simp_all add: init_peer_address_def)
  moreover have "length ?v = 2" "length ?v + 1 < 2 * ((if True then 1 else 0) + length (filter snd ?v))"
    by simp_all
  ultimately obtain s' where run: "CheckVotesForBlock 3 (\<lambda>t. sample_tick [] []) 2 sample_block True ?s = Inr (True, s')"
    by metis
  from CheckVotesForBlock_needs_majority [OF run] run show ?thesis
    by (intro exI [of _ "a_inbox ?s"] exI [of _ s']) (simp add: Let_def del: CheckVotesForBlock.simps)
qed

text \<open>
  C16: A proposal persuades: the first datagrams of \<^verbatim>\<open>AddBlockToBlockchain\<close> are one and the same request, to which every peer with
  the same chain votes to agree, whenever it may agree and whatever else it receives (unless the search for a proof of
  work gave up). The request has even length, so that the receivers' checksum test can accept it whatever its contents,
  exactly when the proof of work has.
\<close>

theorem proposal_convinces_same_chain:
  assumes "AddBlockToBlockchain fuel w data s = Inr (r, s')" "chain_valid SHA256FromDataAndHash default_T (a_bc s)"
    "length data = sizeof_T"
  shows "\<exists>b key frame payload more. SneakPeekBlock SHA256FromDataAndHash data raw_block (a_bc s) = Some b \<and>
    SolveProblem DIFFICULTY (SHA256FromBlock b) = Some (Inr key) \<and> frame_of P2P payload = Some frame \<and>
    a_sent s' = a_sent s @ map (\<lambda>pa. (frame, create_sockaddr_in pa)) (recipients w s) @ more \<and>
    (even (length payload) \<longleftrightarrow> even (length key)) \<and>
    (next_key key = None \<or>
     (\<forall>fuel2 w2 len s2 v s2'. a_bc s2 = a_bc s \<longrightarrow>
        HandleBlockAdditionRequest fuel2 w2 (payload, len) True s2 = Inr (v, s2') \<longrightarrow> v))"
proof (rule AddBlockToBlockchain_cases [OF assms(1)])
  fix b key n s1 accepted s2 m s3
  assume peek: "SneakPeekBlock SHA256FromDataAndHash data raw_block (a_bc s) = Some b"
    and solved: "SolveProblem DIFFICULTY (SHA256FromBlock b) = Some (Inr key)"
    and send: "app_broadcast w (request_bytes \<lparr>bar_bmh = \<lparr>bmh_type = blockchain_type_code ADDREQUEST,
        bmh_peer_address = p_own_pa (a_peer s), bmh_index = chain_size s\<rparr>, bar_pow_size = of_nat (length key)\<rparr> @ key @
      DataFromBlock b) (s\<lparr>a_next := a_next s + 1\<rparr>) = Inr (n, s1)"
    and votes: "CheckVotesForBlock fuel w n b True s1 = Inr (accepted, s2)"
    and vote: "app_broadcast w (vote_payload s (chain_size s) accepted b) s2 = Inr (m, s3)"
    and result: "if accepted then r = Some (a_next s, b) \<and> s' = s3\<lparr>a_candidates := a_candidates s3 @ [(a_next s, b)]\<rparr>
      else r = None \<and> s' = s3"
  define q where "q = \<lparr>bar_bmh = \<lparr>bmh_type = blockchain_type_code ADDREQUEST, bmh_peer_address = p_own_pa (a_peer s),
    bmh_index = chain_size s\<rparr>, bar_pow_size = of_nat (length key)\<rparr>"
  note b = SneakPeek_next [OF peek assms(2,3)]
  have key: "0 < length key" "length key \<le> 16" "CheckSolution DIFFICULTY (SHA256FromBlock b) key = Some True \<or> next_key key = None"
    using solve_loop_result [of "SHA256FromBlock b" "[0]" DIFFICULTY] solved by (auto simp: SolveProblem_def SHA256FromBlock_def)
  obtain frame where frame: "frame_of P2P (request_bytes q @ key @ DataFromBlock b) = Some frame"
    "a_sent s1 = a_sent s @ map (\<lambda>pa. (frame, create_sockaddr_in pa)) (recipients w s)"
    using app_broadcast_sends [OF send] by (auto simp: q_def)
  have "grows s1 s3"
    using CheckVotes_grows [OF votes] grows_broadcast [OF vote] by (blast intro: grows_trans)
  then obtain more where "a_sent s' = a_sent s1 @ more"
    using result by (auto simp: grows_def split: if_splits)
  with frame have sent: "a_sent s' = a_sent s @ map (\<lambda>pa. (frame, create_sockaddr_in pa)) (recipients w s) @ more" by simp
  have size: "even (length (request_bytes q @ key @ DataFromBlock b)) \<longleftrightarrow> even (length key)"
    using b assms(3) by (simp add: length_DataFromBlock sizeof_T_def MAX_TRANSACTIONS_def)
  have "v" if "CheckSolution DIFFICULTY (SHA256FromBlock b) key = Some True" "a_bc s2 = a_bc s"
    "HandleBlockAdditionRequest fuel2 w2 (request_bytes q @ key @ DataFromBlock b, len) True s2 = Inr (v, s2')"
    for fuel2 w2 len s2 v s2'
  proof -
    have "chain_size s2 = bmh_index (bar_bmh q)"
      using that(2) by (simp add: chain_size_def q_def)
    with Handle_vote(1) [of fuel2 w2 q key b "[]" len True s2 v s2'] that b key(2) show ?thesis
      by (simp add: q_def next_block_def)
  qed
  with peek solved frame(1) sent size key(3) show ?thesis
    by blast
qed

theorem proposal_convinces_same_chain_witness:
  "\<exists>r s' b key. AddBlockToBlockchain 1 (\<lambda>t. sample_tick [] []) default_T (sample_app genesis []) = Inr (r, s') \<and>
    SneakPeekBlock SHA256FromDataAndHash default_T raw_block genesis = Some b \<and>
    SolveProblem DIFFICULTY (SHA256FromBlock b) = Some (Inr key)"
proof -
  let ?w = "\<lambda>t :: nat. sample_tick [] []" and ?s = "sample_app genesis []"
  obtain b where b: "SneakPeekBlock SHA256FromDataAndHash default_T raw_block genesis = Some b"
    by (simp add: SneakPeekBlock_def vector_back_def genesis_eq Let_def)
  obtain key where key: "solve (SHA256FromBlock b) = Inr key"
    using solve_loop_result [of "SHA256FromBlock b" "[0]" DIFFICULTY]
    by (auto simp: solve_eq_Inr SolveProblem_def SHA256FromBlock_def)
  have size: "chain_size (?s\<lparr>a_next := k\<rparr>) = chain_size ?s" for k
    by (simp add: chain_size_def)
  have send: "\<exists>s'. app_broadcast ?w data s = Inr (0, s')" for data s
    using nobody_broadcast [of "\<lambda>_. []"] by blast
  then obtain s1 where s1: "app_broadcast ?w (request_bytes \<lparr>bar_bmh = \<lparr>bmh_type = blockchain_type_code ADDREQUEST,
        bmh_peer_address = p_own_pa (a_peer (?s\<lparr>a_next := 1\<rparr>)), bmh_index = chain_size ?s\<rparr>, bar_pow_size = of_nat (length key)\<rparr> @ key @
      DataFromBlock b) (?s\<lparr>a_next := 1\<rparr>) = Inr (0, s1)"
    by blast
  obtain s2 where s2: "CheckVotesForBlock 1 ?w 0 b True s1 = Inr (True, s2)"
    using nobody_votes [of "\<lambda>_. []"] by blast
  obtain s3 where s3: "app_broadcast ?w (vote_payload (?s\<lparr>a_next := 1\<rparr>) (chain_size ?s) True b) s2 = Inr (0, s3)"
    using send by blast
  have "\<exists>r s'. AddBlockToBlockchain 1 ?w default_T ?s = Inr (r, s')"
    using b key s1 s2 s3 size by (simp add: AddBlockToBlockchain_def Let_def vote_payload_def del: CheckVotesForBlock.simps)
  then obtain r s' where run: "AddBlockToBlockchain 1 ?w default_T ?s = Inr (r, s')" by blast
  have size: "length default_T = sizeof_T"
    by (simp add: default_T_def)
  from proposal_convinces_same_chain [OF run _ size] run show ?thesis
    by auto
qed

text \<open>
  C21: Handling all pending requests leaves the chain and the transactions alone and empties the candidates; it returns one with
  the least hash of all candidates collected (those from before among them), and none only if there were none. So
  peers that collect the same blocks choose blocks with the same hash, whatever the order.
\<close>

theorem HandleAllBlockAdditionRequests_chooses_least:
  assumes "HandleAllBlockAdditionRequests fuel w s = Inr (best, s')"
  shows "a_bc s' = a_bc s \<and> a_transactions s' = a_transactions s \<and> a_candidates s' = [] \<and>
    (\<exists>ms s1. repeat_body fuel (requests_body fuel w) ([], s) = Inr (ms, s1) \<and> prefix (a_candidates s) (a_candidates s1) \<and>
       (best = None \<longleftrightarrow> a_candidates s1 = []) \<and>
       (\<forall>c. best = Some c \<longrightarrow> c \<in> set (a_candidates s1) \<and> (\<forall>x \<in> set (a_candidates s1). GetHash (snd c) \<le> GetHash (snd x))))"
proof -
  obtain ms s1 where s1: "repeat_body fuel (requests_body fuel w) ([], s) = Inr (ms, s1)" "grows s s1" "a_bc s' = a_bc s"
    "a_transactions s' = a_transactions s" "a_candidates s' = []"
    "case best of None \<Rightarrow> a_candidates s1 = []
     | Some c \<Rightarrow> c \<in> set (a_candidates s1) \<and> (\<forall>x \<in> set (a_candidates s1). GetHash (snd c) \<le> GetHash (snd x))"
    using HandleAll_best [OF assms] by blast
  have "prefix (a_candidates s) (a_candidates s1)"
    using s1(2) by (auto simp: grows_def)
  with s1 show ?thesis
    by (intro conjI exI [of _ ms] exI [of _ s1]) (auto split: option.splits)
qed

theorem HandleAllBlockAdditionRequests_chooses_least_witness:
  "\<exists>s'. HandleAllBlockAdditionRequests 1 (\<lambda>t. sample_tick [] [])
      ((sample_app genesis [])\<lparr>a_candidates := [(0, sample_block\<lparr>blk_hash := [5]\<rparr>), (1, sample_block\<lparr>blk_hash := [4, 9]\<rparr>)]\<rparr>) =
    Inr (Some (1, sample_block\<lparr>blk_hash := [4, 9]\<rparr>), s') \<and> a_candidates s' = []"
proof -
  let ?s = "(sample_app genesis [])\<lparr>a_candidates := [(0, sample_block\<lparr>blk_hash := [5]\<rparr>), (1, sample_block\<lparr>blk_hash := [4, 9]\<rparr>)]\<rparr>"
  obtain s' where run: "HandleAllBlockAdditionRequests 1 (\<lambda>t. sample_tick [] []) ?s =
      Inr (Some (1, sample_block\<lparr>blk_hash := [4, 9]\<rparr>), s')"
    by (simp add: HandleAllBlockAdditionRequests_def requests_body_def sample_take sample_place_back GetHash_def)
  from HandleAllBlockAdditionRequests_chooses_least [OF run] run show ?thesis by blast
qed

end
