(* ===== verification/Application.thy ===== *)
theory Application
  imports Voting
begin

text \<open>
  The application as a whole, \<^verbatim>\<open>application/application.cc\<close>: construction and destruction, loading the initial
  transactions, and the iterations of \<^verbatim>\<open>Run\<close> on the main thread, composed of catching up (\<open>ChainSync\<close>), voting (\<open>Voting\<close>)
  and the chain (\<open>Blockchain\<close>).
\<close>

section \<open>Start and end\<close>

fun initialize_loop :: "world \<Rightarrow> bytes list \<Rightarrow> app \<Rightarrow> stop + app" where
  "initialize_loop w [] s = Inr s"
| "initialize_loop w (ts # transactions) s =
     (let block_id = Size (a_bc s);
          s = log_entry w (LogBlockAddedStart block_id) s
      in attempt (add_block ts s) (\<lambda>s.
         let s = s\<lparr>a_transactions := transactions\<rparr>
         in initialize_loop w transactions (log_entry w (LogBlockAddedStop block_id True) s)))"

definition initialize :: "world \<Rightarrow> app \<Rightarrow> stop + app" where
  "initialize w s = attempt (initialize_loop w (a_transactions s) s) (\<lambda>s. Inr (log_write_back w s))"

text \<open>
  The constructor. \<open>init\<close> is the result of \<^verbatim>\<open>init_peer\<close> on the command line's addresses, \<open>mutex_init\<close> of
  initialising the mailbox's mutex; the proof-of-work object is the difficulty \<open>DIFFICULTY\<close>. The thread it starts is part of the
  worlds.
\<close>

definition new_Application :: "world \<Rightarrow> int \<Rightarrow> peer option \<Rightarrow> bytes list \<Rightarrow> char \<Rightarrow> stop + app" where
  "new_Application w mutex_init init_result transactions init =
     attempt (new_LockVector mutex_init) (\<lambda>inbox.
     attempt (from_option Exits init_result) (\<lambda>peer.
     let s = \<lparr>a_bc = new_blockchain SHA256FromDataAndHash default_T raw_block, a_inbox = inbox, a_transactions = transactions,
              a_candidates = [], a_peer = peer, a_log = new_Logger (tk_now (w 0)), a_file = [], a_sent = [],
              a_next = 0, a_clock = 1\<rparr>
     in if init = CHR ''1'' then initialize w s else Inr s))"

text \<open>The destructor stops the peer; the rest frees memory.\<close>

definition delete_Application :: "app \<Rightarrow> peer \<times> datagrams" where
  "delete_Application s = exit_peer (a_peer s)"

section \<open>The main loop\<close>

text \<open>Adding the chosen candidate, if there is one.\<close>

definition add_best :: "(nat \<times> b_type) option \<Rightarrow> app \<Rightarrow> stop + app" where
  "add_best best s = (case best of Some c \<Rightarrow> add_block (GetData (snd c)) s | None \<Rightarrow> Inr s)"

definition handle_message :: "nat \<Rightarrow> world \<Rightarrow> message \<Rightarrow> app \<Rightarrow> stop + app" where
  "handle_message fuel w inbox_item s =
     attempt (from_option Undefined (read_bmh (fst inbox_item))) (\<lambda>mh.
     if bmh_type mh = blockchain_type_code REQUESTBLOCK then SendBlockchain w mh s
     else if bmh_type mh = blockchain_type_code ADDREQUEST then
       attempt (RequestBlockchain fuel w s) (\<lambda>s.
       attempt (HandleBlockAdditionRequest fuel w inbox_item True s) (\<lambda>(_, s).
       attempt (HandleAllBlockAdditionRequests fuel w s) (\<lambda>(best, s). add_best best s)))
     else Inr s)"

text \<open>Processing the first transaction; the pointers to the proposed and to the best block are compared.\<close>

definition process_transaction :: "nat \<Rightarrow> world \<Rightarrow> app \<Rightarrow> stop + app" where
  "process_transaction fuel w s =
     (let block_id = Size (a_bc s);
          s = log_entry w (LogBlockAddedStart block_id) s;
          ts = hd (a_transactions s)
      in
      attempt (RequestBlockchain fuel w s) (\<lambda>s.
      attempt (AddBlockToBlockchain fuel w ts s) (\<lambda>(new_block, s).
      attempt (HandleAllBlockAdditionRequests fuel w s) (\<lambda>(best, s).
      case best of
        Some c \<Rightarrow>
          attempt (add_block (GetData (snd c)) s) (\<lambda>s.
          if map_option fst new_block = Some (fst c) then
            Inr (log_entry w (LogBlockAddedStop block_id True) (s\<lparr>a_transactions := tl (a_transactions s)\<rparr>))
          else Inr (log_entry w (LogBlockAddedStop block_id False) s))
      | None \<Rightarrow> Inr (log_entry w (LogBlockAddedStop block_id False) s)))))"

text \<open>
  One iteration of the \<^verbatim>\<open>while (1)\<close> of \<^verbatim>\<open>Run\<close>. Reading a flag of the peer is an interaction with the thread that sets
  them, so both may change between the two tests. Sleeping changes nothing.
\<close>

definition Run_iteration :: "nat \<Rightarrow> world \<Rightarrow> app \<Rightarrow> stop + app" where
  "Run_iteration fuel w s =
     (let s = sync w s in
      if p_is_online (a_peer s) then
        (let s = sync w s; (refresh, p) = should_refresh (a_peer s); s = s\<lparr>a_peer := p\<rparr> in
         if refresh then RequestBlockchain fuel w s
         else
           attempt (take_message w s) (\<lambda>(item, s).
           case item of
             Some inbox_item \<Rightarrow> handle_message fuel w inbox_item s
           | None \<Rightarrow>
               if a_transactions s \<noteq> [] then process_transaction fuel w s
               else attempt (RequestBlockchain fuel w s) (\<lambda>s. Inr (log_write_back w s))))
      else Inr s)"

text \<open>
  The main loop: an iteration for every element of the schedule, which says what the world does during the iteration and
  how much fuel its loops get.
\<close>

definition Run :: "(nat \<times> world) list \<Rightarrow> app \<Rightarrow> stop + app" where
  "Run rounds s = run_events (\<lambda>(fuel, w). Run_iteration fuel w) rounds s"

section \<open>Invariant\<close>

text \<open>
  The chain is valid, its blocks and the waiting transactions have their full size, and no candidate is left
  between iterations.
\<close>

definition app_inv :: "app \<Rightarrow> bool" where
  "app_inv s \<longleftrightarrow> chain_valid SHA256FromDataAndHash default_T (a_bc s) \<and> (\<forall>b \<in> set (a_bc s). length (blk_data b) = sizeof_T) \<and>
     (\<forall>ts \<in> set (a_transactions s). length ts = sizeof_T) \<and> a_candidates s = []"

text \<open>What an iteration does to the chain and to the transactions.\<close>

definition advances :: "app \<Rightarrow> app \<Rightarrow> bool" where
  "advances s s' \<longleftrightarrow> (\<exists>bs. a_bc s' = a_bc s @ bs \<and>
     (a_transactions s' = a_transactions s \<or>
      (\<exists>b. bs \<noteq> [] \<and> last bs = b \<and> a_transactions s = GetData b # a_transactions s')))"

lemma follows_sizes: "follows bc bs \<Longrightarrow> \<forall>b \<in> set bs. length (blk_data b) = sizeof_T"
  by (induction bs arbitrary: bc) (auto simp: next_block_def GetData_def)

lemma add_block_facts:
  assumes "add_block data s = Inr s'" "chain_valid SHA256FromDataAndHash default_T (a_bc s)"
  shows "chain_valid SHA256FromDataAndHash default_T (a_bc s')" "\<exists>b. a_bc s' = a_bc s @ [b] \<and> blk_data b = data"
    "a_transactions s' = a_transactions s" "a_candidates s' = a_candidates s"
proof -
  have "a_bc s \<noteq> []"
    using assms(2) by (simp add: chain_valid_def)
  then obtain bc where bc: "AddBlock SHA256FromDataAndHash data raw_block (a_bc s) = Some bc" "s' = s\<lparr>a_bc := bc\<rparr>"
    "\<exists>b. bc = a_bc s @ [b] \<and> blk_data b = data"
    using assms(1) by (auto simp: add_block_def attempt_eq_Inr from_option_eq_Inr AddBlock_eq)
  with AddBlock_valid [OF assms(2), of data raw_block]
  show "chain_valid SHA256FromDataAndHash default_T (a_bc s')" "\<exists>b. a_bc s' = a_bc s @ [b] \<and> blk_data b = data"
    "a_transactions s' = a_transactions s" "a_candidates s' = a_candidates s"
    by auto
qed

lemma caught_up_inv:
  assumes "caught_up s s'" "app_inv s"
  shows "app_inv s'" "\<exists>bs. a_bc s' = a_bc s @ bs" "a_transactions s' = a_transactions s"
proof -
  obtain bs where bs: "a_bc s' = a_bc s @ bs" "follows (a_bc s) bs"
    using assms(1) by (auto simp: caught_up_def)
  with assms follows_valid [OF bs(2)] follows_sizes [OF bs(2)] show "app_inv s'"
    by (auto simp: app_inv_def caught_up_def)
  from bs assms(1) show "\<exists>bs. a_bc s' = a_bc s @ bs" "a_transactions s' = a_transactions s"
    by (auto simp: caught_up_def)
qed

lemma app_inv_core: "core s' = core s \<Longrightarrow> app_inv s \<Longrightarrow> app_inv s'"
  by (auto simp: app_inv_def core_def)

lemma advances_core: "core s' = core s \<Longrightarrow> advances s s'"
  by (auto simp: advances_def core_def)

lemma advances_caught_up: "caught_up s s' \<Longrightarrow> advances s s'"
  by (auto simp: advances_def caught_up_def)

text \<open>The last part of every addition: the best of the candidates goes on the chain.\<close>

lemma HandleAll_add:
  assumes inv: "app_inv s0" and grow: "grows s0 s" and all: "HandleAllBlockAdditionRequests fuel w s = Inr (best, s1)"
    and add: "add_best best s1 = Inr s2"
  shows "app_inv s2" "\<exists>bs. a_bc s2 = a_bc s0 @ bs" "a_transactions s2 = a_transactions s0"
    "best = Some c \<Longrightarrow> (\<exists>b. a_bc s2 = a_bc s0 @ [b] \<and> GetData b = GetData (snd c)) \<and> (\<exists>s1. grows s s1 \<and> c \<in> set (a_candidates s1))"
proof -
  obtain s1' where s1': "grows s s1'" "a_bc s1 = a_bc s" "a_transactions s1 = a_transactions s" "a_candidates s1 = []"
    "case best of None \<Rightarrow> a_candidates s1' = []
     | Some c \<Rightarrow> c \<in> set (a_candidates s1') \<and> (\<forall>x \<in> set (a_candidates s1'). GetHash (snd c) \<le> GetHash (snd x))"
    using HandleAll_best [OF all] by blast
  have g: "grows s0 s1'"
    using grow s1'(1) by (rule grows_trans)
  have same: "a_bc s1 = a_bc s0" "a_transactions s1 = a_transactions s0" "a_candidates s1 = []"
    using s1' grow by (auto simp: grows_def)
  then have valid: "chain_valid SHA256FromDataAndHash default_T (a_bc s1)"
    using inv by (simp add: app_inv_def)
  have "app_inv s2 \<and> (\<exists>bs. a_bc s2 = a_bc s0 @ bs) \<and> a_transactions s2 = a_transactions s0 \<and>
    (best = Some c \<longrightarrow> (\<exists>b. a_bc s2 = a_bc s0 @ [b] \<and> GetData b = GetData (snd c)) \<and> (\<exists>s1. grows s s1 \<and> c \<in> set (a_candidates s1)))"
  proof (cases best)
    case None
    with add same inv show ?thesis
      by (auto simp: add_best_def app_inv_def)
  next
    case (Some d)
    then have "add_block (GetData (snd d)) s1 = Inr s2"
      using add by (simp add: add_best_def)
    note facts = add_block_facts [OF this valid]
    have "d \<in> set (a_candidates s1')"
      using s1'(5) Some by simp
    moreover from this have "length (GetData (snd d)) = sizeof_T"
      using g inv by (auto simp: grows_def app_inv_def)
    ultimately show ?thesis
      using facts same inv Some s1'(1) by (auto simp: app_inv_def GetData_def)
  qed
  then show "app_inv s2" "\<exists>bs. a_bc s2 = a_bc s0 @ bs" "a_transactions s2 = a_transactions s0"
    "best = Some c \<Longrightarrow> (\<exists>b. a_bc s2 = a_bc s0 @ [b] \<and> GetData b = GetData (snd c)) \<and> (\<exists>s1. grows s s1 \<and> c \<in> set (a_candidates s1))"
    by blast+
qed


lemma advances_refl: "advances s s"
  by (simp add: advances_def)

text \<open>Handling one message.\<close>

lemma handle_message_ok:
  assumes w: "world_ok w" and inv: "app_inv s" and run: "handle_message fuel w item s = Inr s'"
  shows "app_inv s' \<and> advances s s'"
proof -
  obtain mh where mh: "read_bmh (fst item) = Some mh"
    using run by (auto simp: handle_message_def attempt_eq_Inr from_option_eq_Inr)
  consider (ask) "bmh_type mh = blockchain_type_code REQUESTBLOCK" |
    (add) "bmh_type mh \<noteq> blockchain_type_code REQUESTBLOCK" "bmh_type mh = blockchain_type_code ADDREQUEST" |
    (other) "bmh_type mh \<noteq> blockchain_type_code REQUESTBLOCK" "bmh_type mh \<noteq> blockchain_type_code ADDREQUEST"
    by blast
  then show ?thesis
  proof cases
    case ask
    then have "SendBlockchain w mh s = Inr s'"
      using run mh by (simp add: handle_message_def attempt_eq_Inr from_option_eq_Inr)
    then have "core s' = core s"
      by (rule core_SendBlockchain)
    then show ?thesis
      using inv by (auto intro: app_inv_core advances_core)
  next
    case add
    with run mh obtain s1 v s2 best s3 where 1: "RequestBlockchain fuel w s = Inr s1"
      and 2: "HandleBlockAdditionRequest fuel w item True s1 = Inr (v, s2)"
      and 3: "HandleAllBlockAdditionRequests fuel w s2 = Inr (best, s3)" and 4: "add_best best s3 = Inr s'"
      by (auto simp: handle_message_def attempt_eq_Inr from_option_eq_Inr)
    note up = caught_up_inv [OF RequestBlockchain_caught_up [OF w 1] inv]
    note added = HandleAll_add [OF up(1) Handle_grows [OF 2] 3 4]
    from up added(1-3) show ?thesis
      by (auto simp: advances_def)
  next
    case other
    with run mh inv show ?thesis
      by (simp add: handle_message_def attempt_eq_Inr from_option_eq_Inr advances_refl)
  qed
qed

text \<open>Every proposal takes a number, so a candidate with an old number is an old candidate.\<close>

lemma AddBlockToBlockchain_next:
  assumes "AddBlockToBlockchain fuel w data s = Inr (r, s')"
  shows "a_next s < a_next s'"
proof (rule AddBlockToBlockchain_cases [OF assms], goal_cases)
  case (1 b key n s1 accepted s2 m s3)
  have "grows (s\<lparr>a_next := a_next s + 1\<rparr>) s1" "grows s1 s2" "grows s2 s3"
    using grows_broadcast [OF 1(3)] CheckVotes_grows [OF 1(4)] grows_broadcast [OF 1(5)] by auto
  with 1(6) show ?case
    by (simp add: grows_def split: if_splits)
qed

lemma grows_old_candidate: "grows s s' \<Longrightarrow> c \<in> set (a_candidates s') \<Longrightarrow> fst c < a_next s \<Longrightarrow> c \<in> set (a_candidates s)"
  by (fastforce simp: grows_def)

text \<open>Processing an own transaction, which leaves the list exactly when its block has gone on the chain.\<close>

lemma process_transaction_ok:
  assumes w: "world_ok w" and inv: "app_inv s" and some: "a_transactions s = ts # rest"
    and run: "process_transaction fuel w s = Inr s'"
  shows "app_inv s' \<and> advances s s'"
proof -
  define s0 where "s0 = log_entry w (LogBlockAddedStart (Size (a_bc s))) s"
  have core0: "core s0 = core s"
    by (simp add: s0_def)
  then have same: "a_bc s0 = a_bc s" "a_transactions s0 = a_transactions s" "hd (a_transactions s0) = ts"
    using some by (simp_all add: core_def)
  note run = run [unfolded process_transaction_def Let_def, folded s0_def]
  obtain s1 where 1: "RequestBlockchain fuel w s0 = Inr s1"
    using run by (auto simp: attempt_eq_Inr)
  obtain blk s2 where 2: "AddBlockToBlockchain fuel w ts s1 = Inr (blk, s2)"
    using run 1 same by (auto simp: attempt_eq_Inr)
  obtain best s3 where 3: "HandleAllBlockAdditionRequests fuel w s2 = Inr (best, s3)"
    using run 1 2 same by (auto simp: attempt_eq_Inr)
  note up = caught_up_inv [OF RequestBlockchain_caught_up [OF w 1] app_inv_core [OF core0 inv]]
  have ts: "length ts = sizeof_T"
    using inv some by (simp add: app_inv_def)
  note facts = AddBlockToBlockchain_facts [OF 2 ts]
  show ?thesis
  proof (cases best)
    case None
    have "add_best best s3 = Inr s3"
      using None by (simp add: add_best_def)
    note added = HandleAll_add(1-3) [OF up(1) facts(1) 3 this]
    have "core s' = core s3"
      using run 1 2 3 None same by (auto simp: attempt_eq_Inr)
    with added up(2,3) same show ?thesis
      by (auto simp: advances_def app_inv_def core_def)
  next
    case (Some c)
    then obtain s4 where 4: "add_block (GetData (snd c)) s3 = Inr s4"
      using run 1 2 3 same by (auto simp: attempt_eq_Inr)
    then have "add_best best s3 = Inr s4"
      using Some by (simp add: add_best_def)
    note added = HandleAll_add [OF up(1) facts(1) 3 this]
    have s': "core s' = core (if map_option fst blk = Some (fst c) then s4\<lparr>a_transactions := tl (a_transactions s4)\<rparr> else s4)"
      using run 1 2 3 4 Some same by (auto simp: attempt_eq_Inr)
    show ?thesis
    proof (cases "map_option fst blk = Some (fst c)")
      case False
      with s' added(1-3) up(2,3) same show ?thesis
        by (auto simp: advances_def app_inv_def core_def)
    next
      case True
      then obtain b where b: "blk = Some (fst c, b)"
        by (cases blk) auto
      then have id: "fst c = a_next s1"
        using facts(2) by simp
      obtain s5 where "grows s2 s5" "c \<in> set (a_candidates s5)"
        using added(4) [OF Some] by blast
      then have "c \<in> set (a_candidates s2)"
        by (rule grows_old_candidate) (simp add: id AddBlockToBlockchain_next [OF 2])
      moreover have "(a_next s1, snd c) = c"
        using id by (metis prod.collapse)
      ultimately have "GetData (snd c) = ts"
        using facts(3) [of "a_next s1" "snd c"] up(1) by (simp add: app_inv_def)
      then obtain b' where b': "a_bc s4 = a_bc s1 @ [b']" "GetData b' = ts"
        using added(4) [OF Some] by auto
      obtain bs where bs: "a_bc s1 = a_bc s @ bs"
        using up(2) same by auto
      have "a_bc s' = a_bc s @ (bs @ [b'])" "a_transactions s = GetData b' # a_transactions s'"
        using True s' b' bs added(3) up(3) same some by (simp_all add: core_def)
      then have "advances s s'"
        unfolding advances_def by (intro exI [of _ "bs @ [b']"]) simp
      moreover have "app_inv s'"
        using True s' added(1,3) up(3) same some by (auto simp: app_inv_def core_def)
      ultimately show ?thesis by blast
    qed
  qed
qed


lemma Run_iteration_ok:
  assumes w: "world_ok w" and inv: "app_inv s" and run: "Run_iteration fuel w s = Inr s'"
  shows "app_inv s' \<and> advances s s'"
proof -
  obtain refresh p where flag: "should_refresh (a_peer (sync w (sync w s))) = (refresh, p)"
    by force
  define s1 where "s1 = (sync w (sync w s))\<lparr>a_peer := p\<rparr>"
  have core1: "core s1 = core s"
    by (simp add: s1_def)
  have inv1: "app_inv s1"
    using core1 inv by (rule app_inv_core)
  have from1: "app_inv t \<and> advances s1 t \<Longrightarrow> app_inv t \<and> advances s t" for t
    using core1 by (simp add: advances_def core_def)
  note step = run [unfolded Run_iteration_def Let_def flag prod.case, folded s1_def]
  consider (offline) "s' = sync w s" | (refresh) "RequestBlockchain fuel w s1 = Inr s'" |
    (message) item s2 where "take_message w s1 = Inr (Some item, s2)" "handle_message fuel w item s2 = Inr s'" |
    (transaction) s2 where "take_message w s1 = Inr (None, s2)" "a_transactions s2 \<noteq> []" "process_transaction fuel w s2 = Inr s'" |
    (idle) s2 s3 where "take_message w s1 = Inr (None, s2)" "RequestBlockchain fuel w s2 = Inr s3" "s' = log_write_back w s3"
  proof (cases "p_is_online (a_peer (sync w s)) \<and> \<not> refresh")
    case False
    with step offline refresh show thesis
      by (cases "p_is_online (a_peer (sync w s))") simp_all
  next
    case True
    then obtain item s2 where item: "take_message w s1 = Inr (item, s2)"
      using step by (auto simp: attempt_eq_Inr simp del: sync_simps)
    with True step message transaction idle show thesis
      by (cases item) (auto simp: attempt_eq_Inr simp del: sync_simps split: if_splits)
  qed
  then show ?thesis
  proof cases
    case offline
    then show ?thesis
      using inv by (auto intro: app_inv_core advances_core)
  next
    case refresh
    with inv1 show ?thesis
      by (intro from1) (auto dest!: RequestBlockchain_caught_up [OF w] intro: caught_up_inv(1) advances_caught_up)
  next
    case message
    have core2: "core s2 = core s1"
      using message(1) by (rule core_take_message)
    then have "app_inv s' \<and> advances s2 s'"
      using handle_message_ok [OF w _ message(2)] app_inv_core [OF _ inv1] by blast
    with core2 show ?thesis
      by (intro from1) (simp add: advances_def core_def)
  next
    case transaction
    then obtain ts rest where "a_transactions s2 = ts # rest"
      by (cases "a_transactions s2") auto
    have core2: "core s2 = core s1"
      using transaction(1) by (rule core_take_message)
    then have "app_inv s' \<and> advances s2 s'"
      using process_transaction_ok [OF w _ \<open>a_transactions s2 = ts # rest\<close> transaction(3)] app_inv_core [OF _ inv1] by blast
    with core2 show ?thesis
      by (intro from1) (simp add: advances_def core_def)
  next
    case idle
    have core2: "core s2 = core s1"
      using idle(1) by (rule core_take_message)
    have up: "caught_up s2 s3"
      using w idle(2) by (rule RequestBlockchain_caught_up)
    have "app_inv s3 \<and> advances s2 s3"
      using caught_up_inv(1) [OF up] advances_caught_up [OF up] app_inv_core [OF core2 inv1] by blast
    moreover have core3: "core s' = core s3"
      using idle(3) by simp
    ultimately show ?thesis
      using core2 app_inv_core [OF core3] by (intro from1) (simp add: advances_def core_def)
  qed
qed

interpretation main_loop: guarded_system "\<lambda>(fuel, w). Run_iteration fuel w" "\<lambda>(fuel, w). world_ok w" app_inv
proof
  fix s e s'
  assume inv: "app_inv s" and ok: "case e of (fuel, w) \<Rightarrow> world_ok w" and step: "(case e of (fuel, w) \<Rightarrow> Run_iteration fuel w) s = Inr s'"
  obtain fuel w where "e = (fuel, w)"
    by (cases e)
  with ok step Run_iteration_ok [of w s fuel s'] inv show "app_inv s'"
    by simp
qed


text \<open>Own transactions go on the chain in their order, each once.\<close>

definition commits :: "app \<Rightarrow> app \<Rightarrow> bool" where
  "commits s s' \<longleftrightarrow> (\<exists>gone bs. a_bc s' = a_bc s @ bs \<and> a_transactions s = gone @ a_transactions s' \<and> subseq gone (map GetData bs))"

lemma commits_refl [simp]: "commits s s"
  by (simp add: commits_def)

lemma commits_advances:
  assumes "commits s s'" "advances s' s''"
  shows "commits s s''"
proof -
  obtain gone bs where 1: "a_bc s' = a_bc s @ bs" "a_transactions s = gone @ a_transactions s'" "subseq gone (map GetData bs)"
    using assms(1) by (auto simp: commits_def)
  obtain cs where 2: "a_bc s'' = a_bc s' @ cs" "a_transactions s'' = a_transactions s' \<or>
      (\<exists>b. cs \<noteq> [] \<and> last cs = b \<and> a_transactions s' = GetData b # a_transactions s'')"
    using assms(2) by (auto simp: advances_def)
  have bc: "a_bc s'' = a_bc s @ (bs @ cs)"
    using 1 2 by simp
  from 2(2) show ?thesis
  proof (elim disjE exE conjE)
    assume "a_transactions s'' = a_transactions s'"
    with 1 bc show ?thesis
      unfolding commits_def by (intro exI [of _ "gone"] exI [of _ "bs @ cs"]) (auto intro: subseq_rev_drop_many)
  next
    fix b
    assume b: "cs \<noteq> []" "last cs = b" "a_transactions s' = GetData b # a_transactions s''"
    then have "cs = butlast cs @ [b]"
      by auto
    then have "subseq [GetData b] (map GetData cs)"
      by (metis list.simps(8,9) map_append subseq_drop_many subseq_order.refl)
    with 1 b bc show ?thesis
      unfolding commits_def
      by (intro exI [of _ "gone @ [GetData b]"] exI [of _ "bs @ cs"]) (auto intro: list_emb_append_mono)
  qed
qed

lemma Run_commits:
  "reaches (\<lambda>(fuel, w). Run_iteration fuel w) (\<lambda>(fuel, w). world_ok w) s s' \<Longrightarrow> app_inv s \<Longrightarrow> commits s s'"
proof (induction rule: reaches.induct)
  case (reaches_step s s' e s'')
  obtain fuel w where e: "e = (fuel, w)"
    by (cases e)
  have "app_inv s'"
    using main_loop.reaches_inv reaches_step.hyps(1) reaches_step.prems by blast
  then have "advances s' s''"
    using Run_iteration_ok [of w s' fuel s''] reaches_step.hyps(2,3) e by simp
  with reaches_step.IH reaches_step.prems show ?case
    by (blast intro: commits_advances)
qed simp

lemma initialize_loop_facts:
  assumes "chain_valid SHA256FromDataAndHash default_T (a_bc s)"
  shows "\<exists>s'. initialize_loop w ts s = Inr s' \<and> chain_valid SHA256FromDataAndHash default_T (a_bc s') \<and>
    map GetData (a_bc s') = map GetData (a_bc s) @ ts \<and> (ts \<noteq> [] \<longrightarrow> a_transactions s' = []) \<and>
    (ts = [] \<longrightarrow> a_transactions s' = a_transactions s) \<and> a_candidates s' = a_candidates s"
  using assms
proof (induction ts arbitrary: s)
  case (Cons t ts)
  define s0 where "s0 = log_entry w (LogBlockAddedStart (Size (a_bc s))) s"
  have core0: "core s0 = core s"
    by (simp add: s0_def)
  then have valid0: "chain_valid SHA256FromDataAndHash default_T (a_bc s0)"
    using Cons.prems by (simp add: core_def)
  then have "a_bc s0 \<noteq> []"
    by (simp add: chain_valid_def)
  then obtain s1 where 1: "add_block t s0 = Inr s1"
    by (auto simp: add_block_def attempt_eq_Inr from_option_eq_Inr AddBlock_eq)
  note facts = add_block_facts [OF 1 valid0]
  define s2 where "s2 = log_entry w (LogBlockAddedStop (Size (a_bc s)) True) (s1\<lparr>a_transactions := ts\<rparr>)"
  have core2: "core s2 = core (s1\<lparr>a_transactions := ts\<rparr>)"
    by (simp add: s2_def)
  then have "chain_valid SHA256FromDataAndHash default_T (a_bc s2)"
    using facts(1) by (simp add: core_def)
  from Cons.IH [OF this] obtain s' where IH: "initialize_loop w ts s2 = Inr s'" "chain_valid SHA256FromDataAndHash default_T (a_bc s')"
    "map GetData (a_bc s') = map GetData (a_bc s2) @ ts" "ts \<noteq> [] \<longrightarrow> a_transactions s' = []"
    "ts = [] \<longrightarrow> a_transactions s' = a_transactions s2" "a_candidates s' = a_candidates s2"
    by blast
  have "initialize_loop w (t # ts) s = Inr s'"
    using 1 IH(1) by (simp add: Let_def s0_def [symmetric] s2_def [symmetric])
  moreover have "map GetData (a_bc s') = map GetData (a_bc s) @ t # ts"
    using IH(3) core2 core0 facts(2) by (auto simp: core_def GetData_def)
  moreover have "a_transactions s' = []" "a_candidates s' = a_candidates s"
    using IH(4-6) core2 core0 facts(4) by (auto simp: core_def)
  ultimately show ?case
    using IH(2) by simp
qed simp


lemma new_Application_start:
  assumes "\<forall>ts \<in> set transactions. length ts = sizeof_T"
  shows "\<exists>s. new_Application w 0 (Some p) transactions init = Inr s \<and> app_inv s \<and>
    map GetData (a_bc s) = default_T # (if init = CHR ''1'' then transactions else []) \<and>
    a_transactions s = (if init = CHR ''1'' then [] else transactions)"
proof -
  let ?s = "\<lparr>a_bc = genesis, a_inbox = [], a_transactions = transactions, a_candidates = [], a_peer = p,
    a_log = new_Logger (tk_now (w 0)), a_file = [], a_sent = [], a_next = 0, a_clock = 1\<rparr>"
  have first: "map GetData genesis = [default_T]" "length default_T = sizeof_T"
    by (simp_all add: genesis_eq GetData_def default_T_def)
  obtain s' where s': "initialize_loop w transactions ?s = Inr s'" "chain_valid SHA256FromDataAndHash default_T (a_bc s')"
    "map GetData (a_bc s') = default_T # transactions" "a_transactions s' = []" "a_candidates s' = []"
  proof -
    obtain s' where 1: "initialize_loop w transactions ?s = Inr s'" "chain_valid SHA256FromDataAndHash default_T (a_bc s')"
      "map GetData (a_bc s') = map GetData genesis @ transactions" "a_candidates s' = []"
      "transactions \<noteq> [] \<longrightarrow> a_transactions s' = []" "transactions = [] \<longrightarrow> a_transactions s' = transactions"
      using initialize_loop_facts [of ?s w transactions] by auto
    have 2: "map GetData (a_bc s') = default_T # transactions"
      unfolding 1(3) first(1) by simp
    have 3: "a_transactions s' = []"
      using 1(5,6) by (cases transactions) simp_all
    from that [OF 1(1,2) 2 3 1(4)] show thesis .
  qed
  have new: "new_Application w 0 (Some p) transactions init = (if init = CHR ''1'' then initialize w ?s else Inr ?s)"
    by (simp add: new_Application_def new_LockVector_def genesis_def)
  have sizes: "map GetData bc = default_T # ts \<Longrightarrow> \<forall>t \<in> set ts. length t = sizeof_T \<Longrightarrow> \<forall>b \<in> set bc. length (blk_data b) = sizeof_T" for bc ts
    using first(2) by (auto simp: GetData_def map_eq_Cons_conv)
  show ?thesis
  proof (cases "init = CHR ''1''")
    case True
    have "core (log_write_back w s') = core s'"
      by simp
    with True new s' assms sizes [OF s'(3)] show ?thesis
      by (auto simp: initialize_def app_inv_def core_def)
  next
    case False
    with new assms first sizes [of genesis "[]"] show ?thesis
      by (auto simp: app_inv_def)
  qed
qed

section \<open>Properties\<close>

text \<open>A sample run of two iterations: the peer is offline, then online without others, so that it catches up.\<close>

definition online_tick :: tick where
  "online_tick = (sample_tick [] [])\<lparr>tk_peer := \<lambda>p. p\<lparr>p_network_info := Some [], p_n_peers := 0, p_is_online := True, p_was_offline := True\<rparr>\<rparr>"

lemma sample_inv: "\<forall>t \<in> set ts. length t = sizeof_T \<Longrightarrow> app_inv ((sample_app genesis [])\<lparr>a_transactions := ts\<rparr>)"
  by (simp add: app_inv_def) (simp add: genesis_eq default_T_def)

lemma sample_run:
  "\<exists>s'. reaches (\<lambda>(fuel, w). Run_iteration fuel w) (\<lambda>(fuel, w). world_ok w) ((sample_app genesis [])\<lparr>a_transactions := ts\<rparr>) s' \<and>
    a_clock s' = 6"
proof -
  let ?s = "(sample_app genesis [])\<lparr>a_transactions := ts\<rparr>" and ?w1 = "\<lambda>t :: nat. sample_tick [] []" and ?w2 = "\<lambda>t :: nat. online_tick"
  let ?s1 = "sync ?w1 ?s"
  have ok: "world_ok ?w1" "world_ok ?w2"
    by (simp_all add: world_ok_def online_tick_def)
  have offline: "Run_iteration 1 ?w1 ?s = Inr ?s1"
    by (simp add: Run_iteration_def Let_def sample_peer_def)
  have none: "app_broadcast ?w2 data s = Inr (0, (sync ?w2 s)\<lparr>a_peer := tk_peer online_tick (a_peer s)\<rparr>)" for data s
    using frame_of_total [of P2P data] by (auto simp: app_broadcast_def broadcast_def Let_def online_tick_def)
  have "\<exists>s'. RequestBlockchain 1 ?w2 s = Inr s' \<and> a_clock s' = a_clock s + 3" for s
    by (simp add: log_entry_def RequestBlockchain_def request_chain_def request_again_def RequestBlockchainBlock_def Let_def none)
  then obtain s' where "Run_iteration 1 ?w2 ?s1 = Inr s'" "a_clock s' = 6"
    by (force simp: Run_iteration_def Let_def online_tick_def should_refresh_def)
  moreover have "reaches (\<lambda>(fuel, w). Run_iteration fuel w) (\<lambda>(fuel, w). world_ok w) ?s ?s1"
    by (rule reaches_step [OF reaches_refl, where e = "(1, ?w1)"]) (use ok offline in simp_all)
  then have "reaches (\<lambda>(fuel, w). Run_iteration fuel w) (\<lambda>(fuel, w). world_ok w) ?s s'" if "Run_iteration 1 ?w2 ?s1 = Inr s'" for s'
    by (rule reaches_step [where e = "(1, ?w2)"]) (use ok that in simp_all)
  ultimately show ?thesis
    by blast
qed

text \<open>
  C2. In every run of the main loop the transactions that have left the list of own transactions are the first ones
  of the list, and they are the data of blocks that the run has put on the chain, in the same order; so no own transaction
  is lost and none overtakes another.
\<close>

theorem Run_commits_transactions_in_order:
  assumes "reaches (\<lambda>(fuel, w). Run_iteration fuel w) (\<lambda>(fuel, w). world_ok w) s s'" "app_inv s"
  shows "\<exists>gone. a_transactions s = gone @ a_transactions s' \<and>
    subseq gone (map GetData (drop (length (a_bc s)) (a_bc s')))"
  using Run_commits [OF assms] by (auto simp: commits_def)


theorem Run_commits_transactions_in_order_witness:
  "\<exists>s' gone. reaches (\<lambda>(fuel, w). Run_iteration fuel w) (\<lambda>(fuel, w). world_ok w)
      ((sample_app genesis [])\<lparr>a_transactions := [default_T]\<rparr>) s' \<and> a_clock s' = 6 \<and>
    [default_T] = gone @ a_transactions s' \<and> subseq gone (map GetData (drop 1 (a_bc s')))"
proof -
  let ?s = "(sample_app genesis [])\<lparr>a_transactions := [default_T]\<rparr>"
  obtain s' where run: "reaches (\<lambda>(fuel, w). Run_iteration fuel w) (\<lambda>(fuel, w). world_ok w) ?s s'" "a_clock s' = 6"
    using sample_run [of "[default_T]"] by auto
  moreover have "app_inv ?s"
    using sample_inv [of "[default_T]"] by (simp add: default_T_def)
  ultimately show ?thesis
    using Run_commits_transactions_in_order [of ?s s'] by (auto simp: genesis_eq)
qed

end
