(* ===== verification/TransactionReader.thy ===== *)
theory TransactionReader
  imports Wire Loops
begin

text \<open>
  Reading the transaction trace, \<^verbatim>\<open>application/transaction_reader.h\<close>: the formatted input of the standard library that the
  code uses, the two nested loops of \<^verbatim>\<open>ReadFile\<close>, and what they make of a trace as
  \<^verbatim>\<open>transaction_generator.py\<close> writes it and of a file that cannot be opened.
\<close>

section \<open>Formatted input\<close>

text \<open>
  An input stream: the characters that are left, and the two state bits. Every formatted read first skips white space; it
  does nothing but set the fail bit when the stream is not good.
\<close>

record istream =
  is_rest :: bytes
  is_eof :: bool
  is_fail :: bool

definition is_space :: "u8 \<Rightarrow> bool" where
  "is_space c \<longleftrightarrow> c = 32 \<or> (9 \<le> c \<and> c \<le> 13)"

definition is_digit :: "u8 \<Rightarrow> bool" where
  "is_digit c \<longleftrightarrow> 48 \<le> c \<and> c \<le> 57"

definition open_stream :: "bytes option \<Rightarrow> istream" where
  "open_stream file = (case file of Some bs \<Rightarrow> \<lparr>is_rest = bs, is_eof = False, is_fail = False\<rparr>
     | None \<Rightarrow> \<lparr>is_rest = [], is_eof = False, is_fail = True\<rparr>)"

definition sentry :: "istream \<Rightarrow> bool \<times> istream" where
  "sentry st =
     (if \<not> is_eof st \<and> \<not> is_fail st then
        (let rest = dropWhile is_space (is_rest st) in
         if rest = [] then (False, st\<lparr>is_rest := [], is_eof := True, is_fail := True\<rparr>) else (True, st\<lparr>is_rest := rest\<rparr>))
      else (False, st\<lparr>is_fail := True\<rparr>))"

text \<open>Reading a character leaves the variable as it is when it fails.\<close>

definition read_char :: "u8 \<Rightarrow> istream \<Rightarrow> u8 \<times> istream" where
  "read_char old st = (let (ok, st) = sentry st in
     if ok then (hd (is_rest st), st\<lparr>is_rest := tl (is_rest st)\<rparr>) else (old, st))"

text \<open>The longest text of the form of a floating-point number.\<close>

definition scan_sign :: "bytes \<Rightarrow> bytes \<times> bytes" where
  "scan_sign s = (case s of c # cs \<Rightarrow> if c = 43 \<or> c = 45 then ([c], cs) else ([], s) | [] \<Rightarrow> ([], []))"

definition scan_digits :: "bytes \<Rightarrow> bytes \<times> bytes" where
  "scan_digits s = (takeWhile is_digit s, dropWhile is_digit s)"

definition scan_float :: "bytes \<Rightarrow> bytes \<times> bytes" where
  "scan_float s =
     (let (sgn, s) = scan_sign s;
          (ip, s) = scan_digits s;
          (fp, s) = (case s of c # cs \<Rightarrow> if c = 46 then let (ds, s) = scan_digits cs in (c # ds, s) else ([], s) | [] \<Rightarrow> ([], s));
          (ep, s) = (case s of c # cs \<Rightarrow>
              if (c = 101 \<or> c = 69) \<and> (ip \<noteq> [] \<or> 1 < length fp)
              then let (sg, s) = scan_sign cs; (ds, s) = scan_digits s in (101 # sg @ ds, s) else ([], s)
            | [] \<Rightarrow> ([], s))
      in (sgn @ ip @ fp @ ep, s))"

text \<open>
  Reading a \<^verbatim>\<open>double\<close>. \<open>convert\<close> is the library's conversion of the text, with whether it succeeds; it gives a value
  (zero or the largest) when it fails too.
\<close>

definition read_double :: "(bytes \<Rightarrow> u64 \<times> bool) \<Rightarrow> u64 \<Rightarrow> istream \<Rightarrow> u64 \<times> istream" where
  "read_double convert old st = (let (ok, st) = sentry st in
     if ok then
       (let (text, rest) = scan_float (is_rest st); (v, good) = convert text in
        (v, st\<lparr>is_rest := rest, is_eof := (rest = []), is_fail := \<not> good\<rparr>))
     else (old, st))"

text \<open>Comparison of a \<^verbatim>\<open>double\<close> with zero: both zeros are equal to it.\<close>

definition double_is_zero :: "u64 \<Rightarrow> bool" where
  "double_is_zero x \<longleftrightarrow> x = 0 \<or> x = 2 ^ 63"

section \<open>ReadFile\<close>

type_synonym vals = "u8 \<times> u8 \<times> u64"

definition zero_transaction :: transaction where
  "zero_transaction = \<lparr>t_sender = 0, t_receiver = 0, t_amount = 0\<rparr>"

definition read_fields :: "(bytes \<Rightarrow> u64 \<times> bool) \<Rightarrow> vals \<Rightarrow> istream \<Rightarrow> vals \<times> istream" where
  "read_fields convert = (\<lambda>(sender, receiver, amount) st.
     let (sender, st) = read_char sender st;
         (receiver, st) = read_char receiver st;
         (amount, st) = read_double convert amount st
     in ((sender, receiver, amount), st))"

text \<open>
  The \<^verbatim>\<open>for\<close> loop, with the index kept modulo $2^{32}$. The assignments of the code go from the array to the variables.
\<close>

definition read_batch_body :: "(bytes \<Rightarrow> u64 \<times> bool) \<Rightarrow> nat \<Rightarrow> transaction list \<Rightarrow> nat \<times> vals \<times> istream \<Rightarrow>
    stop + (nat \<times> vals \<times> istream + nat \<times> vals \<times> istream)" where
  "read_batch_body convert N transactions = (\<lambda>(i, vals, st).
     if i < N \<and> \<not> is_eof st then
       (let ((sender, receiver, amount), st) = read_fields convert vals st;
            (i, vals) =
              (if sender = 0 \<and> receiver = 0 \<and> double_is_zero amount then ((i + 2 ^ 32 - 1) mod 2 ^ 32, (sender, receiver, amount))
               else (let t = transactions ! i; sender = t_sender t; receiver = t_receiver t; amount = t_amount t
                     in (i, (sender, receiver, amount))))
        in Inr (Inr ((i + 1) mod 2 ^ 32, vals, st)))
     else Inr (Inl (i, vals, st)))"

definition read_file_body :: "nat \<Rightarrow> (bytes \<Rightarrow> u64 \<times> bool) \<Rightarrow> nat \<Rightarrow> transaction list list \<times> vals \<times> istream \<Rightarrow>
    stop + (transaction list list + transaction list list \<times> vals \<times> istream)" where
  "read_file_body fuel convert N = (\<lambda>(vec, vals, st).
     if \<not> is_eof st then
       (let transactions = replicate N zero_transaction in
        attempt (repeat_body fuel (read_batch_body convert N transactions) (0, vals, st)) (\<lambda>(i, vals, st).
        Inr (Inr (if i \<noteq> 0 then vec @ [transactions] else vec, vals, st))))
     else Inr (Inl vec))"

text \<open>\<open>uninit\<close> is what the three variables hold before they are first read.\<close>

definition ReadFile :: "nat \<Rightarrow> (bytes \<Rightarrow> u64 \<times> bool) \<Rightarrow> nat \<Rightarrow> vals \<Rightarrow> bytes option \<Rightarrow> stop + transaction list list" where
  "ReadFile fuel convert N uninit file = repeat_body fuel (read_file_body fuel convert N) ([], uninit, open_stream file)"

section \<open>Lines of a trace\<close>

text \<open>A record: two identities of one character and an amount in decimals.\<close>

type_synonym trace_record = "u8 \<times> u8 \<times> bytes \<times> bytes"

definition record_ok :: "(bytes \<Rightarrow> u64 \<times> bool) \<Rightarrow> trace_record \<Rightarrow> bool" where
  "record_ok convert = (\<lambda>(s, r, ip, fp). s \<noteq> 0 \<and> \<not> is_space s \<and> \<not> is_space r \<and> ip \<noteq> [] \<and> list_all is_digit ip \<and> list_all is_digit fp \<and>
     snd (convert (ip @ 46 # fp)))"

definition trace_line :: "trace_record \<Rightarrow> bytes" where
  "trace_line = (\<lambda>(s, r, ip, fp). s # 9 # r # 9 # ip @ 46 # fp @ [10])"

definition stream_of :: "bytes \<Rightarrow> trace_record list \<Rightarrow> istream" where
  "stream_of pre rs = \<lparr>is_rest = pre @ concat (map trace_line rs), is_eof = False, is_fail = False\<rparr>"

definition at_end :: istream where
  "at_end = \<lparr>is_rest = [], is_eof = True, is_fail = True\<rparr>"

lemma digit_not_space: "is_digit c \<Longrightarrow> \<not> is_space c"
  by (auto simp: is_digit_def is_space_def word_le_nat_alt)

lemma digit_not_sign: "is_digit c \<Longrightarrow> c \<noteq> 43 \<and> c \<noteq> 45"
  by (auto simp: is_digit_def)

lemma scan_digits_append: "list_all is_digit ds \<Longrightarrow> \<not> is_digit c \<Longrightarrow> scan_digits (ds @ c # rest) = (ds, c # rest)"
  by (simp add: scan_digits_def takeWhile_append dropWhile_append list_all_iff)

lemma scan_float_decimal:
  assumes "ip \<noteq> []" "list_all is_digit ip" "list_all is_digit fp"
  shows "scan_float (ip @ 46 # fp @ 10 # rest) = (ip @ 46 # fp, 10 # rest)"
proof -
  have "scan_sign (ip @ 46 # fp @ 10 # rest) = ([], ip @ 46 # fp @ 10 # rest)"
    using assms by (cases ip) (auto simp: scan_sign_def dest: digit_not_sign)
  moreover have "\<not> is_digit 46" "\<not> is_digit 10"
    by (simp_all add: is_digit_def)
  ultimately show ?thesis
    using assms by (simp add: scan_float_def scan_digits_append)
qed

lemma sentry_skip: "list_all is_space pre \<Longrightarrow> \<not> is_space c \<Longrightarrow>
  sentry \<lparr>is_rest = pre @ c # rest, is_eof = False, is_fail = False\<rparr> = (True, \<lparr>is_rest = c # rest, is_eof = False, is_fail = False\<rparr>)"
  by (simp add: sentry_def dropWhile_append list_all_iff Let_def)

lemma read_fields_record:
  assumes pre: "list_all is_space pre" and ok: "record_ok convert (s, r, ip, fp)"
  shows "read_fields convert old (stream_of pre ((s, r, ip, fp) # rs)) =
    ((s, r, fst (convert (ip @ 46 # fp))), stream_of [10] rs)"
proof -
  have spaces: "is_space 9" "is_space 10"
    by (simp_all add: is_space_def)
  obtain d ds where ip: "ip = d # ds" "\<not> is_space d"
    using ok by (cases ip) (auto simp: record_ok_def digit_not_space)
  have skip: "sentry \<lparr>is_rest = 9 # c # rest, is_eof = False, is_fail = False\<rparr>
      = (True, \<lparr>is_rest = c # rest, is_eof = False, is_fail = False\<rparr>)" if "\<not> is_space c" for c rest
    using sentry_skip [of "[9]" c rest] that spaces by simp
  have float: "scan_float (ip @ 46 # fp @ 10 # rest) = (ip @ 46 # fp, 10 # rest)" for rest
    using ok by (intro scan_float_decimal) (simp_all add: record_ok_def)
  obtain sender receiver amount where old: "old = (sender, receiver, amount)"
    by (cases old)
  show ?thesis
    using ok sentry_skip [OF pre, of s] float ip(2)
    by (simp add: old read_fields_def read_char_def read_double_def stream_of_def trace_line_def record_ok_def skip Let_def
        case_prod_beta ip(1))
qed


lemma read_fields_end:
  assumes "list_all is_space pre"
  shows "read_fields convert old (stream_of pre []) = (old, at_end)"
proof -
  have "dropWhile is_space pre = []"
    using assms by (simp add: list_all_iff)
  then show ?thesis
    by (cases old) (simp add: read_fields_def read_char_def read_double_def sentry_def stream_of_def at_end_def Let_def)
qed

section \<open>The loops on a trace\<close>

definition zero_fields :: vals where
  "zero_fields = (0, 0, 0)"

text \<open>The reversed assignments reset the variables, so that the failed read at the end of the file counts as no data.\<close>

lemma batch_step:
  assumes "list_all is_space pre" "record_ok convert r" "i < N" "N < 2 ^ 32"
  shows "read_batch_body convert N (replicate N zero_transaction) (i, vals, stream_of pre (r # rs))
    = Inr (Inr (i + 1, zero_fields, stream_of [10] rs))"
proof -
  obtain s x ip fp where r: "r = (s, x, ip, fp)"
    by (cases r)
  have "\<not> is_eof (stream_of pre (r # rs))" "s \<noteq> 0"
    using assms(2) by (simp_all add: stream_of_def r record_ok_def)
  with assms show ?thesis
    by (simp add: read_batch_body_def r read_fields_record Let_def zero_fields_def zero_transaction_def)
qed

lemma batch_end:
  assumes "list_all is_space pre" "i < N" "N < 2 ^ 32"
  shows "read_batch_body convert N ts (i, zero_fields, stream_of pre []) = Inr (Inr (i, zero_fields, at_end))"
proof -
  have "(i + 2 ^ 32 - 1) mod 2 ^ 32 = (if i = 0 then 2 ^ 32 - 1 else i - 1)"
    using assms(2,3) by (cases i) (simp_all add: mod_if)
  then have "((i + 2 ^ 32 - 1) mod 2 ^ 32 + 1) mod 2 ^ 32 = i"
    using assms(2,3) by (auto simp: mod_if)
  moreover have "\<not> is_eof (stream_of pre [])"
    by (simp add: stream_of_def)
  ultimately show ?thesis
    using assms by (simp add: read_batch_body_def read_fields_end zero_fields_def double_is_zero_def)
qed

lemma newline_space [simp]: "is_space 10"
  by (simp add: is_space_def)

lemma batch_loop:
  assumes "\<forall>r \<in> set rs. record_ok convert r" "list_all is_space pre" "i \<le> N" "N < 2 ^ 32" "length rs + 2 \<le> fuel"
    "rs \<noteq> [] \<or> vals = zero_fields"
  shows "\<exists>pre'. list_all is_space pre' \<and>
    repeat_body fuel (read_batch_body convert N (replicate N zero_transaction)) (i, vals, stream_of pre rs) =
    Inr (if length rs < N - i then (i + length rs, zero_fields, at_end)
         else (N, if i = N then vals else zero_fields, stream_of pre' (drop (N - i) rs)))"
  using assms
proof (induction rs arbitrary: fuel pre i vals)
  case Nil
  then obtain f where f: "fuel = Suc (Suc f)"
    by (metis add_2_eq_Suc' le_Suc_ex add.commute list.size(3) plus_nat.add_0)
  show ?case
  proof (cases "i < N")
    case True
    with Nil batch_end [of pre i N convert] show ?thesis
      by (auto simp: f read_batch_body_def [of convert N _] at_end_def intro: exI [of _ pre])
  next
    case False
    with Nil show ?thesis
      by (auto simp: f read_batch_body_def)
  qed
next
  case (Cons r rs)
  then obtain f where f: "fuel = Suc f" "length rs + 2 \<le> f"
    by (cases fuel) auto
  show ?case
  proof (cases "i < N")
    case True
    with Cons.prems have step: "read_batch_body convert N (replicate N zero_transaction) (i, vals, stream_of pre (r # rs))
      = Inr (Inr (i + 1, zero_fields, stream_of [10] rs))"
      by (intro batch_step) simp_all
    from True Cons.prems f Cons.IH [of "[10]" "i + 1" f zero_fields] obtain pre' where "list_all is_space pre'"
      "repeat_body f (read_batch_body convert N (replicate N zero_transaction)) (i + 1, zero_fields, stream_of [10] rs) =
        Inr (if length rs < N - (i + 1) then (i + 1 + length rs, zero_fields, at_end)
         else (N, if i + 1 = N then zero_fields else zero_fields, stream_of pre' (drop (N - (i + 1)) rs)))"
      by auto
    moreover have rest: "N - i = Suc (N - (i + 1))"
      using True by simp
    moreover have "drop (N - i) (r # rs) = drop (N - (i + 1)) rs" "(length (r # rs) < N - i) = (length rs < N - (i + 1))"
      using rest by auto
    ultimately show ?thesis
      using True by (intro exI [of _ pre']) (simp add: f step)
  next
    case False
    with Cons.prems f show ?thesis
      by (intro exI [of _ pre]) (simp add: read_batch_body_def)
  qed
qed


text \<open>The number of batches of at most \<open>N\<close> records.\<close>

definition batches :: "nat \<Rightarrow> nat \<Rightarrow> nat" where
  "batches n N = (n + N - 1) div N"

lemma batches_less: "n < N \<Longrightarrow> batches n N = (if n = 0 then 0 else 1)"
  by (cases n) (auto simp: batches_def intro: div_nat_eqI)

lemma batches_step: "0 < N \<Longrightarrow> N \<le> n \<Longrightarrow> batches n N = Suc (batches (n - N) N)"
proof -
  assume "0 < N" "N \<le> n"
  then have "n + N - 1 = (n - N + N - 1) + N" by simp
  then have "batches n N = ((n - N + N - 1) + N) div N"
    by (simp only: batches_def)
  also have "\<dots> = Suc ((n - N + N - 1) div N)"
    using \<open>0 < N\<close> by (simp only: div_add_self2)
  finally show ?thesis
    by (simp only: batches_def)
qed

lemma file_loop:
  assumes "\<forall>r \<in> set rs. record_ok convert r" "list_all is_space pre" "0 < N" "N < 2 ^ 32" "length rs + 2 \<le> fuel" "length rs + 2 \<le> k"
    "rs \<noteq> [] \<or> vals = zero_fields"
  shows "repeat_body k (read_file_body fuel convert N) (vec, vals, stream_of pre rs) =
    Inr (vec @ replicate (batches (length rs) N) (replicate N zero_transaction))"
  using assms
proof (induction "length rs" arbitrary: rs k pre vals vec rule: less_induct)
  case less
  obtain pre' where pre': "list_all is_space pre'"
    and batch: "repeat_body fuel (read_batch_body convert N (replicate N zero_transaction)) (0, vals, stream_of pre rs) =
      Inr (if length rs < N then (length rs, zero_fields, at_end) else (N, if 0 = N then vals else zero_fields, stream_of pre' (drop N rs)))"
    using batch_loop [of rs convert pre 0 N fuel vals] less.prems by auto
  have start: "\<not> is_eof (stream_of pre rs)"
    by (simp add: stream_of_def)
  obtain k' where k: "k = Suc (Suc k')"
    using less.prems(6) by (metis add_2_eq_Suc' le_Suc_ex add_Suc_right add.commute)
  show ?case
  proof (cases "length rs < N")
    case True
    with batch start show ?thesis
      by (simp add: k read_file_body_def at_end_def batches_less)
  next
    case False
    then have "repeat_body (Suc k') (read_file_body fuel convert N) (vec @ [replicate N zero_transaction], zero_fields, stream_of pre' (drop N rs))
      = Inr ((vec @ [replicate N zero_transaction]) @ replicate (batches (length (drop N rs)) N) (replicate N zero_transaction))"
      using less.prems pre' k by (intro less.hyps) (auto dest: in_set_dropD)
    moreover have "batches (length rs) N = Suc (batches (length rs - N) N)"
      using False less.prems(3) by (intro batches_step) simp_all
    ultimately show ?thesis
      using False batch start less.prems(3) by (simp add: k read_file_body_def)
  qed
qed

text \<open>A stream that has failed before its end never reaches it.\<close>

definition stuck :: "istream \<Rightarrow> bool" where
  "stuck st \<longleftrightarrow> is_fail st \<and> \<not> is_eof st"

lemma read_fields_stuck: "stuck st \<Longrightarrow> read_fields convert vals st = (vals, st)"
  by (cases vals) (auto simp: read_fields_def read_char_def read_double_def sentry_def stuck_def Let_def)

interpretation stuck_batch: loop_invariant "read_batch_body convert N ts" "\<lambda>(i, vals, st). stuck st" "\<lambda>(i, vals, st). stuck st"
  for convert N ts
  by unfold_locales (auto simp: read_batch_body_def read_fields_stuck Let_def split: if_splits prod.splits)

interpretation stuck_file: loop_invariant "read_file_body fuel convert N" "\<lambda>(vec, vals, st). stuck st" "\<lambda>vec. False"
  for fuel convert N
proof (unfold_locales, goal_cases)
  case (1 x x')
  then obtain vec vals st i vals' st' where "x = (vec, vals, st)" "stuck st" "snd (snd x') = st'"
    "repeat_body fuel (read_batch_body convert N (replicate N zero_transaction)) (0, vals, st) = Inr (i, vals', st')"
    by (cases x) (auto simp: read_file_body_def Let_def attempt_eq_Inr split: if_splits)
  with stuck_batch.repeat_post [where x = "(0, vals, st)" and r = "(i, vals', st')"] show ?case
    by (cases x') simp
next
  case (2 x r)
  then show ?case
    by (cases x) (auto simp: read_file_body_def stuck_def Let_def attempt_eq_Inr)
qed

text \<open>Whatever a file holds, the batches read from it are zero.\<close>

interpretation zero_file: loop_invariant "read_file_body fuel convert N"
  "\<lambda>(vec, vals, st). \<forall>ts \<in> set vec. ts = replicate N zero_transaction" "\<lambda>vec. \<forall>ts \<in> set vec. ts = replicate N zero_transaction"
  for fuel convert N
  by unfold_locales (auto simp: read_file_body_def Let_def attempt_eq_Inr split: if_splits)

lemma ReadFile_zero: "ReadFile fuel convert N uninit file = Inr vec \<Longrightarrow> \<forall>ts \<in> set vec. ts = replicate N zero_transaction"
  unfolding ReadFile_def by (drule zero_file.repeat_post [rotated]) simp_all

lemma zero_transactions_bytes: "transactions_bytes (replicate MAX_TRANSACTIONS zero_transaction) = default_T"
proof -
  have zero: "transaction_bytes zero_transaction = replicate 16 0"
    by (simp add: transaction_bytes_def zero_transaction_def eval_nat_numeral)
  have "concat (replicate n (replicate 16 (0 :: u8))) = replicate (16 * n) 0" for n
    by (induction n) (simp_all add: replicate_add)
  then show ?thesis
    by (simp add: transactions_bytes_def zero default_T_def sizeof_T_def)
qed

section \<open>Properties\<close>

text \<open>
  Reading a well-formed trace of $n$ records gives as many batches as are needed for them, but every batch is zero:
  the values read are assigned in the wrong direction, so that no transaction of the trace gets into the result.
\<close>

lemma ReadFile_gives_zeros:
  assumes "\<forall>r \<in> set records. record_ok convert r" "records \<noteq> []" "0 < N" "N < 2 ^ 32" "length records + 2 \<le> fuel"
  shows "ReadFile fuel convert N uninit (Some (concat (map trace_line records))) =
    Inr (replicate (batches (length records) N) (replicate N zero_transaction))"
  using file_loop [of records convert "[]" N fuel fuel uninit "[]"] assms
  by (simp add: ReadFile_def open_stream_def stream_of_def)

text \<open>
  When the trace cannot be opened, reading it never ends, whatever the variables held before: no amount of fuel gives
  a result, since the loops wait for an end of file that a failed stream never reports.
\<close>

lemma ReadFile_missing_file_hangs:
  "ReadFile fuel convert N uninit None \<noteq> Inr vec"
proof -
  have "stuck (open_stream None)"
    by (simp add: stuck_def open_stream_def)
  then show ?thesis
    using stuck_file.repeat_post [of "([], uninit, open_stream None)"] by (auto simp: ReadFile_def)
qed

end
