(* ===== verification/Program.thy ===== *)
theory Program
  imports Application TransactionReader
begin

text \<open>
  The peer program, \<^verbatim>\<open>application/main.cc\<close>: the command line, reading the trace, the application and its main loop.
\<close>

section \<open>The program\<close>

text \<open>
  What the program gets from the system at its start: the library functions and return codes that \<^verbatim>\<open>init_peer\<close> uses, the
  initialisation of the mailbox's mutex, the files, the library's conversion to \<^verbatim>\<open>double\<close>, and the contents of the
  uninitialised variables of \<^verbatim>\<open>ReadFile\<close>.
\<close>

record system =
  sy_inet_addr :: "string \<Rightarrow> u32"
  sy_set_einval :: bool
  sy_errno :: int
  sy_codes :: "int \<times> int \<times> int \<times> int \<times> int"
  sy_mutex_init :: int
  sy_files :: "string \<Rightarrow> bytes option"
  sy_convert :: "bytes \<Rightarrow> u64 \<times> bool"
  sy_uninit :: vals

text \<open>The first character of a C string.\<close>

definition first_char :: "string \<Rightarrow> char" where
  "first_char s = (case s of c # _ \<Rightarrow> c | [] \<Rightarrow> CHR 0x00)"

text \<open>\<^verbatim>\<open>Run\<close> does not return, so the clean-up after it is never reached; the result is the state after the schedule.\<close>

definition main_program :: "nat \<Rightarrow> system \<Rightarrow> world \<Rightarrow> (nat \<times> world) list \<Rightarrow> string list \<Rightarrow> stop + app" where
  "main_program fuel sys w rounds argv =
     (if length argv \<noteq> 8 then Inl Exits
      else
        attempt (ReadFile fuel (sy_convert sys) MAX_TRANSACTIONS (sy_uninit sys) (sy_files sys (argv ! 5))) (\<lambda>transactions.
        attempt (new_Application w (sy_mutex_init sys)
            (init_peer (sy_inet_addr sys) (sy_set_einval sys) (sy_errno sys) (sy_codes sys) (argv ! 1) (argv ! 2) (argv ! 3) (argv ! 4))
            (map transactions_bytes transactions) (first_char (argv ! 7))) (\<lambda>a.
        Run rounds a)))"

section \<open>Facts\<close>

lemma main_program_cases:
  assumes "main_program fuel sys w rounds argv = Inr s'"
  obtains ts p s where "length argv = 8"
    "ReadFile fuel (sy_convert sys) MAX_TRANSACTIONS (sy_uninit sys) (sy_files sys (argv ! 5)) = Inr ts"
    "new_Application w 0 (Some p) (map transactions_bytes ts) (first_char (argv ! 7)) = Inr s"
    "Run rounds s = Inr s'"
proof -
  have argc: "length argv = 8"
    using assms by (simp add: main_program_def split: if_splits)
  then obtain ts where ts: "ReadFile fuel (sy_convert sys) MAX_TRANSACTIONS (sy_uninit sys) (sy_files sys (argv ! 5)) = Inr ts"
    using assms by (auto simp: main_program_def attempt_eq_Inr)
  let ?init = "init_peer (sy_inet_addr sys) (sy_set_einval sys) (sy_errno sys) (sy_codes sys) (argv ! 1) (argv ! 2) (argv ! 3) (argv ! 4)"
  obtain s where s: "new_Application w (sy_mutex_init sys) ?init (map transactions_bytes ts) (first_char (argv ! 7)) = Inr s"
    "Run rounds s = Inr s'"
    using assms argc ts by (auto simp: main_program_def attempt_eq_Inr)
  then have "sy_mutex_init sys = 0"
    by (simp add: new_Application_def new_LockVector_def split: if_splits)
  moreover obtain p where "?init = Some p"
    using s(1) by (auto simp: new_Application_def attempt_eq_Inr from_option_eq_Inr)
  ultimately show thesis
    using that argc ts s by simp
qed

lemma read_batches:
  assumes "ReadFile fuel convert MAX_TRANSACTIONS uninit file = Inr ts"
  shows "map transactions_bytes ts = replicate (length ts) default_T"
proof -
  have "map transactions_bytes ts = map (\<lambda>_. default_T) ts"
    using ReadFile_zero [OF assms] zero_transactions_bytes by (intro map_cong) metis+
  then show ?thesis
    by (simp add: map_replicate_const)
qed


lemma main_program_start:
  assumes "main_program fuel sys w rounds argv = Inr s'"
  obtains ts s where "ReadFile fuel (sy_convert sys) MAX_TRANSACTIONS (sy_uninit sys) (sy_files sys (argv ! 5)) = Inr ts"
    "app_inv s" "map GetData (a_bc s) = default_T # (if first_char (argv ! 7) = CHR ''1'' then replicate (length ts) default_T else [])"
    "a_transactions s = (if first_char (argv ! 7) = CHR ''1'' then [] else replicate (length ts) default_T)" "Run rounds s = Inr s'"
proof (rule main_program_cases [OF assms])
  fix ts p s
  assume ts: "ReadFile fuel (sy_convert sys) MAX_TRANSACTIONS (sy_uninit sys) (sy_files sys (argv ! 5)) = Inr ts"
    and new: "new_Application w 0 (Some p) (map transactions_bytes ts) (first_char (argv ! 7)) = Inr s" and run: "Run rounds s = Inr s'"
  have "\<forall>t \<in> set (replicate (length ts) default_T). length t = sizeof_T"
    by (auto simp: default_T_def)
  from new_Application_start [OF this, of w p "first_char (argv ! 7)"] new that [OF ts _ _ _ run] show thesis
    by (simp add: read_batches [OF ts])
qed

lemma Run_reaches:
  assumes "Run rounds s = Inr s'" "\<forall>(fuel, w) \<in> set rounds. world_ok w"
  shows "reaches (\<lambda>(fuel, w). Run_iteration fuel w) (\<lambda>(fuel, w). world_ok w) s s'"
  using run_events_reaches [OF assms(1) [unfolded Run_def] assms(2)] .

text \<open>A program start on a trace of three records that loads its batch.\<close>

definition sample_records :: "trace_record list" where
  "sample_records = [(48, 49, [53, 48], [48]), (48, 50, [57], [53]), (48, 51, [49], [])]"

definition sample_system :: system where
  "sample_system = \<lparr>sy_inet_addr = (\<lambda>_. 1), sy_set_einval = False, sy_errno = 0, sy_codes = (0, 0, 3, 4, 0), sy_mutex_init = 0,
     sy_files = (\<lambda>_. Some (concat (map trace_line sample_records))), sy_convert = (\<lambda>_. (4632233691727265792, True)),
     sy_uninit = (7, 7, 7)\<rparr>"

definition sample_argv :: "string list" where
  "sample_argv = [''application'', ''10.0.0.1'', decimal 80, ''10.0.0.2'', decimal 81, ''0.trc'', ''0.log'', ''1'']"

lemma sample_init_peer: "\<exists>p. init_peer (\<lambda>_. 1) False 0 (0, 0, 3, 4, 0) a (decimal 80) b (decimal 81) = Some p"
proof -
  obtain p1 p2 where "convert_port False 0 (decimal 80) = (0, p1, 0)" "convert_port False 0 (decimal 81) = (0, p2, 0)"
    using convert_port_decimal [of 80 False 0] convert_port_decimal [of 81 False 0] by auto
  then show ?thesis
    by (simp add: init_peer_def initialize_clnt_def initialize_srvr_def Let_def)
qed

lemma sample_batches:
  "ReadFile 9 (\<lambda>_. (4632233691727265792, True)) MAX_TRANSACTIONS (7, 7, 7) (Some (concat (map trace_line sample_records)))
    = Inr [replicate MAX_TRANSACTIONS zero_transaction]"
  using file_loop [of sample_records "\<lambda>_. (4632233691727265792, True)" "[]" MAX_TRANSACTIONS 9 9 "(7, 7, 7)" "[]"]
  by (simp add: sample_records_def record_ok_def is_space_def is_digit_def ReadFile_def open_stream_def stream_of_def
      batches_def MAX_TRANSACTIONS_def)

lemma sample_main: "\<exists>s. main_program 9 sample_system w [] sample_argv = Inr s"
proof -
  note sample_batches
  moreover obtain p where "init_peer (\<lambda>_. 1) False 0 (0, 0, 3, 4, 0) ''10.0.0.1'' (decimal 80) ''10.0.0.2'' (decimal 81) = Some p"
    using sample_init_peer by blast
  moreover obtain s where "new_Application w 0 (Some p) [default_T] CHR ''1'' = Inr s"
    using new_Application_start [of "[default_T]" w p "CHR ''1''"] by (auto simp: default_T_def)
  ultimately show ?thesis
    by (simp add: main_program_def sample_system_def sample_argv_def first_char_def Run_def zero_transactions_bytes)
qed

section \<open>Properties\<close>

text \<open>
  C1. The whole program, from its command line through any number of iterations of its main loop, in any environment: if it
  has not exited, its chain is valid, and it is the default block followed by the blocks the program was told to load.
\<close>

theorem main_keeps_chain_valid:
  assumes "main_program fuel sys w rounds argv = Inr s'" "\<forall>(fuel, w) \<in> set rounds. world_ok w"
  shows "chain_valid SHA256FromDataAndHash default_T (a_bc s') \<and>
    (\<exists>ts. ReadFile fuel (sy_convert sys) MAX_TRANSACTIONS (sy_uninit sys) (sy_files sys (argv ! 5)) = Inr ts \<and>
      prefix (default_T # (if first_char (argv ! 7) = CHR ''1'' then map transactions_bytes ts else [])) (map GetData (a_bc s')))"
proof (rule main_program_start [OF assms(1)])
  fix ts s
  assume ts: "ReadFile fuel (sy_convert sys) MAX_TRANSACTIONS (sy_uninit sys) (sy_files sys (argv ! 5)) = Inr ts"
    and s: "app_inv s" "map GetData (a_bc s) = default_T # (if first_char (argv ! 7) = CHR ''1'' then replicate (length ts) default_T else [])"
      "Run rounds s = Inr s'"
  have reach: "reaches (\<lambda>(fuel, w). Run_iteration fuel w) (\<lambda>(fuel, w). world_ok w) s s'"
    using s(3) assms(2) by (rule Run_reaches)
  have "chain_valid SHA256FromDataAndHash default_T (a_bc s')"
    using main_loop.reaches_inv [OF reach s(1)] by (simp add: app_inv_def)
  moreover have "prefix (map GetData (a_bc s)) (map GetData (a_bc s'))"
    using Run_commits [OF reach s(1)] by (auto simp: commits_def)
  ultimately show ?thesis
    using ts s(2) by (auto simp: read_batches [OF ts])
qed

theorem main_keeps_chain_valid_witness:
  "\<exists>s. main_program 9 sample_system (\<lambda>t. sample_tick [] []) [] sample_argv = Inr s \<and> chain_valid SHA256FromDataAndHash default_T (a_bc s)"
proof -
  obtain s where run: "main_program 9 sample_system (\<lambda>t. sample_tick [] []) [] sample_argv = Inr s"
    using sample_main by blast
  from main_keeps_chain_valid [OF this] run show ?thesis
    by auto
qed

text \<open>
  C33. No transaction of the trace ever gets into the system: whatever the trace file holds, every batch that the program reads
  from it consists of zero bytes. When the program is told to load the batches, none waits and its chain starts with the default
  block and as many blocks of zeros as there are batches. Otherwise some of the batches have left the list of own transactions and
  lie on the chain as blocks of zeros, and the others wait as zeros. (Blocks that other peers propose or send are not restricted.)
\<close>

theorem main_transactions_are_empty:
  assumes "main_program fuel sys w rounds argv = Inr s'" "\<forall>(fuel, w) \<in> set rounds. world_ok w"
  shows "\<exists>ts. ReadFile fuel (sy_convert sys) MAX_TRANSACTIONS (sy_uninit sys) (sy_files sys (argv ! 5)) = Inr ts \<and>
    map transactions_bytes ts = replicate (length ts) default_T \<and>
    (if first_char (argv ! 7) = CHR ''1''
     then a_transactions s' = [] \<and> prefix (replicate (Suc (length ts)) default_T) (map GetData (a_bc s'))
     else \<exists>k \<le> length ts. a_transactions s' = replicate (length ts - k) default_T \<and>
       subseq (replicate k default_T) (map GetData (tl (a_bc s'))))"
proof (rule main_program_start [OF assms(1)])
  fix ts s
  assume ts: "ReadFile fuel (sy_convert sys) MAX_TRANSACTIONS (sy_uninit sys) (sy_files sys (argv ! 5)) = Inr ts"
    and s: "app_inv s" "map GetData (a_bc s) = default_T # (if first_char (argv ! 7) = CHR ''1'' then replicate (length ts) default_T else [])"
      "a_transactions s = (if first_char (argv ! 7) = CHR ''1'' then [] else replicate (length ts) default_T)" "Run rounds s = Inr s'"
  obtain gone bs where run: "a_bc s' = a_bc s @ bs" "a_transactions s = gone @ a_transactions s'" "subseq gone (map GetData bs)"
    using Run_commits [OF Run_reaches [OF s(4) assms(2)] s(1)] by (auto simp: commits_def)
  show ?thesis
  proof (intro exI [of _ ts] conjI ts read_batches [OF ts])
    show "if first_char (argv ! 7) = CHR ''1''
      then a_transactions s' = [] \<and> prefix (replicate (Suc (length ts)) default_T) (map GetData (a_bc s'))
      else \<exists>k \<le> length ts. a_transactions s' = replicate (length ts - k) default_T \<and>
        subseq (replicate k default_T) (map GetData (tl (a_bc s')))"
    proof (cases "first_char (argv ! 7) = CHR ''1''")
      case True
      with s(2,3) run(1,2) show ?thesis by simp
    next
      case False
      then have split: "replicate (length ts) default_T = gone @ a_transactions s'"
        using s(3) run(2) by simp
      then have "length gone \<le> length ts" "gone = replicate (length gone) default_T"
        "a_transactions s' = replicate (length ts - length gone) default_T"
        by (metis le_add1 length_append length_replicate, metis append_eq_conv_conj take_replicate min.absorb1 le_add1 length_append length_replicate,
            metis append_eq_conv_conj drop_replicate)
      moreover have "tl (a_bc s') = bs"
        using s(2) run(1) False by (cases "a_bc s") auto
      ultimately show ?thesis
        using False run(3) by (metis (no_types, lifting))
    qed
  qed
qed

theorem main_transactions_are_empty_witness:
  "\<exists>s. main_program 9 sample_system (\<lambda>t. sample_tick [] []) [] sample_argv = Inr s \<and> a_transactions s = [] \<and>
    prefix [default_T, default_T] (map GetData (a_bc s))"
proof -
  obtain s where run: "main_program 9 sample_system (\<lambda>t. sample_tick [] []) [] sample_argv = Inr s"
    using sample_main by blast
  have "ReadFile 9 (sy_convert sample_system) MAX_TRANSACTIONS (sy_uninit sample_system) (sy_files sample_system (sample_argv ! 5))
      = Inr [replicate MAX_TRANSACTIONS zero_transaction]"
    using sample_batches by (simp add: sample_system_def)
  moreover have "first_char (sample_argv ! 7) = CHR ''1''"
    by (simp add: sample_argv_def first_char_def)
  ultimately have "a_transactions s = [] \<and> prefix [default_T, default_T] (map GetData (a_bc s))"
    using main_transactions_are_empty [OF run] by auto
  with run show ?thesis by blast
qed

end
