(* ===== verification/CatchUp.thy ===== *)
theory CatchUp
  imports ChainSync
begin

text \<open>
  What catching up achieves, \<^verbatim>\<open>RequestBlockchain\<close> of \<^verbatim>\<open>application/application.cc\<close> in a network whose other peers have a longer
  chain and answer every request at once. A majority is announced before all answers are read. The answers that are left
  over are read by the next request, where they count as answers without a valid block.
\<close>

section \<open>Orderly surroundings\<close>

text \<open>The mutex works, a process can open \<open>L\<close> descriptors, and the list of peers does not change; messages can arrive.\<close>

definition orderly :: "nat \<Rightarrow> world \<Rightarrow> bool" where
  "orderly L w \<longleftrightarrow> (\<forall>t. (\<forall>p. tk_peer (w t) p = p) \<and> tk_lock (w t) = 0 \<and> tk_unlock (w t) = 0 \<and>
     pe_lock (tk_env (w t)) = 0 \<and> pe_unlock (tk_env (w t)) = 0 \<and> pe_limit (tk_env (w t)) = L)"

definition other_peers :: "peer \<Rightarrow> peer_address list" where
  "other_peers p = filter (\<lambda>pa. pa \<noteq> p_own_pa p) (take (p_n_peers p) (the (p_network_info p)))"

definition listed :: "peer \<Rightarrow> bool" where
  "listed p \<longleftrightarrow> (\<exists>pas. p_network_info p = Some pas \<and> p_n_peers p \<le> length pas)"

lemma other_peers_open [simp]: "other_peers (p\<lparr>p_open := n\<rparr>) = other_peers p" "listed (p\<lparr>p_open := n\<rparr>) = listed p"
  by (simp_all add: other_peers_def listed_def)

text \<open>What one or more interactions leave alone: \<open>k\<close> of them, and \<open>n\<close> more descriptors are open.\<close>

definition moved :: "nat \<Rightarrow> nat \<Rightarrow> app \<Rightarrow> app \<Rightarrow> bool" where
  "moved k n s s' \<longleftrightarrow> core s' = core s \<and> a_clock s' = a_clock s + k \<and>
     a_peer s' = (a_peer s)\<lparr>p_open := p_open (a_peer s) + n\<rparr>"

lemma moved_trans: "moved k n s s' \<Longrightarrow> moved k' n' s' s'' \<Longrightarrow> moved (k + k') (n + n') s s''"
  by (simp add: moved_def)

lemma orderly_take:
  assumes "orderly L w" "a_inbox s @ tk_arrivals (w (a_clock s)) = m # ms"
  shows "\<exists>s'. take_message w s = Inr (Some m, s') \<and> moved 1 0 s s' \<and> a_inbox s' = ms"
  using assms by (simp add: orderly_def take_message_def Lock_def Unlock_def Let_def moved_def)

lemma orderly_place_back:
  "orderly L w \<Longrightarrow> \<exists>s'. place_back w ms s = Inr s' \<and> moved 1 0 s s' \<and> a_inbox s' = a_inbox s @ tk_arrivals (w (a_clock s)) @ ms"
  by (simp add: orderly_def place_back_def Lock_def Unlock_def Let_def moved_def fold_snoc)

lemma orderly_log:
  "orderly L w \<Longrightarrow> moved 1 0 s (log_entry w e s) \<and> a_inbox (log_entry w e s) = a_inbox s @ tk_arrivals (w (a_clock s))"
  by (simp add: orderly_def log_entry_def Let_def moved_def)

lemma orderly_broadcast:
  assumes "orderly L w" "listed (a_peer s)" "p_open (a_peer s) + length (other_peers (a_peer s)) \<le> L"
  shows "\<exists>s'. app_broadcast w data s = Inr (length (other_peers (a_peer s)), s') \<and>
    moved 1 (length (other_peers (a_peer s))) s s' \<and> a_inbox s' = a_inbox s @ tk_arrivals (w (a_clock s))"
proof -
  have quiet: "tk_peer (w t) p = p" "pe_lock (tk_env (w t)) = 0" "pe_unlock (tk_env (w t)) = 0"
    "pe_limit (tk_env (w t)) = L" for t p
    using assms(1) by (simp_all add: orderly_def)
  obtain frame where frame: "frame_of P2P data = Some frame"
    using frame_of_total by blast
  obtain pas where pas: "p_network_info (a_peer s) = Some pas" "\<not> length pas < p_n_peers (a_peer s)"
    using assms(2) by (auto simp: listed_def)
  have "broadcast (tk_env (w (a_clock s))) (a_peer s) data =
    Some (length (other_peers (a_peer s)), (a_peer s)\<lparr>p_open := p_open (a_peer s) + length (other_peers (a_peer s))\<rparr>,
      map (\<lambda>pa. (frame, create_sockaddr_in pa)) (other_peers (a_peer s)))"
    using assms(3) quiet frame pas by (simp add: broadcast_def broadcast_loop_eq Let_def other_peers_def)
  with quiet show ?thesis
    by (simp add: app_broadcast_def Let_def moved_def)
qed

section \<open>All answers agree\<close>

text \<open>The answer of the peer \<open>pa\<close> with the block, and the variables of the loop when \<open>j\<close> of them have been counted.\<close>

definition block_answer :: "b_type \<Rightarrow> size_t \<Rightarrow> size_t \<Rightarrow> peer_address \<Rightarrow> message" where
  "block_answer b i len pa =
     (bmh_bytes \<lparr>bmh_type = blockchain_type_code BLOCK, bmh_peer_address = pa, bmh_index = i\<rparr> @ DataFromBlock b, len)"

definition counted :: "b_type \<Rightarrow> peer_address list \<Rightarrow> request_locals" where
  "counted b seen = request_init\<lparr>rl_clients_seen := seen,
     rl_messages := (if seen = [] then [] else [(GetHash b, b, length seen)])\<rparr>"

lemma counted_next:
  assumes "next_block (a_bc s) b" "length (GetHash b) = 64" "length (GetPrevHash b) = 64" "pa \<notin> set seen"
  shows "request_message w index (block_answer b i len pa) (counted b seen) s = Inr (counted b (seen @ [pa]), s)"
proof -
  have "pa \<notin> set (rl_clients_seen (counted b seen))"
    using assms(4) by (simp add: counted_def)
  from request_message_counts [OF assms(1-3) this] show ?thesis
    by (simp add: block_answer_def counted_def request_init_def map_count_def)
qed

lemma checkMajority_counted:
  assumes "0 < length seen" "length seen \<le> n" "2 * n < 2 ^ 64"
  shows "checkMajority lb (length seen) n (rl_no_block (counted b seen)) (rl_messages (counted b seen)) =
    (if n < 2 * length seen then (True, Some b) else (False, if n div 2 \<le> length seen then Some b else lb))"
  using assms by (auto simp: checkMajority_def counted_def request_init_def majority_scan_def size_minus_def Let_def)

lemma answers_agree:
  assumes "orderly L w" "next_block (a_bc s) b" "length (GetHash b) = 64" "length (GetPrevHash b) = 64"
    and "a_inbox s @ tk_arrivals (w (a_clock s)) = map (block_answer b i len) pas" "distinct (seen @ pas)"
    and "length (seen @ pas) = n" "0 < n" "2 * n < 2 ^ 64" "2 * length seen \<le> n" "length pas < fuel"
    and "k + length seen = n div 2 + 1" "\<And>t. a_clock s < t \<Longrightarrow> t \<le> a_clock s + k \<Longrightarrow> tk_arrivals (w t) = []"
  shows "\<exists>s'. repeat_body fuel (request_body w index n) (lb, counted b seen, s) = Inr ((True, Some b), s') \<and>
    moved (k + 1) 0 s s' \<and> a_inbox s' = map (block_answer b i len) (drop k pas)"
  using assms(2,5-)
proof (induction pas arbitrary: seen s k fuel lb)
  case (Cons pa pas)
  obtain fuel' where fuel: "fuel = Suc fuel'" using Cons.prems by (cases fuel) auto
  obtain s1 where s1: "take_message w s = Inr (Some (block_answer b i len pa), s1)" "moved 1 0 s s1"
    "a_inbox s1 = map (block_answer b i len) pas"
    using orderly_take [OF assms(1) Cons.prems(2) [unfolded list.map]] by blast
  have bc: "a_bc s1 = a_bc s"
    using s1(2) by (simp add: moved_def core_def)
  obtain k' where k: "k = Suc k'"
    using Cons.prems(7,9) by (cases k) auto
  have quiet: "tk_arrivals (w (a_clock s1)) = []"
    using s1(2) Cons.prems(10) k by (simp add: moved_def)
  have count: "request_message w index (block_answer b i len pa) (counted b seen) s1 = Inr (counted b (seen @ [pa]), s1)"
    by (rule counted_next) (use Cons.prems bc assms(3,4) in auto)
  have room: "length (rl_clients_seen (counted b seen)) < n" "rl_clients_seen (counted b (seen @ [pa])) = seen @ [pa]"
    "rl_tries (counted b (seen @ [pa])) = 0" "rl_read_messages (counted b (seen @ [pa])) = []"
    using Cons.prems(4) by (auto simp: counted_def request_init_def)
  have check: "checkMajority lb' (length (seen @ [pa])) n (rl_no_block (counted b (seen @ [pa]))) (rl_messages (counted b (seen @ [pa]))) =
    (if n < 2 * length (seen @ [pa]) then (True, Some b) else (False, if n div 2 \<le> length (seen @ [pa]) then Some b else lb'))" for lb'
    by (rule checkMajority_counted) (use Cons.prems in auto)
  show ?case
  proof (cases "n < 2 * length (seen @ [pa])")
    case True
    then have "k' = 0"
      using Cons.prems(7,9) k by simp
    obtain s2 where "place_back w [] s1 = Inr s2" "moved 1 0 s1 s2" "a_inbox s2 = map (block_answer b i len) pas"
      using orderly_place_back [OF assms(1), of "[]" s1] s1(3) quiet by auto
    with True fuel k \<open>k' = 0\<close> s1 count room check show ?thesis
      using moved_trans [OF s1(2)] by (simp add: request_body_def Let_def)
  next
    case False
    have "\<exists>s'. repeat_body fuel' (request_body w index n) (if n div 2 \<le> length (seen @ [pa]) then Some b else lb,
          counted b (seen @ [pa]), s1) = Inr ((True, Some b), s') \<and>
        moved (k' + 1) 0 s1 s' \<and> a_inbox s' = map (block_answer b i len) (drop k' pas)"
    proof (rule Cons.IH)
      show "tk_arrivals (w t) = []" if "a_clock s1 < t" "t \<le> a_clock s1 + k'" for t
        using that s1(2) Cons.prems(10) k by (simp add: moved_def)
    qed (use Cons.prems s1(3) quiet bc fuel k False in simp_all)
    then obtain s' where rest: "repeat_body fuel' (request_body w index n) (if n div 2 \<le> length (seen @ [pa]) then Some b else lb,
          counted b (seen @ [pa]), s1) = Inr ((True, Some b), s')" "moved (k' + 1) 0 s1 s'"
      "a_inbox s' = map (block_answer b i len) (drop k' pas)" by blast
    have "request_body w index n (lb, counted b seen, s) =
      Inr (Inr (if n div 2 \<le> length (seen @ [pa]) then Some b else lb, counted b (seen @ [pa]), s1))"
      using s1(1) count room check False by (simp add: request_body_def Let_def n_tries_def)
    with rest fuel k moved_trans [OF s1(2) rest(2)] show ?thesis
      by simp
  qed
qed simp

section \<open>Answers without a vote\<close>

text \<open>An answer of the peer \<open>pa\<close> that there is no block, or with a block that does not continue the chain.\<close>

definition no_vote :: "bytes chain \<Rightarrow> message \<Rightarrow> peer_address \<Rightarrow> bool" where
  "no_vote bc m pa \<longleftrightarrow> (\<exists>mh. read_bmh (fst m) = Some mh \<and> bmh_peer_address mh = pa \<and>
     (bmh_type mh = blockchain_type_code NOBLOCK \<or>
      bmh_type mh = blockchain_type_code BLOCK \<and> (\<exists>b. BlockFromData (drop 24 (fst m)) = Some b \<and> \<not> next_block bc b)))"

lemma block_follows_eq:
  "a_bc s \<noteq> [] \<Longrightarrow> length (GetData b) = sizeof_T \<Longrightarrow> block_follows b s = Inr (next_block (a_bc s) b)"
  by (auto simp: block_follows_def next_block_def GetTopHash_def vector_back_def)

lemma request_message_no_vote:
  assumes "no_vote (a_bc s) m pa" "pa \<notin> set (rl_clients_seen l)" "a_bc s \<noteq> []"
  shows "\<exists>k. request_message w index m l s = Inr (l\<lparr>rl_clients_seen := rl_clients_seen l @ [pa], rl_no_block := k\<rparr>, s)"
proof -
  obtain mh where mh: "read_bmh (fst m) = Some mh" "bmh_peer_address mh = pa"
    and kind: "bmh_type mh = blockchain_type_code NOBLOCK \<or>
      bmh_type mh = blockchain_type_code BLOCK \<and> (\<exists>b. BlockFromData (drop 24 (fst m)) = Some b \<and> \<not> next_block (a_bc s) b)"
    using assms(1) by (auto simp: no_vote_def simp del: blockchain_type_code.simps)
  from kind show ?thesis
  proof (elim disjE conjE exE)
    assume "bmh_type mh = blockchain_type_code NOBLOCK"
    with mh assms(2) show ?thesis
      by (intro exI [of _ "rl_no_block l + 1"]) (simp add: request_message_def Let_def client_found_iff)
  next
    fix b
    assume "bmh_type mh = blockchain_type_code BLOCK" and b: "BlockFromData (drop 24 (fst m)) = Some b" "\<not> next_block (a_bc s) b"
    moreover have "block_follows b s = Inr False"
      using block_follows_eq [OF assms(3) BlockFromData_size [OF b(1)]] b(2) by simp
    ultimately show ?thesis
      using mh assms(2) by (intro exI [of _ "rl_no_block l"]) (simp add: request_message_def Let_def client_found_iff)
  qed
qed

lemma no_votes_end:
  assumes "orderly L w" "0 < n" "a_bc s \<noteq> []" "a_inbox s @ tk_arrivals (w (a_clock s)) = ms @ rest"
    and "list_all2 (no_vote (a_bc s)) ms pas" "distinct (rl_clients_seen l @ pas)" "pas \<noteq> []"
    and "length (rl_clients_seen l) + length pas = max 1 (n div 2)" "length pas \<le> fuel"
    and "rl_messages l = []" "rl_tries l = 0" "rl_read_messages l = []"
  shows "\<exists>s'. repeat_body fuel (request_body w index n) (lb, l, s) = Inr ((True, None), s') \<and> moved (length pas + 1) 0 s s'"
  using assms(3-)
proof (induction pas arbitrary: ms rest s l fuel)
  case (Cons pa pas)
  obtain fuel' where fuel: "fuel = Suc fuel'" using Cons.prems by (cases fuel) auto
  obtain m ms' where ms: "ms = m # ms'" "no_vote (a_bc s) m pa" "list_all2 (no_vote (a_bc s)) ms' pas"
    using Cons.prems(3) by (auto simp: list_all2_Cons2)
  obtain s1 where s1: "take_message w s = Inr (Some m, s1)" "moved 1 0 s s1" "a_inbox s1 = ms' @ rest"
    using orderly_take [OF assms(1) Cons.prems(2) [unfolded ms(1) append_Cons]] by blast
  have bc: "a_bc s1 = a_bc s"
    using s1(2) by (simp add: moved_def core_def)
  obtain k where msg: "request_message w index m l s1 =
      Inr (l\<lparr>rl_clients_seen := rl_clients_seen l @ [pa], rl_no_block := k\<rparr>, s1)"
    using request_message_no_vote [of s1 m pa l w index] ms(2) bc Cons.prems(1,4) by auto
  let ?l = "l\<lparr>rl_clients_seen := rl_clients_seen l @ [pa], rl_no_block := k\<rparr>"
  have room: "length (rl_clients_seen l) < n"
    using Cons.prems(6) assms(2) by (simp add: max_def split: if_splits)
  have check: "checkMajority lb (length (rl_clients_seen ?l)) n (rl_no_block ?l) (rl_messages ?l) =
    (if pas = [] then (True, None) else (False, lb))"
    using Cons.prems(6,8) by (auto simp: checkMajority_def max_def split: if_splits) (cases pas; simp)+
  show ?case
  proof (cases "pas = []")
    case True
    obtain s2 where "place_back w [] s1 = Inr s2" "moved 1 0 s1 s2"
      using orderly_place_back [OF assms(1), of "[]" s1] by auto
    with True fuel s1(1) msg room check Cons.prems(8-10) moved_trans [OF s1(2)] show ?thesis
      by (simp add: request_body_def Let_def)
  next
    case False
    have "\<exists>s'. repeat_body fuel' (request_body w index n) (lb, ?l, s1) = Inr ((True, None), s') \<and> moved (length pas + 1) 0 s1 s'"
      by (rule Cons.IH [where ms = ms' and rest = "rest @ tk_arrivals (w (a_clock s1))"]) (use Cons.prems ms s1(3) bc fuel False in simp_all)
    then obtain s' where rest: "repeat_body fuel' (request_body w index n) (lb, ?l, s1) = Inr ((True, None), s')"
      "moved (length pas + 1) 0 s1 s'" by blast
    have "request_body w index n (lb, l, s) = Inr (Inr (lb, ?l, s1))"
      using s1(1) msg room check False Cons.prems(8-10) by (simp add: request_body_def Let_def n_tries_def)
    with rest(1) fuel moved_trans [OF s1(2) rest(2)] show ?thesis
      by simp
  qed
qed simp

section \<open>One round\<close>

text \<open>The call of \<open>repeat_body\<close> in a request, between the log entries and behind the broadcast.\<close>

lemma request_round:
  assumes w: "orderly L w" and peer: "listed (a_peer s)" "length (other_peers (a_peer s)) = n" "p_open (a_peer s) + n \<le> L" "0 < n"
    and loop: "\<And>s1. moved 2 n s s1 \<Longrightarrow>
      a_inbox s1 = a_inbox s @ tk_arrivals (w (a_clock s)) @ tk_arrivals (w (a_clock s + 1)) \<Longrightarrow>
      \<exists>s2. repeat_body fuel (request_body w (chain_size s) n) (bb, request_init, s1) = Inr ((True, r), s2) \<and>
        moved k 0 s1 s2 \<and> P (a_inbox s2)"
  shows "\<exists>s' ms. request_again fuel w block_id (bb, s) = Inr (Inl (r, s')) \<and> moved (k + 3) n s s' \<and> P ms \<and>
    a_inbox s' = ms @ tk_arrivals (w (a_clock s + k + 2))"
proof -
  let ?s0 = "log_entry w (LogRequestBlock block_id) s"
  have s0: "moved 1 0 s ?s0" "a_inbox ?s0 = a_inbox s @ tk_arrivals (w (a_clock s))"
    using orderly_log [OF w] by blast+
  then have "a_peer ?s0 = a_peer s" "a_clock ?s0 = a_clock s + 1" "chain_size ?s0 = chain_size s"
    by (simp_all add: moved_def core_def chain_size_def)
  with orderly_broadcast [OF w, of ?s0] peer s0(2) obtain s1 where
    s1: "app_broadcast w (bmh_bytes \<lparr>bmh_type = blockchain_type_code REQUESTBLOCK, bmh_peer_address = p_own_pa (a_peer ?s0),
        bmh_index = chain_size ?s0\<rparr>) ?s0 = Inr (n, s1)" "moved 1 n ?s0 s1"
      "a_inbox s1 = a_inbox s @ tk_arrivals (w (a_clock s)) @ tk_arrivals (w (a_clock s + 1))"
    by auto
  have m1: "moved 2 n s s1"
    using moved_trans [OF s0(1) s1(2)] by (simp add: numeral_2_eq_2)
  obtain s2 where s2: "repeat_body fuel (request_body w (chain_size s) n) (bb, request_init, s1) = Inr ((True, r), s2)"
    "moved k 0 s1 s2" "P (a_inbox s2)"
    using loop [OF m1 s1(3)] by blast
  let ?s3 = "log_entry w (LogReceivedBlock block_id True) s2"
  have s3: "moved 1 0 s2 ?s3" "a_inbox ?s3 = a_inbox s2 @ tk_arrivals (w (a_clock s2))"
    using orderly_log [OF w] by blast+
  have "a_clock s2 = a_clock s + k + 2"
    using m1 s2(2) by (simp add: moved_def)
  moreover have "moved (k + 3) n s ?s3"
    using moved_trans [OF moved_trans [OF m1 s2(2)] s3(1)] by (simp add: add.commute numeral_3_eq_3 numeral_2_eq_2)
  moreover have "request_again fuel w block_id (bb, s) = Inr (Inl (r, ?s3))"
    using s1(1) s2(1) peer(4) \<open>chain_size ?s0 = chain_size s\<close>
    by (simp add: request_again_def RequestBlockchainBlock_def Let_def)
  ultimately show ?thesis
    using s2(3) s3(2) by (intro exI [of _ ?s3] exI [of _ "a_inbox s2"]) simp
qed

lemma round_adds_block:
  assumes w: "orderly L w" and peer: "listed (a_peer s)" "length (other_peers (a_peer s)) = n" "p_open (a_peer s) + n \<le> L"
    and b: "next_block (a_bc s) b" "length (GetHash b) = 64" "length (GetPrevHash b) = 64"
    and pas: "distinct pas" "length pas = n" "0 < n" "2 * n < 2 ^ 64" "n < fuel"
    and arrivals: "a_inbox s = []" "tk_arrivals (w (a_clock s + 2)) = map (block_answer b i len) pas"
      "\<And>t. a_clock s \<le> t \<Longrightarrow> t < a_clock s + n div 2 + 5 \<Longrightarrow> t \<noteq> a_clock s + 2 \<Longrightarrow> tk_arrivals (w t) = []"
  shows "\<exists>s'. request_chain fuel w (bb, s) = Inr (Inr (Some b, s')) \<and> a_bc s' = a_bc s @ [b] \<and>
    a_clock s' = a_clock s + n div 2 + 5 \<and> a_peer s' = (a_peer s)\<lparr>p_open := p_open (a_peer s) + n\<rparr> \<and>
    a_inbox s' = map (block_answer b i len) (drop (n div 2 + 1) pas)"
proof -
  let ?left = "map (block_answer b i len) (drop (n div 2 + 1) pas)"
  have init: "request_init = counted b []"
    by (simp add: counted_def request_init_def)
  have "\<exists>s' ms. request_again fuel w (Size (a_bc s)) (bb, s) = Inr (Inl (Some b, s')) \<and> moved (n div 2 + 2 + 3) n s s' \<and>
    ms = ?left \<and> a_inbox s' = ms @ tk_arrivals (w (a_clock s + (n div 2 + 2) + 2))"
  proof (rule request_round [OF w peer pas(3)])
    fix s1
    assume s1: "moved 2 n s s1" "a_inbox s1 = a_inbox s @ tk_arrivals (w (a_clock s)) @ tk_arrivals (w (a_clock s + 1))"
    have c: "a_clock s1 = a_clock s + 2" "a_bc s1 = a_bc s"
      using s1(1) by (simp_all add: moved_def core_def)
    have "\<exists>s2. repeat_body fuel (request_body w (chain_size s) n) (bb, counted b [], s1) = Inr ((True, Some b), s2) \<and>
        moved (n div 2 + 1 + 1) 0 s1 s2 \<and> a_inbox s2 = ?left"
    proof (rule answers_agree [OF w _ b(2,3)])
      show "tk_arrivals (w t) = []" if "a_clock s1 < t" "t \<le> a_clock s1 + (n div 2 + 1)" for t
        using that c(1) by (intro arrivals(3)) simp_all
    qed (use b(1) c pas arrivals s1(2) in simp_all)
    then show "\<exists>s2. repeat_body fuel (request_body w (chain_size s) n) (bb, request_init, s1) = Inr ((True, Some b), s2) \<and>
        moved (n div 2 + 2) 0 s1 s2 \<and> a_inbox s2 = ?left"
      unfolding init by simp
  qed
  moreover have "tk_arrivals (w (a_clock s + (n div 2 + 2) + 2)) = []"
    by (rule arrivals(3)) simp_all
  ultimately obtain s' where s': "request_again fuel w (Size (a_bc s)) (bb, s) = Inr (Inl (Some b, s'))"
    "moved (n div 2 + 5) n s s'" "a_inbox s' = ?left"
    by (auto simp: add.commute)
  obtain fuel' where "fuel = Suc fuel'"
    using pas(5) by (cases fuel) auto
  moreover have "add_block (GetData b) s' = Inr (s'\<lparr>a_bc := a_bc s @ [b]\<rparr>)"
    using s'(2) b(1) by (simp add: add_block_def add_next_block moved_def core_def)
  ultimately have "request_chain fuel w (bb, s) = Inr (Inr (Some b, s'\<lparr>a_bc := a_bc s @ [b]\<rparr>))"
    using s'(1) by (simp add: request_chain_def)
  with s'(2,3) show ?thesis
    by (simp add: moved_def)
qed

lemma round_without_votes:
  assumes w: "orderly L w" and peer: "listed (a_peer s)" "length (other_peers (a_peer s)) = n" "p_open (a_peer s) + n \<le> L"
    and "a_bc s \<noteq> []" "0 < n" "n < fuel" "distinct pas" "length pas = max 1 (n div 2)" "list_all2 (no_vote (a_bc s)) ms pas"
    and "a_inbox s @ tk_arrivals (w (a_clock s)) @ tk_arrivals (w (a_clock s + 1)) @ tk_arrivals (w (a_clock s + 2)) = ms @ rest"
  shows "\<exists>s'. request_chain fuel w (bb, s) = Inr (Inl s') \<and> core s' = core s"
proof -
  have "\<exists>s' ms. request_again fuel w (Size (a_bc s)) (bb, s) = Inr (Inl (None, s')) \<and> moved (length pas + 1 + 3) n s s' \<and>
    True \<and> a_inbox s' = ms @ tk_arrivals (w (a_clock s + (length pas + 1) + 2))"
  proof (rule request_round [OF w peer assms(6)])
    fix s1
    assume s1: "moved 2 n s s1" "a_inbox s1 = a_inbox s @ tk_arrivals (w (a_clock s)) @ tk_arrivals (w (a_clock s + 1))"
    have c: "a_clock s1 = a_clock s + 2" "a_bc s1 = a_bc s"
      using s1(1) by (simp_all add: moved_def core_def)
    have "length pas \<le> fuel" "pas \<noteq> []"
      using assms(6,7,9) by (auto simp: max_def split: if_splits)
    with no_votes_end [OF w assms(6), of s1 ms rest pas request_init fuel "chain_size s" bb] assms(5,8-) s1(2) c
    show "\<exists>s2. repeat_body fuel (request_body w (chain_size s) n) (bb, request_init, s1) = Inr ((True, None), s2) \<and>
        moved (length pas + 1) 0 s1 s2 \<and> True"
      by (simp add: request_init_def)
  qed
  then obtain s' where s': "request_again fuel w (Size (a_bc s)) (bb, s) = Inr (Inl (None, s'))" "core s' = core s"
    by (auto simp: moved_def)
  obtain fuel' where "fuel = Suc fuel'"
    using assms(7) by (cases fuel) auto
  with s' show ?thesis
    by (simp add: request_chain_def)
qed

section \<open>Peers that answer at once\<close>

text \<open>The answers of the peers \<open>others\<close>, in the states given, to a request of \<open>us\<close> for block \<open>i\<close>.\<close>

definition answers :: "peer_address \<Rightarrow> nat \<Rightarrow> app list \<Rightarrow> message list" where
  "answers us i others = map (\<lambda>p. let payload = answer_to \<lparr>bmh_type = blockchain_type_code REQUESTBLOCK, bmh_peer_address = us,
     bmh_index = of_nat i\<rparr> p in (payload, of_nat (length payload))) others"

definition addresses :: "app list \<Rightarrow> peer_address list" where
  "addresses others = map (\<lambda>p. p_own_pa (a_peer p)) others"

lemma answers_block:
  assumes "\<forall>p \<in> set others. a_bc p = bc" "i < length bc" "length bc < 2 ^ 64"
  shows "answers us i others = map (block_answer (bc ! i) (of_nat i) (of_nat (24 + length (DataFromBlock (bc ! i))))) (addresses others)"
proof -
  have "unat (of_nat i :: size_t) = i"
    using assms(2,3) by (simp add: unat_of_nat)
  with assms show ?thesis
    by (simp add: answers_def addresses_def answer_to_def GetBlockFromIndex_def Size_def block_answer_def Let_def)
qed

lemma answers_end:
  assumes "\<forall>p \<in> set others. a_bc p = bc" "length bc < 2 ^ 64"
  shows "list_all2 (no_vote bc') (answers us (length bc) others) (addresses others)"
proof -
  have "unat (of_nat (length bc) :: size_t) = length bc"
    using assms(2) by (simp add: unat_of_nat)
  with assms(1) have "no_vote bc' (answer_to \<lparr>bmh_type = blockchain_type_code REQUESTBLOCK, bmh_peer_address = us,
      bmh_index = of_nat (length bc)\<rparr> p, n) (p_own_pa (a_peer p))" if "p \<in> set others" for p n
    using that read_bmh_bytes [of "\<lparr>bmh_type = blockchain_type_code NOBLOCK, bmh_peer_address = p_own_pa (a_peer p),
        bmh_index = of_nat (length bc)\<rparr>" "[]"]
    by (simp add: answer_to_def GetBlockFromIndex_def Size_def no_vote_def)
  then show ?thesis
    by (auto simp: answers_def addresses_def Let_def list_all2_conv_all_nth)
qed

text \<open>
  With \<open>n\<close> other peers a round in which all answers agree takes \<open>n div 2 + 5\<close> interactions: two log entries, the broadcast, the
  answers up to the majority, and placing messages back. The answers to \<open>k\<close> requests, the first for block \<open>i\<close> at interaction
  \<open>c\<close>, arrive right behind the broadcasts.
\<close>

definition answered_at_once :: "world \<Rightarrow> peer_address \<Rightarrow> app list \<Rightarrow> nat \<Rightarrow> nat \<Rightarrow> nat \<Rightarrow> bool" where
  "answered_at_once w us others c i k \<longleftrightarrow> (\<forall>j < k. \<forall>t < length others div 2 + 5.
     tk_arrivals (w (c + j * (length others div 2 + 5) + t)) = (if t = 2 then answers us (i + j) others else []))"

lemma answered_first:
  assumes "answered_at_once w us others c i (Suc k)"
  shows "tk_arrivals (w (c + 2)) = answers us i others"
    "c \<le> t \<Longrightarrow> t < c + length others div 2 + 5 \<Longrightarrow> t \<noteq> c + 2 \<Longrightarrow> tk_arrivals (w t) = []"
    "answered_at_once w us others (c + length others div 2 + 5) (i + 1) k"
proof -
  have all: "tk_arrivals (w (c + j * (length others div 2 + 5) + t)) = (if t = 2 then answers us (i + j) others else [])"
    if "j < Suc k" "t < length others div 2 + 5" for j t
    using assms that by (simp add: answered_at_once_def)
  show "tk_arrivals (w (c + 2)) = answers us i others"
    using all [of 0 2] by simp
  show "tk_arrivals (w t) = []" if "c \<le> t" "t < c + length others div 2 + 5" "t \<noteq> c + 2"
    using all [of 0 "t - c"] that by auto
  show "answered_at_once w us others (c + length others div 2 + 5) (i + 1) k"
    unfolding answered_at_once_def using all [of "Suc _"] by (auto simp: algebra_simps)
qed

text \<open>The other peers have the chain \<open>bc\<close>, which is valid and continues that of \<open>s\<close>, and are all on the list.\<close>

definition ahead :: "app \<Rightarrow> app list \<Rightarrow> bytes chain \<Rightarrow> b_type list \<Rightarrow> bool" where
  "ahead s others bc bs \<longleftrightarrow> bc = a_bc s @ bs \<and> a_bc s \<noteq> [] \<and> (\<forall>p \<in> set others. a_bc p = bc) \<and>
     chain_valid SHA256FromDataAndHash default_T bc \<and> (\<forall>b \<in> set bc. length (blk_data b) = sizeof_T) \<and> length bc < 2 ^ 64 \<and>
     listed (a_peer s) \<and> length (other_peers (a_peer s)) = length others \<and> distinct (addresses others) \<and> length others < 2 ^ 63"

lemma ahead_next:
  assumes "ahead s others bc (b # bs)"
  shows "next_block (a_bc s) b" "length (GetHash b) = 64" "length (GetPrevHash b) = 64"
    "answers us (Size (a_bc s)) others = map (block_answer b (of_nat (Size (a_bc s))) (of_nat (24 + length (DataFromBlock b))))
       (addresses others)"
proof -
  have bc: "bc = a_bc s @ b # bs" "length (a_bc s) < length bc" "0 < length (a_bc s)"
    using assms by (auto simp: ahead_def)
  with assms prefix_next_block [of bc "length (a_bc s)"]
  show "next_block (a_bc s) b" "length (GetHash b) = 64" "length (GetPrevHash b) = 64"
    by (simp_all add: ahead_def Size_def)
  from answers_block [of others bc "length (a_bc s)" us] assms bc
  show "answers us (Size (a_bc s)) others = map (block_answer b (of_nat (Size (a_bc s))) (of_nat (24 + length (DataFromBlock b))))
       (addresses others)"
    by (simp add: ahead_def Size_def)
qed

lemma ahead_round:
  assumes w: "orderly L w" and peers: "ahead s others bc (b # bs)" "others \<noteq> []" "p_open (a_peer s) + length others \<le> L"
    and arrivals: "a_inbox s = []" "answered_at_once w us others (a_clock s) (Size (a_bc s)) (Suc k)" and fuel: "length others < fuel"
  shows "\<exists>s'. request_chain fuel w (bb, s) = Inr (Inr (Some b, s')) \<and> ahead s' others bc bs \<and>
    a_bc s' = a_bc s @ [b] \<and> a_clock s' = a_clock s + length others div 2 + 5 \<and> p_own_pa (a_peer s') = p_own_pa (a_peer s) \<and>
    p_open (a_peer s') = p_open (a_peer s) + length others \<and>
    a_inbox s' = map (block_answer b (of_nat (Size (a_bc s))) (of_nat (24 + length (DataFromBlock b))))
      (drop (length others div 2 + 1) (addresses others))"
proof -
  have "\<exists>s'. request_chain fuel w (bb, s) = Inr (Inr (Some b, s')) \<and> a_bc s' = a_bc s @ [b] \<and>
    a_clock s' = a_clock s + length others div 2 + 5 \<and> a_peer s' = (a_peer s)\<lparr>p_open := p_open (a_peer s) + length others\<rparr> \<and>
    a_inbox s' = map (block_answer b (of_nat (Size (a_bc s))) (of_nat (24 + length (DataFromBlock b))))
      (drop (length others div 2 + 1) (addresses others))"
  proof (rule round_adds_block [OF w _ _ peers(3) ahead_next(1-3) [OF peers(1)]])
    show "tk_arrivals (w (a_clock s + 2)) = map (block_answer b (of_nat (Size (a_bc s))) (of_nat (24 + length (DataFromBlock b))))
       (addresses others)"
      using answered_first(1) [OF arrivals(2)] ahead_next(4) [OF peers(1)] by simp
  qed (use peers arrivals(1) fuel answered_first(2) [OF arrivals(2)] in \<open>simp_all add: ahead_def addresses_def\<close>)
  with peers(1) show ?thesis
    by (auto simp: ahead_def)
qed

lemma catches_up:
  assumes w: "orderly L w" and others: "others \<noteq> []" "length others \<le> 2" "2 < fuel"
    and "ahead s others bc bs" "p_open (a_peer s) + (length bs + 1) * length others \<le> L" "a_inbox s = []"
    and "answered_at_once w us others (a_clock s) (Size (a_bc s)) (length bs + 1)" "length bs < rounds"
  shows "\<exists>s'. repeat_body rounds (request_chain fuel w) (bb, s) = Inr s' \<and> a_bc s' = bc"
  using assms(5-)
proof (induction bs arbitrary: s bb rounds)
  case Nil
  then obtain rounds' where rounds: "rounds = Suc rounds'" by (cases rounds) auto
  have bc: "a_bc s = bc" "bc \<noteq> []" "length (addresses others) = length others" "distinct (addresses others)" "listed (a_peer s)"
    "length (other_peers (a_peer s)) = length others" "\<forall>p \<in> set others. a_bc p = bc" "length bc < 2 ^ 64"
    using Nil.prems(1) by (auto simp: ahead_def addresses_def)
  have one: "length others = 1 \<or> length others = 2"
    using others(1,2) by (auto simp: le_Suc_eq numeral_2_eq_2)
  note first = answered_first [OF Nil.prems(4) [unfolded list.size(3) add_0 One_nat_def]]
  have quiet: "tk_arrivals (w (a_clock s)) = []" "tk_arrivals (w (a_clock s + 1)) = []"
    by (simp_all add: first(2))
  have "\<exists>s'. request_chain fuel w (bb, s) = Inr (Inl s') \<and> core s' = core s"
  proof (rule round_without_votes [OF w bc(5,6)])
    show "distinct (take 1 (addresses others))" "length (take 1 (addresses others)) = max 1 (length others div 2)"
      using bc(3,4) one by auto
    show "list_all2 (no_vote (a_bc s)) (take 1 (answers us (length bc) others)) (take 1 (addresses others))"
      using answers_end [OF bc(7,8)] by (rule list_all2_takeI)
    show "a_inbox s @ tk_arrivals (w (a_clock s)) @ tk_arrivals (w (a_clock s + 1)) @ tk_arrivals (w (a_clock s + 2)) =
        take 1 (answers us (length bc) others) @ drop 1 (answers us (length bc) others)"
      using Nil.prems(3) quiet first(1) bc(1) by (simp add: Size_def)
  qed (use Nil.prems(2) bc others one in auto)
  with rounds bc(1) show ?case
    by (auto simp: core_def)
next
  case (Cons b bs)
  obtain rounds' where rounds: "rounds = Suc rounds'" "length bs < rounds'"
    using Cons.prems(5) by (cases rounds) auto
  have first: "answered_at_once w us others (a_clock s) (Size (a_bc s)) (Suc (length bs + 1))"
    using Cons.prems(4) by simp
  have "p_open (a_peer s) + length others \<le> L" "length others < fuel"
    using Cons.prems(2) others by simp_all
  from ahead_round [OF w Cons.prems(1) others(1) this(1) Cons.prems(3) first this(2), of bb]
  obtain s' where s': "request_chain fuel w (bb, s) = Inr (Inr (Some b, s'))" "ahead s' others bc bs" "a_bc s' = a_bc s @ [b]"
    "a_clock s' = a_clock s + length others div 2 + 5" "p_open (a_peer s') = p_open (a_peer s) + length others"
    "a_inbox s' = map (block_answer b (of_nat (Size (a_bc s))) (of_nat (24 + length (DataFromBlock b))))
      (drop (length others div 2 + 1) (addresses others))" by blast
  have "length (addresses others) \<le> length others div 2 + 1"
    using others(2) by (simp add: addresses_def)
  then have "a_inbox s' = []"
    using s'(6) by simp
  moreover have "answered_at_once w us others (a_clock s') (Size (a_bc s')) (length bs + 1)"
    using answered_first(3) [OF first] s'(3,4) by (simp add: Size_def)
  ultimately have "\<exists>t. repeat_body rounds' (request_chain fuel w) (Some b, s') = Inr t \<and> a_bc t = bc"
    using Cons.prems(2) s'(5) rounds(2) by (intro Cons.IH [OF s'(2)]) simp_all
  with s'(1) rounds(1) show ?case
    by simp
qed

lemma stale_no_votes:
  assumes "length (GetHash b) = 64" "length (GetPrevHash b) = 64" "length (GetData b) = sizeof_T" "GetHash b \<noteq> GetPrevHash b"
  shows "list_all2 (no_vote (bc @ [b])) (map (block_answer b i len) pas) pas"
proof -
  have "BlockFromData (DataFromBlock b) = Some b"
    using BlockFromData_DataFromBlock [of b "[]"] assms(1-3) by simp
  moreover have "\<not> next_block (bc @ [b]) b"
    using assms(4) by (simp add: next_block_def GetTopHash_def vector_back_def)
  ultimately have "no_vote (bc @ [b]) (block_answer b i len pa) pa" for pa
    by (simp add: no_vote_def block_answer_def)
  then show ?thesis
    by (simp add: list_all2_map1 list.rel_refl)
qed

lemma stops_early:
  assumes w: "orderly L w" and peers: "ahead s others bc (b # bs)" "odd (length others)" "3 \<le> length others"
    "p_open (a_peer s) + 2 * length others \<le> L"
    and arrivals: "a_inbox s = []" "answered_at_once w us others (a_clock s) (Size (a_bc s)) 1"
    and fuel: "length others < fuel" and differ: "GetHash b \<noteq> GetPrevHash b"
  shows "\<exists>s'. RequestBlockchain fuel w s = Inr s' \<and> a_bc s' = a_bc s @ [b]"
proof -
  obtain fuel' where f: "fuel = Suc (Suc fuel')"
    using fuel peers(3) by (cases fuel; cases "fuel - 1") auto
  have "others \<noteq> []" "p_open (a_peer s) + length others \<le> L"
    using peers by auto
  from ahead_round [OF w peers(1) this arrivals(1) arrivals(2) [unfolded One_nat_def] fuel, of None]
  obtain s' where s': "request_chain fuel w (None, s) = Inr (Inr (Some b, s'))" "ahead s' others bc bs" "a_bc s' = a_bc s @ [b]"
    "p_open (a_peer s') = p_open (a_peer s) + length others"
    "a_inbox s' = map (block_answer b (of_nat (Size (a_bc s))) (of_nat (24 + length (DataFromBlock b))))
      (drop (length others div 2 + 1) (addresses others))" by blast
  have "\<exists>t. request_chain fuel w (Some b, s') = Inr (Inl t) \<and> core t = core s'"
  proof (rule round_without_votes [OF w, where pas = "drop (length others div 2 + 1) (addresses others)"])
    show "length (drop (length others div 2 + 1) (addresses others)) = max 1 (length others div 2)"
      using peers(2,3) by (auto simp: addresses_def elim!: oddE)
    show "list_all2 (no_vote (a_bc s')) (map (block_answer b (of_nat (Size (a_bc s))) (of_nat (24 + length (DataFromBlock b))))
      (drop (length others div 2 + 1) (addresses others))) (drop (length others div 2 + 1) (addresses others))"
      unfolding s'(3) using ahead_next(1-3) [OF peers(1)] differ by (intro stale_no_votes) (simp_all add: next_block_def)
    show "distinct (drop (length others div 2 + 1) (addresses others))"
      using peers(1) by (auto simp: ahead_def intro: distinct_drop)
    show "a_inbox s' @ tk_arrivals (w (a_clock s')) @ tk_arrivals (w (a_clock s' + 1)) @ tk_arrivals (w (a_clock s' + 2)) =
      map (block_answer b (of_nat (Size (a_bc s))) (of_nat (24 + length (DataFromBlock b))))
        (drop (length others div 2 + 1) (addresses others)) @
      tk_arrivals (w (a_clock s')) @ tk_arrivals (w (a_clock s' + 1)) @ tk_arrivals (w (a_clock s' + 2))"
      unfolding s'(5) ..
    show "listed (a_peer s')" "length (other_peers (a_peer s')) = length others" "a_bc s' \<noteq> []"
      using s'(2) by (simp_all add: ahead_def)
    show "p_open (a_peer s') + length others \<le> L" "0 < length others"
      using s'(4) peers(3,4) by auto
  qed (rule fuel)
  then obtain t where "request_chain fuel w (Some b, s') = Inr (Inl t)" "a_bc t = a_bc s'"
    by (auto simp: core_def)
  with s'(1,3) f show ?thesis
    by (simp add: RequestBlockchain_def)
qed

section \<open>Properties\<close>

text \<open>
  C9: With one or two other peers catching up is complete. If they are on the list, have one longer chain, and the answers of their
  \<^verbatim>\<open>SendBlockchain\<close> to every request arrive right behind it, then \<^verbatim>\<open>RequestBlockchain\<close> returns with exactly their chain; fuel for
  one round per missing block and one more is enough.
\<close>

theorem catching_up_is_complete:
  assumes "orderly L w" "ahead s others bc bs" "others \<noteq> []" "length others \<le> 2"
    "p_open (a_peer s) + (length bs + 1) * length others \<le> L" "a_inbox s = []"
    "answered_at_once w us others (a_clock s) (Size (a_bc s)) (length bs + 1)" "length bs + 2 < fuel"
  shows "\<exists>s'. RequestBlockchain fuel w s = Inr s' \<and> a_bc s' = bc"
  unfolding RequestBlockchain_def by (rule catches_up [OF assms(1,3,4) _ assms(2,5-7)]) (use assms(8) in simp_all)

text \<open>
  C10: With an odd number of other peers, from three on, catching up stops after one block, however many more all of them have and
  however promptly they answer. The majority for the first block is announced when half of the answers are still in the mailbox; the
  request for the second block reads these, takes them for answers without a valid block, and half of the peers having answered
  without a block is taken for the end of the chain. (The block could only be valid again if its hash were its own predecessor.)
\<close>

theorem catching_up_stops_early:
  assumes "orderly L w" "ahead s others bc (b # bs)" "odd (length others)" "3 \<le> length others"
    "p_open (a_peer s) + 2 * length others \<le> L" "a_inbox s = []"
    "answered_at_once w us others (a_clock s) (Size (a_bc s)) 1" "length others < fuel"
  shows "(\<exists>s'. RequestBlockchain fuel w s = Inr s' \<and> a_bc s' = a_bc s @ [b]) \<or> GetHash b = GetPrevHash b"
  using stops_early [OF assms] by blast

text \<open>Peers at the addresses \<open>pas\<close> that are one block ahead, and the world in which they answer.\<close>

definition ahead_peer :: "peer_address \<Rightarrow> app" where
  "ahead_peer pa = (sample_app (genesis @ [sample_block]) [])\<lparr>a_peer := (sample_peer [])\<lparr>p_own_pa := pa\<rparr>\<rparr>"

definition behind :: "peer_address list \<Rightarrow> app" where
  "behind pas = (sample_app genesis [])\<lparr>a_peer := (sample_peer [])\<lparr>p_network_info := Some pas,
     p_n_peers := length pas, p_open := 2\<rparr>\<rparr>"

definition answering :: "peer_address list \<Rightarrow> world" where
  "answering pas = (\<lambda>t. (sample_tick
     (if t = 2 then answers other_peer 1 (map ahead_peer pas)
      else if t = length pas div 2 + 7 then answers other_peer 2 (map ahead_peer pas) else []) [])\<lparr>tk_peer := \<lambda>p. p\<rparr>)"

lemma answering_orderly: "orderly 1024 (answering pas)"
  by (simp add: orderly_def answering_def)

lemma answering_at_once: "k \<le> 2 \<Longrightarrow> answered_at_once (answering pas) other_peer (map ahead_peer pas) 0 1 k"
proof -
  assume k: "k \<le> 2"
  have "tk_arrivals (answering pas (0 + j * (length pas div 2 + 5) + t)) =
      (if t = 2 then answers other_peer (1 + j) (map ahead_peer pas) else [])"
    if "j < k" "t < length pas div 2 + 5" for j t
  proof -
    from that(1) k have "j = 0 \<or> j = 1" by auto
    with that(2) show ?thesis
      by (auto simp: answering_def numeral_2_eq_2)
  qed
  then show ?thesis
    by (simp add: answered_at_once_def)
qed

lemma behind_ahead:
  assumes "distinct pas" "p_own_pa (sample_peer []) \<notin> set pas" "length pas < 2 ^ 63"
  shows "ahead (behind pas) (map ahead_peer pas) (genesis @ [sample_block]) [sample_block]"
proof -
  have "chain_valid SHA256FromDataAndHash default_T (genesis @ [sample_block])"
    using follows_valid [OF _ genesis_valid, of "[sample_block]"] sample_block_next by simp
  moreover have "\<forall>b \<in> set (genesis @ [sample_block]). length (blk_data b) = sizeof_T"
    using sample_block_sizes(3) by (auto simp: genesis_eq default_T_def GetData_def)
  moreover have "filter (\<lambda>pa. pa \<noteq> p_own_pa (sample_peer [])) pas = pas"
    using assms(2) by (auto simp: filter_id_conv)
  moreover have "map (\<lambda>x. x) pas = pas" "genesis \<noteq> []" "length (genesis @ [sample_block]) < 2 ^ 64"
    by (simp_all add: genesis_eq)
  ultimately show ?thesis
    using assms by (simp add: ahead_def behind_def ahead_peer_def addresses_def other_peers_def listed_def comp_def)
qed

lemma behind_simps [simp]: "a_clock (behind pas) = 0" "a_inbox (behind pas) = []" "a_bc (behind pas) = genesis" "Size genesis = 1"
  "p_open (a_peer (behind pas)) = 2"
  by (simp_all add: behind_def Size_def genesis_eq)

theorem catching_up_is_complete_witness:
  "\<exists>s'. RequestBlockchain 4 (answering [other_peer]) (behind [other_peer]) = Inr s' \<and> a_bc s' = genesis @ [sample_block]"
proof -
  have "distinct [other_peer]" "p_own_pa (sample_peer []) \<notin> set [other_peer]" "length [other_peer] < 2 ^ 63"
    by (simp_all add: other_peer_def sample_peer_def init_peer_address_def)
  from catching_up_is_complete [OF answering_orderly behind_ahead [OF this], where us = other_peer and fuel = 4]
    answering_at_once [of "Suc (Suc 0)" "[other_peer]"]
  show ?thesis
    by simp
qed

theorem catching_up_stops_early_witness:
  "let pas = [other_peer, init_peer_address 2 82 1, init_peer_address 2 83 1] in
    (\<exists>s'. RequestBlockchain 4 (answering pas) (behind pas) = Inr s' \<and> a_bc s' = genesis @ [sample_block]) \<or>
    GetHash sample_block = GetPrevHash sample_block"
proof -
  let ?pas = "[other_peer, init_peer_address 2 82 1, init_peer_address 2 83 1]"
  have "distinct ?pas" "p_own_pa (sample_peer []) \<notin> set ?pas" "length ?pas < 2 ^ 63"
    by (simp_all add: other_peer_def sample_peer_def init_peer_address_def)
  from catching_up_stops_early [OF answering_orderly behind_ahead [OF this], where us = other_peer and fuel = 4] answering_at_once [of 1 ?pas]
  show ?thesis
    by simp
qed

end
