(* ===== verification/Consensus.thy ===== *)
theory Consensus
  imports Application CatchUp
begin

text \<open>
  What two countings of votes have to do with each other, \<^verbatim>\<open>CheckVotesForBlock\<close> of \<^verbatim>\<open>application/application.cc\<close> run by two peers of one
  network, or by one peer twice: two majorities of one set of peers have a peer in common, so blocks can only both be
  accepted if some peer agreed to both of them. And a whole round of the protocol, from the proposal of a block to its addition
  at the proposer and at the receivers.
\<close>

text \<open>
  The peers whose agreement a counting from the state \<open>s0\<close> to \<open>s\<close> can have counted: the senders of agreeing votes, and the peer itself
  if it agrees.
\<close>

definition voters :: "world \<Rightarrow> app \<Rightarrow> app \<Rightarrow> b_type \<Rightarrow> bool \<Rightarrow> peer_address set" where
  "voters w s0 s b own_vote = supporters w s0 s b \<union> (if own_vote then {p_own_pa (a_peer s0)} else {})"

lemma finite_voters [simp]: "finite (voters w s0 s b own_vote)"
  by (simp add: voters_def)

lemma accepted_voters:
  assumes "CheckVotesForBlock fuel w n_peers b own_vote s = Inr (True, s')" "p_own_pa (a_peer s) \<notin> supporters w s s' b"
  shows "n_peers + 1 < 2 * card (voters w s s' b own_vote)"
  using CheckVotes_post [OF assms(1)] assms(2) by (auto simp: votes_post_def voters_def)

lemma majorities_intersect:
  assumes "finite M" "A \<subseteq> M" "B \<subseteq> M" "card M < 2 * card A" "card M < 2 * card B"
  shows "A \<inter> B \<noteq> {}"
proof
  assume "A \<inter> B = {}"
  then have "card A + card B = card (A \<union> B)"
    using assms(1-3) by (simp add: card_Un_disjoint finite_subset)
  also have "\<dots> \<le> card M"
    using assms(1-3) by (simp add: card_mono)
  finally show False
    using assms(4,5) by simp
qed

lemma ballot_supporter: "agrees_with index b' (ballot s b len (pa, agree)) pa' \<Longrightarrow> pa' = pa"
  by (auto simp: agrees_with_def ballot_def)

text \<open>
  C5: Let two runs of \<^verbatim>\<open>CheckVotesForBlock\<close>, of the same or of different peers, in any environments, accept a block each, in a network of
  \<open>n_peers + 1\<close> members from which all counted votes come. Then a member is among the voters of both runs. So where no peer
  agrees to two blocks of one height, no two different blocks are accepted at it; and where two are, a peer that agreed to both exists.
\<close>

theorem accepted_blocks_share_voter:
  assumes "CheckVotesForBlock fuel w n_peers b own_vote s = Inr (True, s')"
    "CheckVotesForBlock fuel2 w2 n_peers b2 own_vote2 t = Inr (True, t')"
    "finite members" "card members = n_peers + 1"
    "voters w s s' b own_vote \<subseteq> members" "voters w2 t t' b2 own_vote2 \<subseteq> members"
    "p_own_pa (a_peer s) \<notin> supporters w s s' b" "p_own_pa (a_peer t) \<notin> supporters w2 t t' b2"
  shows "\<exists>pa \<in> members. pa \<in> voters w s s' b own_vote \<and> pa \<in> voters w2 t t' b2 own_vote2"
proof -
  have "card members < 2 * card (voters w s s' b own_vote)" "card members < 2 * card (voters w2 t t' b2 own_vote2)"
    using accepted_voters [OF assms(1,7)] accepted_voters [OF assms(2,8)] assms(4) by simp_all
  from majorities_intersect [OF assms(3,5,6) this] assms(5) show ?thesis
    by blast
qed

text \<open>
  Two peers that each propose a block of their own and agree to the block of the other: both blocks are accepted, and the
  peers are the common voters. The hashes differ, so the choice by the least hash decides later.
\<close>

definition rival_block :: b_type where
  "rival_block = sample_block\<lparr>blk_hash := replicate 64 7\<rparr>"

lemma one_ballot_accepted:
  assumes "a_inbox s = [ballot s b 104 (pa, True)]" "length (GetHash b) = 64"
  shows "\<exists>s'. CheckVotesForBlock 2 (\<lambda>t. sample_tick [] []) 1 b True s = Inr (True, s') \<and>
    supporters (\<lambda>t. sample_tick [] []) s s' b \<subseteq> {pa}"
proof -
  have "\<exists>s'. CheckVotesForBlock 2 (\<lambda>t. sample_tick [] []) (length [(pa, True)]) b True s =
      Inr (length [(pa, True)] + 1 < 2 * ((if True then 1 else 0) + length (filter snd [(pa, True)])), s')"
    by (rule CheckVotes_ballots_result [where len = 104]) (use assms in simp_all)
  then obtain s' where s': "CheckVotesForBlock 2 (\<lambda>t. sample_tick [] []) 1 b True s = Inr (True, s')"
    by (auto simp del: CheckVotesForBlock.simps)
  have "supporters (\<lambda>t. sample_tick [] []) s s' b \<subseteq> {pa}"
    using assms(1) ballot_supporter by (auto simp: supporters_def heard_def)
  with s' show ?thesis
    by blast
qed

theorem accepted_blocks_share_voter_witness:
  "\<exists>s s' t t' pa. CheckVotesForBlock 2 (\<lambda>t. sample_tick [] []) 1 sample_block True s = Inr (True, s') \<and>
    CheckVotesForBlock 2 (\<lambda>t. sample_tick [] []) 1 rival_block True t = Inr (True, t') \<and>
    pa \<in> voters (\<lambda>t. sample_tick [] []) s s' sample_block True \<and> pa \<in> voters (\<lambda>t. sample_tick [] []) t t' rival_block True"
proof -
  let ?w = "\<lambda>t. sample_tick [] []"
  let ?us = "p_own_pa (a_peer (sample_app genesis []))"
  define them where "them = other_peer"
  let ?empty = "\<lambda>pa. (sample_app genesis [])\<lparr>a_peer := (a_peer (sample_app genesis []))\<lparr>p_own_pa := pa\<rparr>\<rparr>"
  define s where "s = (?empty ?us)\<lparr>a_inbox := [ballot (?empty ?us) sample_block 104 (them, True)]\<rparr>"
  define t where "t = (?empty them)\<lparr>a_inbox := [ballot (?empty them) rival_block 104 (?us, True)]\<rparr>"
  have own: "p_own_pa (a_peer s) = ?us" "p_own_pa (a_peer t) = them"
    by (simp_all add: s_def t_def)
  have inbox: "a_inbox s = [ballot s sample_block 104 (them, True)]" "a_inbox t = [ballot t rival_block 104 (?us, True)]"
    by (simp_all add: s_def t_def ballot_def chain_size_def)
  obtain s' where s': "CheckVotesForBlock 2 ?w 1 sample_block True s = Inr (True, s')" "supporters ?w s s' sample_block \<subseteq> {them}"
    using one_ballot_accepted [OF inbox(1)] by auto
  obtain t' where t': "CheckVotesForBlock 2 ?w 1 rival_block True t = Inr (True, t')" "supporters ?w t t' rival_block \<subseteq> {?us}"
    using one_ballot_accepted [OF inbox(2)] by (auto simp: rival_block_def GetHash_def)
  have differ: "?us \<noteq> them"
    by (simp add: them_def sample_app_def sample_peer_def other_peer_def init_peer_address_def)
  have "\<exists>pa \<in> {?us, them}. pa \<in> voters ?w s s' sample_block True \<and> pa \<in> voters ?w t t' rival_block True"
    by (rule accepted_blocks_share_voter [OF s'(1) t'(1)]) (use s'(2) t'(2) own differ in \<open>auto simp: voters_def\<close>)
  with s'(1) t'(1) show ?thesis
    by blast
qed

section \<open>A round of voting\<close>

text \<open>A quiet network: besides, no message arrives while the round runs.\<close>

definition quiet_net :: "nat \<Rightarrow> world \<Rightarrow> bool" where
  "quiet_net L w \<longleftrightarrow> orderly L w \<and> (\<forall>t. tk_arrivals (w t) = [])"

lemma quiet_net_idle: "quiet_net L w \<Longrightarrow> idle w"
  by (simp add: quiet_net_def orderly_def idle_def calm_def)

lemma quiet_broadcast:
  assumes "quiet_net L w" "listed (a_peer s)" "p_open (a_peer s) + length (other_peers (a_peer s)) \<le> L"
  shows "\<exists>s'. app_broadcast w data s = Inr (length (other_peers (a_peer s)), s') \<and> core s' = core s \<and> a_inbox s' = a_inbox s \<and>
    a_peer s' = (a_peer s)\<lparr>p_open := p_open (a_peer s) + length (other_peers (a_peer s))\<rparr>"
  using orderly_broadcast [OF _ assms(2,3), of w data] assms(1) by (auto simp: quiet_net_def moved_def)

text \<open>
  The peer \<open>s\<close> can hold a vote on the block with index \<open>chain_size s\<close> in which \<open>votes\<close> are cast by the others: they are as many as the
  list has peers, from different peers, more than half of all agree (with its own vote), and there is
  room for the broadcasts and fuel for the loops.
\<close>

definition electorate :: "nat \<Rightarrow> nat \<Rightarrow> world \<Rightarrow> app \<Rightarrow> (peer_address \<times> bool) list \<Rightarrow> bool" where
  "electorate L fuel w s votes \<longleftrightarrow> quiet_net L w \<and> listed (a_peer s) \<and> length (other_peers (a_peer s)) = length votes \<and>
     p_open (a_peer s) + 2 * length votes \<le> L \<and> distinct (map fst votes) \<and>
     length votes + 1 < 2 * (1 + length (filter snd votes)) \<and> a_candidates s = [] \<and> length votes + 2 \<le> fuel"

lemma ballot_same: "chain_size s' = chain_size s \<Longrightarrow> ballot s' = ballot s"
  by (simp add: ballot_def fun_eq_iff)

lemma core_chain: "core s' = core s \<Longrightarrow> a_bc s' = a_bc s \<and> a_candidates s' = a_candidates s \<and> a_next s' = a_next s \<and> chain_size s' = chain_size s"
  by (simp add: core_def chain_size_def)

text \<open>Broadcasting and counting, the steps that the proposer and the receivers have in common.\<close>

lemma vote_round:
  assumes "electorate L fuel w s votes" "length (GetHash b) = 64" "chain_size t = chain_size s"
    and "a_inbox s = map (ballot t b len) votes"
  shows "\<exists>s1 s2 k. app_broadcast w data s = Inr (length votes, s1) \<and>
    CheckVotesForBlock fuel w (length votes) b True s1 = Inr (True, s2) \<and> core s2 = core s \<and>
    a_inbox s2 = map (ballot t b len) (drop k votes) \<and>
    a_peer s2 = (a_peer s)\<lparr>p_open := p_open (a_peer s) + length votes\<rparr>"
proof -
  have w: "idle w" "\<forall>t. tk_arrivals (w t) = [] \<and> tk_lock (w t) = 0 \<and> tk_unlock (w t) = 0"
    using assms(1) by (auto simp: electorate_def idle_def calm_def dest!: quiet_net_idle)
  obtain s1 where s1: "app_broadcast w data s = Inr (length votes, s1)" "core s1 = core s" "a_inbox s1 = a_inbox s"
    "a_peer s1 = (a_peer s)\<lparr>p_open := p_open (a_peer s) + length votes\<rparr>"
    using quiet_broadcast [of L w s data] assms(1) by (auto simp: electorate_def)
  have "ballot s1 = ballot t"
    using core_chain [OF s1(2)] assms(3) by (intro ballot_same) simp
  then have inbox: "a_inbox s1 = map (ballot s1 b len) votes"
    using s1(3) assms(4) by simp
  have "length (GetHash b) < 2 ^ 64" "distinct (map fst votes)" "length votes < fuel"
    using assms(1,2) by (simp_all add: electorate_def)
  from CheckVotes_ballots [OF w(2) this(1) inbox this(2,3), of True]
  obtain s2 k where s2: "CheckVotesForBlock fuel w (length votes) b True s1 = Inr (True, s2)" "undisturbed w s1 s2"
    "a_inbox s2 = map (ballot s1 b len) (drop k votes)"
    using assms(1) by (auto simp: electorate_def simp del: CheckVotesForBlock.simps)
  with s1 w(1) \<open>ballot s1 = ballot t\<close> show ?thesis
    by (intro exI [of _ s1] exI [of _ s2] exI [of _ k]) (simp add: undisturbed_def)
qed

text \<open>With only votes left in the mailbox, handling all requests chooses the candidate at hand.\<close>

lemma votes_are_left:
  assumes "calm w" "a_inbox s = map (ballot t b len) votes" "length votes < fuel"
  shows "\<exists>s'. repeat_body fuel (requests_body fuel2 w) (ms, s) = Inr (ms @ map (ballot t b len) votes, s') \<and>
    undisturbed w s s' \<and> a_inbox s' = []"
  using assms(2,3)
proof (induction votes arbitrary: ms s fuel)
  case Nil
  then obtain fuel' where "fuel = Suc fuel'" by (cases fuel) auto
  moreover have "take_message w s = Inr (None, sync w s)" "a_inbox (sync w s) = []"
    using assms(1) Nil by (simp_all add: take_message_def calm_def Lock_def Unlock_def Let_def)
  moreover have "undisturbed w s (sync w s)"
    by (simp add: undisturbed_def idle_def)
  ultimately show ?case
    by (simp add: requests_body_def)
next
  case (Cons v votes)
  obtain fuel' where fuel: "fuel = Suc fuel'" using Cons.prems(2) by (cases fuel) auto
  let ?s = "(sync w s)\<lparr>a_inbox := map (ballot t b len) votes\<rparr>"
  obtain pa agree where v: "v = (pa, agree)" by (cases v)
  have "read_bmh (fst (ballot t b len v)) = Some \<lparr>bmh_type = blockchain_type_code VOTE, bmh_peer_address = pa, bmh_index = chain_size t\<rparr>"
    by (simp add: v ballot_def vote_bytes_def del: blockchain_type_code.simps)
  then have "requests_body fuel2 w (ms, s) = Inr (Inr (ms @ [ballot t b len v], ?s))"
    using calm_take [OF assms(1)] Cons.prems(1) by (simp add: requests_body_def)
  moreover obtain s' where "repeat_body fuel' (requests_body fuel2 w) (ms @ [ballot t b len v], ?s) =
      Inr ((ms @ [ballot t b len v]) @ map (ballot t b len) votes, s')" "undisturbed w s s'" "a_inbox s' = []"
    using undisturbed_trans [OF undisturbed_sync [of w s "map (ballot t b len) votes"]] Cons.IH [of ?s fuel' "ms @ [ballot t b len v]"] Cons.prems(2) fuel by auto
  ultimately show ?case
    by (simp add: fuel)
qed

lemma candidate_is_added:
  assumes "calm w" "repeat_body fuel (requests_body fuel w) ([], s) = Inr (ms, s1)" "a_candidates s1 = [(i, b)]"
    "next_block (a_bc s1) b"
  shows "\<exists>s2 s3. HandleAllBlockAdditionRequests fuel w s = Inr (Some (i, b), s2) \<and> add_best (Some (i, b)) s2 = Inr s3 \<and>
    a_bc s3 = a_bc s1 @ [b] \<and> a_transactions s3 = a_transactions s1 \<and> a_candidates s3 = [] \<and> a_inbox s3 = a_inbox s1 @ ms \<and>
    (idle w \<longrightarrow> a_peer s3 = a_peer s1)"
proof -
  obtain s2 where s2: "place_back w ms (s1\<lparr>a_candidates := []\<rparr>) = Inr s2" "undisturbed w (s1\<lparr>a_candidates := []\<rparr>) s2"
    "a_inbox s2 = a_inbox s1 @ ms"
    using calm_place_back [OF assms(1), of ms "s1\<lparr>a_candidates := []\<rparr>"] by auto
  then have "a_bc s2 = a_bc s1"
    by (simp add: undisturbed_def core_def)
  with assms(4) have "add_best (Some (i, b)) s2 = Inr (s2\<lparr>a_bc := a_bc s1 @ [b]\<rparr>)"
    by (simp add: add_best_def add_block_def add_next_block)
  moreover have "HandleAllBlockAdditionRequests fuel w s = Inr (Some (i, b), s2)"
    using assms(2,3) s2(1) by (simp add: HandleAllBlockAdditionRequests_def)
  ultimately show ?thesis
    using s2(2,3) by (simp add: undisturbed_def core_def)
qed

text \<open>The request with which the peer \<open>s\<close> proposes the block.\<close>

definition proposal :: "app \<Rightarrow> b_type \<Rightarrow> bytes \<Rightarrow> bytes" where
  "proposal s b key = request_bytes \<lparr>bar_bmh = \<lparr>bmh_type = blockchain_type_code ADDREQUEST,
     bmh_peer_address = p_own_pa (a_peer s), bmh_index = chain_size s\<rparr>, bar_pow_size = of_nat (length key)\<rparr> @ key @ DataFromBlock b"

lemma proposer_round:
  assumes peek: "SneakPeekBlock SHA256FromDataAndHash data raw_block (a_bc s) = Some b"
    and solved: "SolveProblem DIFFICULTY (SHA256FromBlock b) = Some (Inr key)"
    and b: "next_block (a_bc s) b" "length (GetHash b) = 64"
    and voting: "electorate L fuel w s votes" "a_inbox s = map (ballot s b len) votes"
  shows "\<exists>s1 s2 s3. AddBlockToBlockchain fuel w data s = Inr (Some (a_next s, b), s1) \<and>
    HandleAllBlockAdditionRequests fuel w s1 = Inr (Some (a_next s, b), s2) \<and>
    add_best (Some (a_next s, b)) s2 = Inr s3 \<and> a_bc s3 = a_bc s @ [b] \<and> a_transactions s3 = a_transactions s \<and> a_candidates s3 = [] \<and>
    a_peer s3 = (a_peer s)\<lparr>p_open := p_open (a_peer s) + 2 * length votes\<rparr> \<and>
    (\<exists>k. a_inbox s3 = map (ballot s b len) (drop k votes))"
proof -
  let ?s = "s\<lparr>a_next := a_next s + 1\<rparr>"
  have size: "chain_size ?s = chain_size s"
    by (simp add: chain_size_def)
  have voting': "electorate L fuel w ?s votes"
    using voting(1) by (simp add: electorate_def)
  have idle: "idle w"
    using voting(1) by (auto simp: electorate_def dest: quiet_net_idle)
  then have calm: "calm w"
    by (simp add: idle_def)
  from vote_round [OF voting' b(2) size [symmetric], of len "proposal s b key"] voting(2)
  obtain s1 s2 k where run: "app_broadcast w (proposal s b key) ?s = Inr (length votes, s1)"
    "CheckVotesForBlock fuel w (length votes) b True s1 = Inr (True, s2)" "core s2 = core ?s"
    "a_inbox s2 = map (ballot s b len) (drop k votes)" "a_peer s2 = (a_peer s)\<lparr>p_open := p_open (a_peer s) + length votes\<rparr>"
    by auto
  obtain s3 where s3: "app_broadcast w (vote_payload s (chain_size s) True b) s2 = Inr (length votes, s3)" "core s3 = core s2"
    "a_inbox s3 = a_inbox s2" "a_peer s3 = (a_peer s)\<lparr>p_open := p_open (a_peer s) + 2 * length votes\<rparr>"
    using quiet_broadcast [of L w s2 "vote_payload s (chain_size s) True b"] run(5) voting(1) by (auto simp: electorate_def)
  let ?t = "s3\<lparr>a_candidates := a_candidates s3 @ [(a_next s, b)]\<rparr>"
  have add: "AddBlockToBlockchain fuel w data s = Inr (Some (a_next s, b), ?t)"
    using peek solved run(1,2) s3(1) size
    by (simp add: AddBlockToBlockchain_def solve_eq_Inr [symmetric] Let_def proposal_def vote_payload_def del: CheckVotesForBlock.simps)
  have same: "a_bc ?t = a_bc s" "a_candidates ?t = [(a_next s, b)]"
    using core_chain [OF run(3)] core_chain [OF s3(2)] voting(1) by (simp_all add: electorate_def)
  have inbox: "a_inbox ?t = map (ballot s b len) (drop k votes)" "length (drop k votes) < fuel"
    using s3(3) run(4) voting(1) by (auto simp: electorate_def)
  obtain s4 where s4: "repeat_body fuel (requests_body fuel w) ([], ?t) = Inr (map (ballot s b len) (drop k votes), s4)"
    "undisturbed w ?t s4" "a_inbox s4 = []"
    using votes_are_left [OF calm inbox, of fuel "[]"] by auto
  have after: "a_candidates s4 = [(a_next s, b)]" "a_bc s4 = a_bc s" "a_transactions s4 = a_transactions s" "a_peer s4 = a_peer s3"
    using s4(2) same idle run(3) s3(2) by (simp_all add: undisturbed_def core_def)
  from candidate_is_added [OF calm s4(1) after(1)] b(1) after(2) obtain s5 s6 where
    "HandleAllBlockAdditionRequests fuel w ?t = Inr (Some (a_next s, b), s5)" "add_best (Some (a_next s, b)) s5 = Inr s6"
    "a_bc s6 = a_bc s4 @ [b]" "a_transactions s6 = a_transactions s4" "a_candidates s6 = []"
    "a_inbox s6 = a_inbox s4 @ map (ballot s b len) (drop k votes)" "idle w \<longrightarrow> a_peer s6 = a_peer s4"
    by auto
  with add after s4(3) s3(4) idle show ?thesis
    by auto
qed

lemma receiver_round:
  assumes chain: "a_bc t = a_bc s"
    and b: "next_block (a_bc s) b" "length (GetHash b) = 64" "length (GetPrevHash b) = 64"
    and key: "length key \<le> 16" "CheckSolution DIFFICULTY (SHA256FromBlock b) key = Some True"
    and voting: "electorate L fuel w t votes" "a_inbox t = (proposal s b key, len') # map (ballot t b len) votes"
  shows "\<exists>t2 t3. HandleAllBlockAdditionRequests fuel w t = Inr (Some (a_next t, b), t2) \<and>
    add_best (Some (a_next t, b)) t2 = Inr t3 \<and> a_bc t3 = a_bc s @ [b]"
proof -
  have size: "chain_size t = chain_size s"
    using chain by (simp add: chain_size_def)
  have calm: "calm w" "idle w"
    using voting(1) by (auto simp: electorate_def idle_def dest!: quiet_net_idle)
  define r where "r = \<lparr>bar_bmh = \<lparr>bmh_type = blockchain_type_code ADDREQUEST,
     bmh_peer_address = p_own_pa (a_peer s), bmh_index = chain_size s\<rparr>, bar_pow_size = of_nat (length key)\<rparr>"
  have msg: "read_bmh (proposal s b key) = Some (bar_bmh r)" "read_request (proposal s b key) = Some r"
    "BlockFromData (drop (32 + unat (bar_pow_size r)) (proposal s b key)) = Some b"
    "read_bytes (proposal s b key) 32 (unat (bar_pow_size r)) = Some key"
    by (rule request_parts [where r = r and key = key and b = b and rest = "[]"];
        use b key(1) in \<open>simp add: r_def proposal_def next_block_def\<close>)+
  let ?t = "(sync w t)\<lparr>a_inbox := map (ballot t b len) votes\<rparr>"
  let ?u = "?t\<lparr>a_next := a_next t + 1\<rparr>"
  have take: "take_message w t = Inr (Some (proposal s b key, len'), ?t)"
    using calm_take [OF calm(1) voting(2)] .
  have peer: "a_peer ?u = a_peer t"
    using calm(2) by (simp add: idle_def)
  have check: "check_request r b key ?u = Inr True"
    using b(1) key(2) chain by (simp add: check_request_def next_block_def r_def chain_size_def)
  have voting': "electorate L fuel w ?u votes"
    using voting(1) peer by (simp add: electorate_def)
  have chain_u: "chain_size ?u = chain_size t" "chain_size ?t = chain_size s"
    using chain by (simp_all add: chain_size_def)
  from vote_round [OF voting' b(2) chain_u(1) [symmetric], of len "vote_payload ?u (chain_size s) True b"]
  obtain s1 s2 k where run: "app_broadcast w (vote_payload ?u (chain_size s) True b) ?u = Inr (length votes, s1)"
    "CheckVotesForBlock fuel w (length votes) b True s1 = Inr (True, s2)" "core s2 = core ?u"
    "a_inbox s2 = map (ballot t b len) (drop k votes)"
    by auto
  let ?v = "s2\<lparr>a_candidates := a_candidates s2 @ [(a_next t, b)]\<rparr>"
  have handled: "HandleBlockAdditionRequest fuel w (proposal s b key, len') True ?t = Inr (True, ?v)"
    using msg check run(1,2) chain_u
    by (simp add: HandleBlockAdditionRequest_def handle_addition_request_def Let_def vote_payload_def r_def
        del: CheckVotesForBlock.simps blockchain_type_code.simps)
  have body: "requests_body fuel w ([], t) = Inr (Inr ([], ?v))"
    using take msg(1) handled chain_u(2) by (simp add: requests_body_def r_def)
  have same: "a_bc ?v = a_bc s" "a_candidates ?v = [(a_next t, b)]"
    using core_chain [OF run(3)] voting(1) chain by (simp_all add: electorate_def)
  obtain fuel' where fuel: "fuel = Suc fuel'" "length (drop k votes) < fuel'"
    using voting(1) by (cases fuel) (auto simp: electorate_def)
  have inbox: "a_inbox ?v = map (ballot t b len) (drop k votes)"
    using run(4) by simp
  obtain s4 ms where s4: "repeat_body fuel' (requests_body fuel w) ([], ?v) = Inr (ms, s4)" "core s4 = core ?v"
    using votes_are_left [OF calm(1) inbox fuel(2), of fuel "[]"] by (auto simp: undisturbed_def)
  have loop: "repeat_body fuel (requests_body fuel w) ([], t) = Inr (ms, s4)"
    using body s4(1) by (simp add: fuel(1))
  have "a_candidates s4 = [(a_next t, b)]" "a_bc s4 = a_bc s"
    using core_chain [OF s4(2)] same by simp_all
  with candidate_is_added [OF calm(1) loop] b(1) show ?thesis
    by auto
qed

text \<open>
  C6: In a quiet network, with the votes of all others in the mailboxes and a majority among them, a round of the protocol
  ends in agreement. The proposer's calls of \<^verbatim>\<open>AddBlockToBlockchain\<close> and \<^verbatim>\<open>HandleAllBlockAdditionRequests\<close> and the addition of the best
  candidate extend its chain by the block it proposed; and (unless the search for a proof of work gave up) every receiver of
  the proposal that has the same chain, whatever votes make up its majority, comes to the same chain.
\<close>

theorem proposal_round_agreement:
  assumes "chain_valid SHA256FromDataAndHash default_T (a_bc s)" "length data = sizeof_T"
    "SneakPeekBlock SHA256FromDataAndHash data raw_block (a_bc s) = Some b"
    "SolveProblem DIFFICULTY (SHA256FromBlock b) = Some (Inr key)"
    "electorate L fuel w s votes" "a_inbox s = map (ballot s b len) votes"
  shows "(\<exists>s1 s2 s3. AddBlockToBlockchain fuel w data s = Inr (Some (a_next s, b), s1) \<and>
      HandleAllBlockAdditionRequests fuel w s1 = Inr (Some (a_next s, b), s2) \<and>
      add_best (Some (a_next s, b)) s2 = Inr s3 \<and> a_bc s3 = a_bc s @ [b]) \<and>
    (next_key key = None \<or>
     (\<forall>L2 fuel2 w2 t votes2 len1 len2. a_bc t = a_bc s \<longrightarrow> electorate L2 fuel2 w2 t votes2 \<longrightarrow>
        a_inbox t = (proposal s b key, len1) # map (ballot t b len2) votes2 \<longrightarrow>
        (\<exists>t2 t3. HandleAllBlockAdditionRequests fuel2 w2 t = Inr (Some (a_next t, b), t2) \<and>
           add_best (Some (a_next t, b)) t2 = Inr t3 \<and> a_bc t3 = a_bc s @ [b])))"
proof -
  note b = SneakPeek_next [OF assms(3,1,2)]
  have "length key \<le> 16" "CheckSolution DIFFICULTY (SHA256FromBlock b) key = Some True \<or> next_key key = None"
    using solve_loop_result [of "SHA256FromBlock b" "[0]" DIFFICULTY] assms(4) by (auto simp: SolveProblem_def SHA256FromBlock_def)
  with proposer_round [OF assms(3,4) b(1,2) assms(5,6)] receiver_round [OF _ b(1,2,3)] show ?thesis
    by blast
qed

definition quiet_tick :: tick where
  "quiet_tick = (sample_tick [] [])\<lparr>tk_peer := \<lambda>p. p\<rparr>"

definition listing_app :: "message list \<Rightarrow> app" where
  "listing_app inbox = (sample_app genesis inbox)\<lparr>a_peer := (sample_peer [])\<lparr>p_open := 2, p_network_info := Some [other_peer],
     p_n_peers := 1\<rparr>\<rparr>"

lemma listing_electorate: "electorate 1024 3 (\<lambda>t. quiet_tick) (listing_app inbox) [(other_peer, True)]"
  by (simp add: electorate_def quiet_net_def orderly_def quiet_tick_def listing_app_def listed_def other_peers_def)

theorem proposal_round_agreement_witness:
  "\<exists>key (s3 :: app). SolveProblem DIFFICULTY (SHA256FromBlock sample_block) = Some (Inr key) \<and> a_bc s3 = genesis @ [sample_block] \<and>
    (next_key key = None \<or>
     (\<exists>t2 t3. HandleAllBlockAdditionRequests 3 (\<lambda>t. quiet_tick)
         (listing_app [(proposal (listing_app []) sample_block key, 1809), ballot (listing_app []) sample_block 104 (other_peer, True)]) =
           Inr (Some (0, sample_block), t2) \<and>
        add_best (Some (0, sample_block)) t2 = Inr t3 \<and> a_bc t3 = a_bc s3))"
proof -
  obtain key where key: "SolveProblem DIFFICULTY (SHA256FromBlock sample_block) = Some (Inr key)"
    using solve_loop_result [of "SHA256FromBlock sample_block" "[0]" DIFFICULTY] by (auto simp: SolveProblem_def SHA256FromBlock_def)
  let ?vote = "ballot (listing_app []) sample_block 104 (other_peer, True)"
  let ?s = "listing_app [?vote]" and ?t = "listing_app [(proposal (listing_app []) sample_block key, 1809), ?vote]"
  have same: "ballot ?s = ballot (listing_app [])" "ballot ?t = ballot (listing_app [])"
    "proposal ?s = proposal (listing_app [])"
    by (simp_all add: ballot_def proposal_def listing_app_def chain_size_def fun_eq_iff)
  have peek: "SneakPeekBlock SHA256FromDataAndHash default_T raw_block (a_bc ?s) = Some sample_block"
    by (simp add: listing_app_def genesis_eq SneakPeekBlock_def vector_back_def sample_block_def Block_eq GetHash_def Let_def)
  have inbox: "a_inbox ?s = map (ballot ?s sample_block 104) [(other_peer, True)]"
    "a_inbox ?t = (proposal ?s sample_block key, 1809) # map (ballot ?t sample_block 104) [(other_peer, True)]"
    by (simp_all add: same) (simp_all add: listing_app_def)
  have chain: "a_bc ?s = genesis" "a_bc ?t = a_bc ?s" "a_next ?t = 0" "length default_T = sizeof_T"
    by (simp_all add: listing_app_def default_T_def)
  have valid: "chain_valid SHA256FromDataAndHash default_T (a_bc ?s)"
    by (simp add: chain)
  note round = proposal_round_agreement [OF valid chain(4) peek key listing_electorate inbox(1)]
  from round obtain s3 :: app where s3: "a_bc s3 = a_bc ?s @ [sample_block]"
    by blast
  from conjunct2 [OF round] have "next_key key = None \<or>
    (\<exists>t2 t3. HandleAllBlockAdditionRequests 3 (\<lambda>t. quiet_tick) ?t = Inr (Some (a_next ?t, sample_block), t2) \<and>
       add_best (Some (a_next ?t, sample_block)) t2 = Inr t3 \<and> a_bc t3 = a_bc ?s @ [sample_block])"
  proof (elim disj_forward)
    assume all: "\<forall>L2 fuel2 w2 t votes2 len1 len2. a_bc t = a_bc ?s \<longrightarrow> electorate L2 fuel2 w2 t votes2 \<longrightarrow>
        a_inbox t = (proposal ?s sample_block key, len1) # map (ballot t sample_block len2) votes2 \<longrightarrow>
        (\<exists>t2 t3. HandleAllBlockAdditionRequests fuel2 w2 t = Inr (Some (a_next t, sample_block), t2) \<and>
           add_best (Some (a_next t, sample_block)) t2 = Inr t3 \<and> a_bc t3 = a_bc ?s @ [sample_block])"
    show "\<exists>t2 t3. HandleAllBlockAdditionRequests 3 (\<lambda>t. quiet_tick) ?t = Inr (Some (a_next ?t, sample_block), t2) \<and>
       add_best (Some (a_next ?t, sample_block)) t2 = Inr t3 \<and> a_bc t3 = a_bc ?s @ [sample_block]"
      by (rule all [rule_format, OF chain(2) listing_electorate inbox(2)])
  qed
  with key s3 chain(1,3) show ?thesis
    by (intro exI [of _ key] exI [of _ s3]) simp
qed

end
