(* ===== verification/LonePeer.thy ===== *)
theory LonePeer
  imports Consensus
begin

text \<open>
  The main loop of a peer that is online and knows of no others, \<^verbatim>\<open>Run\<close> of \<^verbatim>\<open>application/application.cc\<close>: it accepts its own
  proposals, so every iteration puts one transaction on the chain.
\<close>

text \<open>The state is as it was, and the mailbox is empty.\<close>

definition still :: "app \<Rightarrow> app \<Rightarrow> bool" where
  "still s s' \<longleftrightarrow> core s' = core s \<and> a_peer s' = a_peer s \<and> a_inbox s' = []"

definition alone :: "nat \<Rightarrow> app \<Rightarrow> bool" where
  "alone L s \<longleftrightarrow> listed (a_peer s) \<and> other_peers (a_peer s) = [] \<and> p_open (a_peer s) \<le> L \<and> p_is_online (a_peer s) \<and>
     \<not> p_was_offline (a_peer s) \<and> a_inbox s = []"

lemma still_trans: "still s s' \<Longrightarrow> still s' s'' \<Longrightarrow> still s s''"
  by (simp add: still_def)

lemma still_alone: "still s s' \<Longrightarrow> alone L s \<Longrightarrow> alone L s'"
  by (simp add: still_def alone_def)

lemma still_inv: "still s s' \<Longrightarrow> app_inv s \<Longrightarrow> app_inv s'"
  using app_inv_core by (simp add: still_def)

lemma moved_still: "moved k 0 s s' \<Longrightarrow> a_inbox s' = [] \<Longrightarrow> still s s'"
  by (simp add: moved_def still_def)

lemma quiet_log: "quiet_net L w \<Longrightarrow> a_inbox s = [] \<Longrightarrow> still s (log_entry w e s)"
  using orderly_log [of L w s e] by (auto simp: quiet_net_def intro!: moved_still)

lemma alone_catches_up:
  assumes "quiet_net L w" "alone L s" "0 < fuel"
  shows "\<exists>s'. RequestBlockchain fuel w s = Inr s' \<and> still s s'"
proof -
  obtain fuel' where fuel: "fuel = Suc fuel'"
    using assms(3) by (cases fuel) auto
  let ?s1 = "log_entry w (LogRequestBlock (Size (a_bc s))) s"
  have s1: "still s ?s1"
    using assms(1,2) by (intro quiet_log) (simp_all add: alone_def)
  note alone1 = still_alone [OF this assms(2)]
  obtain s2 where s2: "app_broadcast w (bmh_bytes \<lparr>bmh_type = blockchain_type_code REQUESTBLOCK,
      bmh_peer_address = p_own_pa (a_peer ?s1), bmh_index = chain_size ?s1\<rparr>) ?s1 = Inr (0, s2)" "still ?s1 s2"
    using quiet_broadcast [OF assms(1), of ?s1] alone1 by (fastforce simp: alone_def still_def)
  let ?s3 = "log_entry w (LogReceivedBlock (Size (a_bc s)) True) s2"
  have "still s2 ?s3"
    using assms(1) s2(2) by (intro quiet_log) (simp_all add: still_def)
  moreover have "RequestBlockchain fuel w s = Inr ?s3"
    using s2(1) by (simp add: fuel RequestBlockchain_def request_chain_def request_again_def RequestBlockchainBlock_def Let_def)
  ultimately show ?thesis
    using still_trans [OF still_trans [OF s1 s2(2)]] by blast
qed

lemma alone_processes:
  assumes w: "quiet_net L w" "2 \<le> fuel" and s: "alone L s" "app_inv s" "a_transactions s = ts # rest"
  shows "\<exists>s'. process_transaction fuel w s = Inr s' \<and> alone L s' \<and> app_inv s' \<and> a_transactions s' = rest \<and>
    map GetData (a_bc s') = map GetData (a_bc s) @ [ts]"
proof -
  define s0 where "s0 = log_entry w (LogBlockAddedStart (Size (a_bc s))) s"
  have s0: "still s s0"
    unfolding s0_def using w(1) s(1) by (intro quiet_log) (simp_all add: alone_def)
  obtain s1 where s1: "RequestBlockchain fuel w s0 = Inr s1" "still s0 s1"
    using alone_catches_up [OF w(1) still_alone [OF s0 s(1)], of fuel] w(2) by auto
  have still: "still s s1"
    using s0 s1(2) by (rule still_trans)
  note alone = still_alone [OF still s(1)] and inv = still_inv [OF still s(2)]
  have same: "a_bc s1 = a_bc s" "a_transactions s1 = ts # rest" "hd (a_transactions s0) = ts"
    using still s0 s(3) by (simp_all add: still_def core_def)
  have ts: "length ts = sizeof_T"
    using s(2,3) by (simp add: app_inv_def)
  have valid: "chain_valid SHA256FromDataAndHash default_T (a_bc s1)" "a_candidates s1 = []"
    using inv by (simp_all add: app_inv_def)
  then obtain b where b: "SneakPeekBlock SHA256FromDataAndHash ts raw_block (a_bc s1) = Some b"
    by (auto simp: SneakPeekBlock_def vector_back_def chain_valid_def Let_def)
  obtain key where key: "SolveProblem DIFFICULTY (SHA256FromBlock b) = Some (Inr key)"
    using solve_loop_result [of "SHA256FromBlock b" "[0]" DIFFICULTY] by (auto simp: SolveProblem_def SHA256FromBlock_def)
  have voting: "electorate L fuel w s1 []" "a_inbox s1 = map (ballot s1 b 0) []"
    using w alone valid(2) by (simp_all add: electorate_def alone_def)
  note next_b = SneakPeek_next [OF b valid(1) ts]
  from proposer_round [OF b key next_b(1,2) voting] obtain s2 s3 s4 where
    run: "AddBlockToBlockchain fuel w ts s1 = Inr (Some (a_next s1, b), s2)"
      "HandleAllBlockAdditionRequests fuel w s2 = Inr (Some (a_next s1, b), s3)" "add_best (Some (a_next s1, b)) s3 = Inr s4"
      "a_bc s4 = a_bc s1 @ [b]" "a_transactions s4 = a_transactions s1" "a_candidates s4 = []"
      "a_peer s4 = a_peer s1" "a_inbox s4 = []"
    by auto
  let ?s5 = "s4\<lparr>a_transactions := rest\<rparr>"
  let ?s' = "log_entry w (LogBlockAddedStop (Size (a_bc s)) True) ?s5"
  have final: "still ?s5 ?s'"
    using w(1) run(8) by (intro quiet_log) simp_all
  have "process_transaction fuel w s = Inr ?s'"
    using run(1-3) s1(1) same run(5) by (simp add: process_transaction_def Let_def s0_def [symmetric] add_best_def)
  moreover have "alone L ?s5"
    using alone run(7,8) by (simp add: alone_def)
  moreover have "app_inv ?s5"
    using follows_valid [of "a_bc s1" "[b]"] next_b inv run(4,6) same(2)
    by (auto simp: app_inv_def next_block_def GetData_def)
  moreover have "map GetData (a_bc ?s') = map GetData (a_bc s) @ [ts]" "a_transactions ?s' = rest"
    using final run(4) same(1) next_b(4) by (simp_all add: still_def core_def)
  ultimately show ?thesis
    using still_alone [OF final] still_inv [OF final] by blast
qed

lemma alone_iterates:
  assumes w: "quiet_net L w" "2 \<le> fuel" and s: "alone L s" "app_inv s" "a_transactions s = ts # rest"
  shows "\<exists>s'. Run_iteration fuel w s = Inr s' \<and> alone L s' \<and> app_inv s' \<and> a_transactions s' = rest \<and>
    map GetData (a_bc s') = map GetData (a_bc s) @ [ts]"
proof -
  have quiet: "\<And>t p. tk_peer (w t) p = p" "\<And>t. tk_arrivals (w t) = []" "\<And>t. tk_lock (w t) = 0" "\<And>t. tk_unlock (w t) = 0"
    using w(1) by (simp_all add: quiet_net_def orderly_def)
  let ?s1 = "sync w s" and ?s2 = "sync w (sync w s)" and ?s3 = "sync w (sync w (sync w s))"
  have still: "still s ?s3"
    using s(1) quiet by (simp add: still_def alone_def)
  have "p_is_online (a_peer ?s1)" "should_refresh (a_peer ?s2) = (False, a_peer ?s2)"
    using s(1) quiet(1) by (simp_all add: alone_def should_refresh_def)
  moreover have "take_message w ?s2 = Inr (None, ?s3)"
    using s(1) quiet by (simp add: take_message_def alone_def Lock_def Unlock_def Let_def)
  moreover have "?s2\<lparr>a_peer := a_peer ?s2\<rparr> = ?s2" "a_transactions ?s3 \<noteq> []"
    using s(3) by simp_all
  ultimately have "Run_iteration fuel w s = process_transaction fuel w ?s3"
    by (simp add: Run_iteration_def Let_def del: sync_simps)
  moreover have "a_transactions ?s3 = ts # rest" "a_bc ?s3 = a_bc s"
    using s(3) by simp_all
  ultimately show ?thesis
    using alone_processes [OF w still_alone [OF still s(1)] still_inv [OF still s(2)]] by metis
qed

text \<open>
  C8: A peer that is alone makes progress. If it is online, its list names no other peer and nothing disturbs it, then as many
  iterations of \<^verbatim>\<open>Run\<close> as it has transactions put all of them on the chain, in order and with nothing in between, and
  leave none; two units of fuel per iteration are enough.
\<close>

theorem lone_peer_commits_all:
  assumes "app_inv s" "alone L s" "length rounds = length (a_transactions s)" "\<forall>(fuel, w) \<in> set rounds. quiet_net L w \<and> 2 \<le> fuel"
  shows "\<exists>s'. Run rounds s = Inr s' \<and> a_transactions s' = [] \<and>
    map GetData (a_bc s') = map GetData (a_bc s) @ a_transactions s"
  using assms
proof (induction rounds arbitrary: s)
  case Nil
  then show ?case
    by (simp add: Run_def)
next
  case (Cons round rounds)
  obtain fuel w where r: "round = (fuel, w)" "quiet_net L w" "2 \<le> fuel"
    using Cons.prems(4) by (cases round) auto
  obtain ts rest where ts: "a_transactions s = ts # rest"
    using Cons.prems(3) by (cases "a_transactions s") auto
  obtain s1 where s1: "Run_iteration fuel w s = Inr s1" "alone L s1" "app_inv s1" "a_transactions s1 = rest"
    "map GetData (a_bc s1) = map GetData (a_bc s) @ [ts]"
    using alone_iterates [OF r(2,3) Cons.prems(2,1) ts] by blast
  have "\<exists>s'. Run rounds s1 = Inr s' \<and> a_transactions s' = [] \<and> map GetData (a_bc s') = map GetData (a_bc s1) @ a_transactions s1"
    by (rule Cons.IH [OF s1(3,2)]) (use Cons.prems(3,4) s1(4) ts in auto)
  with s1 r(1) ts show ?case
    by (auto simp: Run_def)
qed

theorem lone_peer_commits_all_witness:
  "\<exists>s'. Run [(2, \<lambda>t. quiet_tick), (3, \<lambda>t. quiet_tick)]
      ((sample_app genesis [])\<lparr>a_peer := (sample_peer [])\<lparr>p_open := 2, p_is_online := True, p_was_offline := False\<rparr>,
        a_transactions := [default_T, replicate sizeof_T 7]\<rparr>) = Inr s' \<and>
    a_transactions s' = [] \<and> map GetData (a_bc s') = [default_T, default_T, replicate sizeof_T 7]"
proof -
  let ?s = "(sample_app genesis [])\<lparr>a_peer := (sample_peer [])\<lparr>p_open := 2, p_is_online := True, p_was_offline := False\<rparr>,
    a_transactions := [default_T, replicate sizeof_T 7]\<rparr>"
  have "app_inv ?s"
    by (simp add: app_inv_def) (simp add: genesis_eq default_T_def)
  moreover have "alone 1024 ?s"
    by (simp add: alone_def listed_def other_peers_def sample_peer_def)
  moreover have "quiet_net 1024 (\<lambda>t. quiet_tick)"
    by (simp add: quiet_net_def orderly_def quiet_tick_def)
  ultimately show ?thesis
    using lone_peer_commits_all [of ?s 1024 "[(2, \<lambda>t. quiet_tick), (3, \<lambda>t. quiet_tick)]"] by (simp add: genesis_eq GetData_def)
qed

end
