(* ===== verification/SqliteInteger.thy ===== *)
theory SqliteInteger
  imports Prelude Loops "HOL-Library.Signed_Division"
begin

text \<open>
  The integer routines of the SQLite library that the repository ships, \<^verbatim>\<open>application/sqlite3/sqlite3.c\<close>: the
  variable-length integers of the database file, with the unrolled decoder shown equal to a plain one, and the
  64-bit arithmetic with overflow detection. They are pure functions; the rest of the library is not modelled.
\<close>

section \<open>Variable-length integers\<close>

text \<open>Reading past the end of the buffer is undefined.\<close>

definition byte_at :: "bytes \<Rightarrow> nat \<Rightarrow> u8 option" where
  "byte_at p k = (if k < length p then Some (p ! k) else None)"

text \<open>
  The two loops of \<^verbatim>\<open>putVarint64\<close>: eight groups of seven bits from the top of a value of at least 57 bits, and the groups of a smaller
  value into \<^verbatim>\<open>buf\<close>, lowest first.
\<close>

fun put_groups :: "nat \<Rightarrow> u64 \<Rightarrow> bytes \<Rightarrow> bytes" where
  "put_groups 0 v p = p"
| "put_groups (Suc i) v p = put_groups i (drop_bit 7 v) (ucast ((v AND 0x7f) OR 0x80) # p)"

lemma drop_7_less: "drop_bit 7 v \<noteq> 0 \<Longrightarrow> unat (drop_bit 7 v) < unat (v :: u64)"
proof -
  assume "drop_bit 7 v \<noteq> 0"
  then have "0 < unat v"
    by (cases "v = 0") (auto simp: unat_gt_0)
  moreover have "unat (drop_bit 7 v) = unat v div 128"
    unfolding unat_drop_bit_eq by (simp add: drop_bit_eq_div)
  ultimately show ?thesis by simp
qed

function buf_groups :: "u64 \<Rightarrow> bytes" where
  "buf_groups v = (let b = ucast ((v AND 0x7f) OR 0x80); v = drop_bit 7 v in if v \<noteq> 0 then b # buf_groups v else [b])"
  by auto
termination
  by (relation "measure unat") (auto intro: drop_7_less)

declare buf_groups.simps [simp del]

definition putVarint64 :: "u64 \<Rightarrow> bytes" where
  "putVarint64 v =
     (if v AND push_bit 32 0xff000000 \<noteq> 0 then put_groups 8 (drop_bit 8 v) [ucast v]
      else let buf = buf_groups v; buf = buf[0 := buf ! 0 AND 0x7f] in rev buf)"

definition sqlite3PutVarint :: "u64 \<Rightarrow> bytes" where
  "sqlite3PutVarint v =
     (if v \<le> 0x7f then [ucast (v AND 0x7f)]
      else if v \<le> 0x3fff then [ucast ((drop_bit 7 v AND 0x7f) OR 0x80), ucast (v AND 0x7f)]
      else putVarint64 v)"

definition SLOT_2_0 :: u32 where
  "SLOT_2_0 = 0x001fc07f"

definition SLOT_4_2_0 :: u32 where
  "SLOT_4_2_0 = 0xf01fc07f"

text \<open>The result is the number of bytes read and the value.\<close>

definition sqlite3GetVarint :: "bytes \<Rightarrow> (nat \<times> u64) option" where
  "sqlite3GetVarint p =
     Option.bind (byte_at p 0) (\<lambda>p0.
     if 0 \<le> sint p0 then Some (1, ucast p0) else
     Option.bind (byte_at p 1) (\<lambda>p1.
     if 0 \<le> sint p1 then Some (2, ucast (push_bit 7 (ucast (p0 AND 0x7f) :: u32) OR ucast p1)) else
     let a = push_bit 14 (ucast p0 :: u32); b = ucast p1 :: u32 in
     Option.bind (byte_at p 2) (\<lambda>p2.
     let a = a OR ucast p2 in
     if a AND 0x80 = 0 then
       (let a = a AND SLOT_2_0; b = b AND 0x7f; b = push_bit 7 b; a = a OR b in Some (3, ucast a))
     else let a = a AND SLOT_2_0 in
     Option.bind (byte_at p 3) (\<lambda>p3.
     let b = push_bit 14 b; b = b OR ucast p3 in
     if b AND 0x80 = 0 then
       (let b = b AND SLOT_2_0; a = push_bit 7 a; a = a OR b in Some (4, ucast a))
     else let b = b AND SLOT_2_0; s = a in
     Option.bind (byte_at p 4) (\<lambda>p4.
     let a = push_bit 14 a; a = a OR ucast p4 in
     if a AND 0x80 = 0 then
       (let b = push_bit 7 b; a = a OR b; s = drop_bit 18 s in Some (5, push_bit 32 (ucast s) OR ucast a))
     else let s = push_bit 7 s; s = s OR b in
     Option.bind (byte_at p 5) (\<lambda>p5.
     let b = push_bit 14 b; b = b OR ucast p5 in
     if b AND 0x80 = 0 then
       (let a = a AND SLOT_2_0; a = push_bit 7 a; a = a OR b; s = drop_bit 18 s in Some (6, push_bit 32 (ucast s) OR ucast a))
     else
     Option.bind (byte_at p 6) (\<lambda>p6.
     let a = push_bit 14 a; a = a OR ucast p6 in
     if a AND 0x80 = 0 then
       (let a = a AND SLOT_4_2_0; b = b AND SLOT_2_0; b = push_bit 7 b; a = a OR b; s = drop_bit 11 s
        in Some (7, push_bit 32 (ucast s) OR ucast a))
     else let a = a AND SLOT_2_0 in
     Option.bind (byte_at p 7) (\<lambda>p7.
     let b = push_bit 14 b; b = b OR ucast p7 in
     if b AND 0x80 = 0 then
       (let b = b AND SLOT_4_2_0; a = push_bit 7 a; a = a OR b; s = drop_bit 4 s in Some (8, push_bit 32 (ucast s) OR ucast a))
     else
     Option.bind (byte_at p 8) (\<lambda>p8.
     let a = push_bit 15 a; a = a OR ucast p8; b = b AND SLOT_2_0; b = push_bit 8 b; a = a OR b;
         s = push_bit 4 s; b = ucast p4; b = b AND 0x7f; b = drop_bit 3 b; s = s OR b
     in Some (9, push_bit 32 (ucast s) OR ucast a))))))))))"

text \<open>The 32-bit variant saturates. Its one-byte case is the one that the macro \<^verbatim>\<open>getVarint32\<close> inlines.\<close>

definition sqlite3GetVarint32 :: "bytes \<Rightarrow> (nat \<times> u32) option" where
  "sqlite3GetVarint32 p =
     Option.bind (byte_at p 0) (\<lambda>p0.
     let a = ucast p0 :: u32 in
     if a AND 0x80 = 0 then Some (1, a) else
     Option.bind (byte_at p 1) (\<lambda>p1.
     let b = ucast p1 :: u32 in
     if b AND 0x80 = 0 then (let a = a AND 0x7f; a = push_bit 7 a in Some (2, a OR b)) else
     Option.bind (byte_at p 2) (\<lambda>p2.
     let a = push_bit 14 a; a = a OR ucast p2 in
     if a AND 0x80 = 0 then
       (let a = a AND (push_bit 14 0x7f OR 0x7f); b = b AND 0x7f; b = push_bit 7 b in Some (3, a OR b))
     else
     Option.bind (sqlite3GetVarint p) (\<lambda>(n, v64).
       Some (n, if v64 AND 0xffffffff \<noteq> v64 then 0xffffffff else ucast v64)))))"

function VarintLen_loop :: "nat \<Rightarrow> u64 \<Rightarrow> nat" where
  "VarintLen_loop i v = (let v = drop_bit 7 v in if v \<noteq> 0 then VarintLen_loop (i + 1) v else i)"
  by auto
termination
  by (relation "measure (\<lambda>(_, v). unat v)") (auto intro: drop_7_less)

declare VarintLen_loop.simps [simp del]

definition sqlite3VarintLen :: "u64 \<Rightarrow> nat" where
  "sqlite3VarintLen v = VarintLen_loop 1 v"

section \<open>A plain decoder\<close>

text \<open>
  Byte after byte: seven bits from every byte with its top bit set, until one with the bit clear, or the ninth, which gives
  all its eight bits.
\<close>

fun decode_varint :: "nat \<Rightarrow> u64 \<Rightarrow> bytes \<Rightarrow> (nat \<times> u64) option" where
  "decode_varint i acc [] = None"
| "decode_varint i acc (b # bs) =
     (if i = 8 then Some (9, push_bit 8 acc OR ucast b)
      else if bit b 7 then decode_varint (i + 1) (push_bit 7 acc OR ucast (b AND 0x7f)) bs
      else Some (i + 1, push_bit 7 acc OR ucast b))"

lemma word64_eqI:
  "list_all (\<lambda>n. bit (a :: u64) n = bit b n)
     [0, 1, 2, 3, 4, 5, 6, 7, 8, 9, 10, 11, 12, 13, 14, 15, 16, 17, 18, 19, 20, 21, 22, 23, 24, 25, 26, 27, 28, 29, 30, 31,
      32, 33, 34, 35, 36, 37, 38, 39, 40, 41, 42, 43, 44, 45, 46, 47, 48, 49, 50, 51, 52, 53, 54, 55, 56, 57, 58, 59, 60, 61, 62, 63] \<Longrightarrow> a = b"
  by (rule bit_word_eqI) (auto simp: less_Suc_eq eval_nat_numeral)

lemma byte_bit_high: "8 \<le> n \<Longrightarrow> \<not> bit (w :: u8) n"
  using bit_imp_le_length [of w n] by auto

lemma top_bit: "0 \<le> sint (b :: u8) \<longleftrightarrow> \<not> bit b 7"
  using bit_last_iff [of b] by (simp add: not_le [symmetric])

lemma and_0x80: "w AND 0x80 = 0 \<longleftrightarrow> \<not> bit (w :: u32) 7"
  using and_exp_eq_0_iff_not_bit [of w 7] by simp

lemmas slot_bits = SLOT_2_0_def SLOT_4_2_0_def bit_simps byte_bit_high

lemma low_bit: "\<not> bit (b :: u8) 7 \<Longrightarrow> ucast b = (ucast (b AND 0x7f) :: u64)"
  by (rule word64_eqI) (simp add: bit_simps byte_bit_high)


text \<open>
  The value at each exit of the unrolled decoder, bit by bit: on the left as the code puts it together from its three
  variables, on the right as the plain decoder does.
\<close>

lemma varint_3:
  fixes p0 p1 p2 :: u8
  shows "(ucast (((push_bit 14 (ucast p0) OR ucast p2) AND SLOT_2_0) OR push_bit 7 (ucast p1 AND 0x7f) :: u32) :: u64) =
    push_bit 7 (push_bit 7 (ucast (p0 AND 0x7f)) OR ucast (p1 AND 0x7f)) OR ucast (p2 AND 0x7f)"
  by (rule word64_eqI) (simp add: slot_bits)

lemma varint_4:
  fixes p0 p1 p2 p3 :: u8
  shows "(ucast (push_bit 7 ((push_bit 14 (ucast p0) OR ucast p2) AND SLOT_2_0) OR ((push_bit 14 (ucast p1) OR ucast
    p3) AND SLOT_2_0) :: u32) :: u64) =
    push_bit 7 (push_bit 7 (push_bit 7 (ucast (p0 AND 0x7f)) OR ucast (p1 AND 0x7f)) OR ucast (p2 AND 0x7f))
    OR ucast (p3 AND 0x7f)"
  by (rule word64_eqI) (simp add: slot_bits)

lemma varint_5:
  fixes p0 p1 p2 p3 p4 :: u8
  shows "(push_bit 32 (ucast (drop_bit 18 ((push_bit 14 (ucast p0) OR ucast p2) AND SLOT_2_0) :: u32)) OR ucast
    ((push_bit 14 ((push_bit 14 (ucast p0) OR ucast p2) AND SLOT_2_0) OR ucast p4) OR push_bit 7 ((push_bit 14
    (ucast p1) OR ucast p3) AND SLOT_2_0) :: u32) :: u64) =
    push_bit 7 (push_bit 7 (push_bit 7 (push_bit 7 (ucast (p0 AND 0x7f)) OR ucast (p1 AND 0x7f)) OR ucast (p2
    AND 0x7f)) OR ucast (p3 AND 0x7f)) OR ucast p4"
  by (rule word64_eqI) (simp add: slot_bits disj_commute)

lemma varint_6:
  fixes p0 p1 p2 p3 p4 p5 :: u8
  shows "(push_bit 32 (ucast (drop_bit 18 (push_bit 7 ((push_bit 14 (ucast p0) OR ucast p2) AND SLOT_2_0) OR
    ((push_bit 14 (ucast p1) OR ucast p3) AND SLOT_2_0)) :: u32)) OR ucast (push_bit 7 ((push_bit 14
    ((push_bit 14 (ucast p0) OR ucast p2) AND SLOT_2_0) OR ucast p4) AND SLOT_2_0) OR (push_bit 14 ((push_bit
    14 (ucast p1) OR ucast p3) AND SLOT_2_0) OR ucast p5) :: u32) :: u64) =
    push_bit 7 (push_bit 7 (push_bit 7 (push_bit 7 (push_bit 7 (ucast (p0 AND 0x7f)) OR ucast (p1 AND 0x7f))
    OR ucast (p2 AND 0x7f)) OR ucast (p3 AND 0x7f)) OR ucast (p4 AND 0x7f)) OR ucast p5"
  by (rule word64_eqI) (simp add: slot_bits)

lemma varint_7:
  fixes p0 p1 p2 p3 p4 p5 p6 :: u8
  shows "(push_bit 32 (ucast (drop_bit 11 (push_bit 7 ((push_bit 14 (ucast p0) OR ucast p2) AND SLOT_2_0) OR
    ((push_bit 14 (ucast p1) OR ucast p3) AND SLOT_2_0)) :: u32)) OR ucast (((push_bit 14 (push_bit 14
    ((push_bit 14 (ucast p0) OR ucast p2) AND SLOT_2_0) OR ucast p4) OR ucast p6) AND SLOT_4_2_0) OR push_bit
    7 ((push_bit 14 ((push_bit 14 (ucast p1) OR ucast p3) AND SLOT_2_0) OR ucast p5) AND SLOT_2_0) :: u32) :: u64) =
    push_bit 7 (push_bit 7 (push_bit 7 (push_bit 7 (push_bit 7 (push_bit 7 (ucast (p0 AND 0x7f)) OR ucast (p1
    AND 0x7f)) OR ucast (p2 AND 0x7f)) OR ucast (p3 AND 0x7f)) OR ucast (p4 AND 0x7f)) OR ucast (p5 AND 0x7f))
    OR ucast (p6 AND 0x7f)"
  by (rule word64_eqI) (simp add: slot_bits)

lemma varint_8:
  fixes p0 p1 p2 p3 p4 p5 p6 p7 :: u8
  shows "(push_bit 32 (ucast (drop_bit 4 (push_bit 7 ((push_bit 14 (ucast p0) OR ucast p2) AND SLOT_2_0) OR
    ((push_bit 14 (ucast p1) OR ucast p3) AND SLOT_2_0)) :: u32)) OR ucast (push_bit 7 ((push_bit 14 (push_bit
    14 ((push_bit 14 (ucast p0) OR ucast p2) AND SLOT_2_0) OR ucast p4) OR ucast p6) AND SLOT_2_0) OR
    ((push_bit 14 (push_bit 14 ((push_bit 14 (ucast p1) OR ucast p3) AND SLOT_2_0) OR ucast p5) OR ucast p7)
    AND SLOT_4_2_0) :: u32) :: u64) =
    push_bit 7 (push_bit 7 (push_bit 7 (push_bit 7 (push_bit 7 (push_bit 7 (push_bit 7 (ucast (p0 AND 0x7f))
    OR ucast (p1 AND 0x7f)) OR ucast (p2 AND 0x7f)) OR ucast (p3 AND 0x7f)) OR ucast (p4 AND 0x7f)) OR ucast
    (p5 AND 0x7f)) OR ucast (p6 AND 0x7f)) OR ucast (p7 AND 0x7f)"
  by (rule word64_eqI) (simp add: slot_bits)

lemma varint_9:
  fixes p0 p1 p2 p3 p4 p5 p6 p7 p8 :: u8
  shows "(push_bit 32 (ucast (push_bit 4 (push_bit 7 ((push_bit 14 (ucast p0) OR ucast p2) AND SLOT_2_0) OR
    ((push_bit 14 (ucast p1) OR ucast p3) AND SLOT_2_0)) OR drop_bit 3 (ucast p4 AND 0x7f) :: u32)) OR ucast
    ((push_bit 15 ((push_bit 14 (push_bit 14 ((push_bit 14 (ucast p0) OR ucast p2) AND SLOT_2_0) OR ucast p4)
    OR ucast p6) AND SLOT_2_0) OR ucast p8) OR push_bit 8 ((push_bit 14 (push_bit 14 ((push_bit 14 (ucast p1)
    OR ucast p3) AND SLOT_2_0) OR ucast p5) OR ucast p7) AND SLOT_2_0) :: u32) :: u64) =
    push_bit 8 (push_bit 7 (push_bit 7 (push_bit 7 (push_bit 7 (push_bit 7 (push_bit 7 (push_bit 7 (ucast (p0 AND 0x7f))
    OR ucast (p1 AND 0x7f)) OR ucast (p2 AND 0x7f)) OR ucast (p3 AND 0x7f)) OR ucast (p4 AND 0x7f)) OR ucast
    (p5 AND 0x7f)) OR ucast (p6 AND 0x7f)) OR ucast (p7 AND 0x7f)) OR ucast p8"
  by (rule word64_eqI) (simp add: slot_bits)

lemma varint_2:
  fixes p0 p1 :: u8
  shows "(ucast (push_bit 7 (ucast (p0 AND 0x7f) :: u32) OR ucast p1) :: u64) = push_bit 7 (ucast (p0 AND 0x7f)) OR ucast p1"
  by (rule word64_eqI) (simp add: slot_bits)

text \<open>The test of the top bit of the byte read last, in either variable.\<close>

lemma top_tests:
  "((push_bit 14 x OR ucast (b :: u8)) AND 0x80 = 0) = (\<not> bit b 7)"
  "((ucast b :: u32) AND 0x80 = 0) = (\<not> bit b 7)" for x :: u32
  by (simp_all add: and_0x80 bit_simps)

lemma byte_at_simps [simp]:
  "byte_at [] k = None" "byte_at (b # bs) 0 = Some b" "byte_at (b # bs) (Suc k) = byte_at bs k"
  "byte_at (b # bs) (numeral n) = byte_at bs (pred_numeral n)"
  by (simp_all add: byte_at_def numeral_eq_Suc)

lemma byte_prefix:
  "p = [] \<or> (\<exists>p0. p = [p0]) \<or> (\<exists>p0 p1. p = [p0, p1]) \<or> (\<exists>p0 p1 p2. p = [p0, p1, p2]) \<or>
   (\<exists>p0 p1 p2 p3. p = [p0, p1, p2, p3]) \<or> (\<exists>p0 p1 p2 p3 p4. p = [p0, p1, p2, p3, p4]) \<or>
   (\<exists>p0 p1 p2 p3 p4 p5. p = [p0, p1, p2, p3, p4, p5]) \<or> (\<exists>p0 p1 p2 p3 p4 p5 p6. p = [p0, p1, p2, p3, p4, p5, p6]) \<or>
   (\<exists>p0 p1 p2 p3 p4 p5 p6 p7. p = [p0, p1, p2, p3, p4, p5, p6, p7]) \<or>
   (\<exists>p0 p1 p2 p3 p4 p5 p6 p7 p8 q. p = p0 # p1 # p2 # p3 # p4 # p5 # p6 # p7 # p8 # q)"
  by (metis neq_Nil_conv)

lemma GetVarint_eq_decode: "sqlite3GetVarint p = decode_varint 0 0 p"
proof -
  note eqs = varint_2 varint_3 varint_4 varint_5 varint_6 varint_7 varint_8 varint_9
  show ?thesis
    using byte_prefix [of p]
    by (elim disjE exE)
      (simp_all add: sqlite3GetVarint_def Let_def top_bit top_tests eqs low_bit del: push_bit_and push_bit_or push_bit_push_bit drop_bit_and drop_bit_or)
qed

section \<open>What the encoder writes\<close>

text \<open>\<open>k\<close> groups of seven bits of a value, highest first, all with the top bit set.\<close>

fun groups :: "nat \<Rightarrow> u64 \<Rightarrow> bytes" where
  "groups 0 v = []"
| "groups (Suc k) v = groups k (drop_bit 7 v) @ [ucast ((v AND 0x7f) OR 0x80)]"

lemma length_groups [simp]: "length (groups k v) = k"
  by (induction k arbitrary: v) auto

lemma put_groups_eq: "put_groups k v p = groups k v @ p"
  by (induction k arbitrary: v p) auto

lemma decode_groups:
  "k \<le> 8 \<Longrightarrow> decode_varint 0 0 (groups k v @ rest) = decode_varint k (take_bit (7 * k) v) rest"
proof (induction k arbitrary: v rest)
  case (Suc k)
  have top: "bit (ucast ((v AND 0x7f) OR 0x80) :: u8) 7"
    by (simp add: bit_simps)
  have low: "(ucast ((v AND 0x7f) OR 0x80) :: u8) AND 0x7f = ucast v AND 0x7f"
    by (rule bit_word_eqI) (auto simp: bit_simps less_Suc_eq eval_nat_numeral)
  have joined: "push_bit 7 (take_bit (7 * k) (drop_bit 7 v)) OR ucast ((ucast v :: u8) AND 0x7f) = take_bit (7 * Suc k) v"
  proof (rule bit_word_eqI)
    fix n
    assume "n < LENGTH(64)"
    have "bit (0x7f :: u8) n \<longleftrightarrow> n < 7"
      using bit_mask_iff [of 7 n, where 'a = u8] by (auto simp: mask_eq_decr_exp min_def)
    then show "bit (push_bit 7 (take_bit (7 * k) (drop_bit 7 v)) OR ucast ((ucast v :: u8) AND 0x7f)) n \<longleftrightarrow> bit (take_bit (7 * Suc k) v) n"
      using \<open>n < LENGTH(64)\<close> by (auto simp: bit_simps)
  qed
  show ?case
    using Suc by (simp add: top low joined)
qed simp

lemma buf_groups_eq: "rev (buf_groups v) = groups (length (buf_groups v)) v"
proof (induction v rule: buf_groups.induct)
  case (1 v)
  show ?case
  proof (cases "drop_bit 7 v = 0")
    case True
    then show ?thesis
      by (simp add: buf_groups.simps [of v])
  next
    case False
    have "buf_groups v = ucast ((v AND 0x7f) OR 0x80) # buf_groups (drop_bit 7 v)"
      using False by (simp add: buf_groups.simps [of v] Let_def)
    then show ?thesis
      using 1 [OF refl refl False] by simp
  qed
qed

text \<open>The groups cover the value, and there are no more of them than needed.\<close>

lemma take_bit_self_iff: "take_bit m v = v \<longleftrightarrow> (\<forall>n \<ge> m. \<not> bit v n)" for v :: u64
proof
  assume "take_bit m v = v"
  then have "bit v n \<longleftrightarrow> n < m \<and> bit v n" for n
    by (metis bit_take_bit_iff)
  then show "\<forall>n \<ge> m. \<not> bit v n"
    by (meson not_less)
next
  assume "\<forall>n \<ge> m. \<not> bit v n"
  then show "take_bit m v = v"
    by (intro bit_word_eqI) (simp add: bit_take_bit_iff, meson not_less)
qed

lemma take_bit_drop_bit_7: "take_bit (7 * k) (drop_bit 7 v) = drop_bit 7 v \<longleftrightarrow> take_bit (7 * Suc k) v = v" for v :: u64
proof -
  have "(\<forall>n \<ge> 7 * k. \<not> bit v (7 + n)) \<longleftrightarrow> (\<forall>n \<ge> 7 * Suc k. \<not> bit v n)"
  proof (intro iffI allI impI)
    fix n
    assume all: "\<forall>n \<ge> 7 * k. \<not> bit v (7 + n)" and "7 * Suc k \<le> n"
    then have "\<not> bit v (7 + (n - 7))"
      by (intro all [rule_format]) simp
    then show "\<not> bit v n"
      using \<open>7 * Suc k \<le> n\<close> by simp
  qed simp
  then show ?thesis
    unfolding take_bit_self_iff by (simp add: bit_drop_bit_eq)
qed

lemma buf_groups_cover: "take_bit (7 * length (buf_groups v)) v = v"
proof (induction v rule: buf_groups.induct)
  case (1 v)
  show ?case
  proof (cases "drop_bit 7 v = 0")
    case True
    then have "take_bit (7 * Suc 0) v = v"
      using take_bit_drop_bit_7 [of 0 v] by simp
    then show ?thesis
      using True by (simp add: buf_groups.simps [of v])
  next
    case False
    then show ?thesis
      using 1 [OF refl refl False] by (simp add: buf_groups.simps [of v] Let_def take_bit_drop_bit_7)
  qed
qed

lemma buf_groups_few: "take_bit (7 * Suc k) v = v \<Longrightarrow> length (buf_groups v) \<le> Suc k"
proof (induction v arbitrary: k rule: buf_groups.induct)
  case (1 v)
  show ?case
  proof (cases "drop_bit 7 v = 0")
    case False
    have cover: "take_bit (7 * k) (drop_bit 7 v) = drop_bit 7 v"
      using 1(2) take_bit_drop_bit_7 by blast
    then obtain k' where "k = Suc k'"
      using False by (cases k) auto
    with 1(1) [OF refl refl False, of k'] cover False show ?thesis
      by (simp add: buf_groups.simps [of v] Let_def)
  qed (simp add: buf_groups.simps [of v])
qed

lemma VarintLen_loop_eq: "VarintLen_loop i v + 1 = i + length (buf_groups v)"
proof (induction i v rule: VarintLen_loop.induct)
  case (1 i v)
  show ?case
  proof (cases "drop_bit 7 v = 0")
    case True
    then show ?thesis
      by (simp add: buf_groups.simps [of v] VarintLen_loop.simps [of i v])
  next
    case False
    then show ?thesis
      using 1 [OF refl False] by (simp add: buf_groups.simps [of v] VarintLen_loop.simps [of i v] Let_def)
  qed
qed

lemma top_byte: "v AND push_bit 32 0xff000000 = 0 \<longleftrightarrow> take_bit 56 v = v" for v :: u64
proof -
  have "(push_bit 32 0xff000000 :: u64) = push_bit 56 (mask 8)"
    by (simp add: mask_eq_decr_exp push_bit_eq_mult)
  then show ?thesis
    by (auto simp: bit_eq_iff bit_simps)
qed


lemma decode_last: "i < 8 \<Longrightarrow> decode_varint i (drop_bit 7 v) (ucast (v AND 0x7f) # rest) = Some (i + 1, v)"
proof -
  have "\<not> bit (ucast (v AND 0x7f) :: u8) 7"
    by (simp add: bit_simps)
  moreover have "push_bit 7 (drop_bit 7 v) OR ucast (ucast (v AND 0x7f) :: u8) = v"
    by (rule word64_eqI) (simp add: bit_simps byte_bit_high)
  moreover assume "i < 8"
  ultimately show ?thesis
    by simp
qed

text \<open>A value below $2^{56}$: its groups, the last one with the top bit clear.\<close>

lemma decode_short:
  assumes "take_bit 56 v = v" "length (buf_groups v) = Suc k"
  shows "decode_varint 0 0 (groups k (drop_bit 7 v) @ ucast (v AND 0x7f) # rest) = Some (Suc k, v)"
proof -
  have "k < 8"
    using buf_groups_few [of 7 v] assms by simp
  moreover have "take_bit (7 * k) (drop_bit 7 v) = drop_bit 7 v"
    using buf_groups_cover [of v] assms(2) take_bit_drop_bit_7 [of k v] by simp
  ultimately show ?thesis
    using decode_groups [of k "drop_bit 7 v"] decode_last [of k v rest] by simp
qed

lemma putVarint64_short:
  assumes "take_bit 56 v = v"
  obtains k where "length (buf_groups v) = Suc k" "putVarint64 v = groups k (drop_bit 7 v) @ [ucast (v AND 0x7f)]"
proof -
  obtain b bs where buf: "buf_groups v = b # bs"
    by (cases "buf_groups v") (simp_all add: buf_groups.simps [of v] Let_def split: if_splits)
  have "b = ucast ((v AND 0x7f) OR 0x80)"
    using buf by (simp add: buf_groups.simps [of v] Let_def split: if_splits)
  then have low: "b AND 0x7f = ucast (v AND 0x7f)"
    by (simp add: bit_eq_iff bit_simps) (auto simp: less_Suc_eq eval_nat_numeral)
  have "rev bs @ [b] = groups (length bs) (drop_bit 7 v) @ [ucast ((v AND 0x7f) OR 0x80)]"
    using buf_groups_eq [of v] buf by simp
  then have "putVarint64 v = groups (length bs) (drop_bit 7 v) @ [ucast (v AND 0x7f)]"
    using assms top_byte [of v] low by (simp add: putVarint64_def buf)
  with buf that show thesis
    by simp
qed

lemma putVarint64_long:
  assumes "take_bit 56 v \<noteq> v"
  shows "putVarint64 v = groups 8 (drop_bit 8 v) @ [ucast v]"
  using assms top_byte [of v] by (simp add: putVarint64_def put_groups_eq)

lemma decode_long: "decode_varint 0 0 (groups 8 (drop_bit 8 v) @ ucast v # rest) = Some (9, v)"
proof -
  have "push_bit 8 (take_bit 56 (drop_bit 8 v)) OR ucast (ucast v :: u8) = v"
    by (rule word64_eqI) (simp add: bit_simps byte_bit_high)
  then show ?thesis
    using decode_groups [of 8 "drop_bit 8 v" "ucast v # rest"] by simp
qed

text \<open>The one- and two-byte shortcuts write what the general encoder does.\<close>

lemma drop_bit_0_iff: "drop_bit k v = 0 \<longleftrightarrow> unat v < 2 ^ k" for v :: u64
proof -
  have "unat (drop_bit k v) = unat v div 2 ^ k"
    unfolding unat_drop_bit_eq by (simp add: drop_bit_eq_div)
  then show ?thesis
    by (metis div_eq_0_iff unat_eq_zero power_not_zero zero_neq_numeral)
qed

lemma take_bit_self_less: "take_bit k v = v \<longleftrightarrow> unat v < 2 ^ k" for v :: u64
  by (simp add: take_bit_eq_self_iff_drop_bit_eq_0 drop_bit_0_iff)

lemma PutVarint_eq: "sqlite3PutVarint v = putVarint64 v"
proof -
  consider (one) "v \<le> 0x7f" | (two) "\<not> v \<le> 0x7f" "v \<le> 0x3fff" | (more) "\<not> v \<le> 0x3fff" "\<not> v \<le> 0x7f"
    by blast
  then show ?thesis
  proof cases
    case one
    then have "unat v < 2 ^ 7"
      by (simp add: word_le_nat_alt)
    then have "drop_bit 7 v = 0" "take_bit 56 v = v"
      by (simp_all add: drop_bit_0_iff take_bit_self_less)
    moreover from this(1) have "length (buf_groups v) = Suc 0"
      by (simp add: buf_groups.simps [of v] Let_def)
    ultimately show ?thesis
      using one by (elim putVarint64_short) (simp add: sqlite3PutVarint_def)
  next
    case two
    then have small: "unat v < 2 ^ 14" "\<not> unat v < 2 ^ 7"
      by (simp_all add: word_le_nat_alt)
    then have "drop_bit 7 v \<noteq> 0" "drop_bit 7 (drop_bit 7 v) = 0" "take_bit 56 v = v"
      using drop_bit_0_iff [of 7 v] drop_bit_0_iff [of 14 v] by (simp_all add: take_bit_self_less)
    moreover from this(1,2) have "length (buf_groups v) = Suc (Suc 0)"
      by (simp add: buf_groups.simps [of v] buf_groups.simps [of "drop_bit 7 v"] Let_def)
    ultimately show ?thesis
      using two by (elim putVarint64_short) (simp add: sqlite3PutVarint_def)
  qed (simp add: sqlite3PutVarint_def)
qed

text \<open>The lengths, and that the decoder reads back what the encoder wrote.\<close>

lemma decode_PutVarint: "decode_varint 0 0 (sqlite3PutVarint v @ rest) = Some (length (sqlite3PutVarint v), v)"
proof (cases "take_bit 56 v = v")
  case True
  then obtain k where "length (buf_groups v) = Suc k" "putVarint64 v = groups k (drop_bit 7 v) @ [ucast (v AND 0x7f)]"
    by (rule putVarint64_short)
  then show ?thesis
    using decode_short [OF True, of k rest] by (simp add: PutVarint_eq)
next
  case False
  then show ?thesis
    using decode_long [of v rest] by (simp add: PutVarint_eq putVarint64_long)
qed

lemma length_PutVarint: "length (sqlite3PutVarint v) = (if take_bit 56 v = v then length (buf_groups v) else 9)"
  using putVarint64_short [of v] putVarint64_long [of v] by (auto simp: PutVarint_eq elim!: putVarint64_short)

lemma VarintLen_eq: "sqlite3VarintLen v = length (buf_groups v)"
  using VarintLen_loop_eq [of 1 v] by (simp add: sqlite3VarintLen_def)

lemma VarintLen_PutVarint: "sqlite3VarintLen v = length (sqlite3PutVarint v) \<longleftrightarrow> v < 2 ^ 63"
proof (cases "take_bit 56 v = v")
  case True
  then have "v < 2 ^ 63"
    by (simp add: take_bit_self_less word_less_nat_alt)
  with True show ?thesis
    by (simp add: VarintLen_eq length_PutVarint)
next
  case False
  then have "\<not> length (buf_groups v) \<le> 8"
    using buf_groups_cover [of v] by (auto simp: take_bit_self_iff)
  then have "length (buf_groups v) = 9 \<longleftrightarrow> length (buf_groups v) \<le> 9"
    by auto
  also have "\<dots> \<longleftrightarrow> take_bit (7 * Suc 8) v = v"
    using buf_groups_few [of 8 v] buf_groups_cover [of v] by (auto simp: take_bit_self_iff)
  also have "\<dots> \<longleftrightarrow> v < 2 ^ 63"
    by (simp add: take_bit_self_less word_less_nat_alt)
  finally show ?thesis
    using False by (simp add: VarintLen_eq length_PutVarint)
qed

section \<open>The saturating variant\<close>

lemma low_word: "(ucast (x :: u32) :: u64) AND 0xffffffff = ucast x"
proof -
  have "(0xffffffff :: u64) = mask 32"
    by (simp add: mask_eq_decr_exp)
  then show ?thesis
    by (auto simp: bit_eq_iff bit_simps dest: bit_imp_le_length)
qed

lemma low_word_iff: "v AND 0xffffffff = v \<longleftrightarrow> v \<le> 0xffffffff" for v :: u64
proof -
  have "v AND 0xffffffff = take_bit 32 v"
    by (simp add: take_bit_eq_mask mask_eq_decr_exp)
  then show ?thesis
    by (simp add: take_bit_self_less word_le_nat_alt) linarith
qed

definition saturate32 :: "u64 \<Rightarrow> u32" where
  "saturate32 v = (if v \<le> 0xffffffff then ucast v else 0xffffffff)"

lemma saturate32_ucast [simp]: "saturate32 (ucast (x :: u32)) = x"
proof -
  have "ucast (ucast x :: u64) = x"
    by (simp add: bit_eq_iff bit_simps)
  then show ?thesis
    using low_word_iff [of "ucast x"] by (simp add: saturate32_def low_word)
qed

lemma saturate32_small: "saturate32 (ucast (b :: u8)) = ucast b"
proof -
  have "(ucast b :: u64) = ucast (ucast b :: u32)"
    by (rule word64_eqI) (simp add: bit_simps byte_bit_high)
  then show ?thesis
    by (simp only: saturate32_ucast)
qed

lemma GetVarint_early:
  "\<not> bit p0 7 \<Longrightarrow> sqlite3GetVarint (p0 # q) = Some (1, ucast p0)"
  "bit p0 7 \<Longrightarrow> \<not> bit p1 7 \<Longrightarrow> sqlite3GetVarint (p0 # p1 # q) = Some (2, ucast (push_bit 7 (ucast (p0 AND 0x7f) :: u32) OR ucast p1))"
  "bit p0 7 \<Longrightarrow> bit p1 7 \<Longrightarrow> \<not> bit p2 7 \<Longrightarrow> sqlite3GetVarint (p0 # p1 # p2 # q) =
    Some (3, ucast (((push_bit 14 (ucast p0) OR ucast p2) AND SLOT_2_0) OR push_bit 7 (ucast p1 AND 0x7f) :: u32))"
  by (simp_all add: sqlite3GetVarint_def Let_def top_bit top_tests del: push_bit_and push_bit_or push_bit_push_bit)

lemma GetVarint_short: "bit p0 7 \<Longrightarrow> sqlite3GetVarint [p0] = None" "bit p0 7 \<Longrightarrow> bit p1 7 \<Longrightarrow> sqlite3GetVarint [p0, p1] = None"
  by (simp_all add: sqlite3GetVarint_def Let_def top_bit)

lemma GetVarint32_eq: "sqlite3GetVarint32 p = map_option (\<lambda>(n, v). (n, saturate32 v)) (sqlite3GetVarint p)"
proof -
  have first: "(ucast (p0 AND 0x7f) :: u32) = ucast p0 AND 0x7f" for p0 :: u8
    by (simp add: unsigned_and_eq)
  have rest: "Option.bind m (\<lambda>(n, v64). Some (n, if v64 AND 0xffffffff \<noteq> v64 then 0xffffffff else ucast v64)) =
    map_option (\<lambda>(n, v). (n, saturate32 v)) m" for m :: "(nat \<times> u64) option"
    by (cases m) (auto simp: low_word_iff saturate32_def)
  consider "p = []" | p0 where "p = [p0]" | p0 p1 where "p = [p0, p1]" | p0 p1 p2 q where "p = p0 # p1 # p2 # q"
    by (metis neq_Nil_conv)
  then show ?thesis
  proof cases
    case 1
    then show ?thesis
      by (simp add: sqlite3GetVarint32_def sqlite3GetVarint_def)
  next
    case 2
    then show ?thesis
      by (cases "bit p0 7") (simp_all add: sqlite3GetVarint32_def Let_def top_tests GetVarint_early GetVarint_short saturate32_small)
  next
    case 3
    then show ?thesis
      by (cases "bit p0 7"; cases "bit p1 7")
        (simp_all add: sqlite3GetVarint32_def Let_def top_tests GetVarint_early GetVarint_short saturate32_small first
          del: push_bit_and push_bit_or push_bit_push_bit)
  next
    case 4
    then show ?thesis
      by (cases "bit p0 7"; cases "bit p1 7"; cases "bit p2 7")
        (simp_all add: sqlite3GetVarint32_def Let_def top_tests GetVarint_early saturate32_small first SLOT_2_0_def rest
          del: push_bit_and push_bit_or push_bit_push_bit)
  qed
qed

section \<open>Four-byte integers and hexadecimal text\<close>

text \<open>Both versions of the source: with a byte swap of a copied word (little endian), and with shifts.\<close>

definition Get4byte_swap :: "bytes \<Rightarrow> u32 option" where
  "Get4byte_swap p = (if 4 \<le> length p then Some (le_word (rev (take 4 p))) else None)"

definition sqlite3Get4byte :: "bytes \<Rightarrow> u32 option" where
  "sqlite3Get4byte p =
     (if 4 \<le> length p
      then Some (push_bit 24 (ucast (p ! 0)) OR push_bit 16 (ucast (p ! 1)) OR push_bit 8 (ucast (p ! 2)) OR ucast (p ! 3))
      else None)"

definition Put4byte_swap :: "u32 \<Rightarrow> bytes" where
  "Put4byte_swap v = rev (le_bytes 4 v)"

definition sqlite3Put4byte :: "u32 \<Rightarrow> bytes" where
  "sqlite3Put4byte v = [ucast (drop_bit 24 v), ucast (drop_bit 16 v), ucast (drop_bit 8 v), ucast v]"

definition sqlite3HexToInt :: "u8 \<Rightarrow> u8" where
  "sqlite3HexToInt c = (let h = ucast c :: u32; h = h + 9 * (1 AND drop_bit 6 h) in ucast (h AND 0xf))"

fun HexToBlob_loop :: "bytes \<Rightarrow> bytes" where
  "HexToBlob_loop (a # b # z) = (push_bit 4 (sqlite3HexToInt a) OR sqlite3HexToInt b) # HexToBlob_loop z"
| "HexToBlob_loop z = []"

text \<open>No value when there is no memory; the blob is followed by a zero byte.\<close>

definition sqlite3HexToBlob :: "bool \<Rightarrow> bytes \<Rightarrow> nat \<Rightarrow> bytes option" where
  "sqlite3HexToBlob malloc_ok z n = (if malloc_ok then Some (HexToBlob_loop (take n z) @ [0]) else None)"

lemma four_bytes: "4 \<le> length p \<Longrightarrow> \<exists>p0 p1 p2 p3 q. p = p0 # p1 # p2 # p3 # q"
  by (auto simp: numeral_eq_Suc Suc_le_length_iff)

lemma Get4byte_versions: "Get4byte_swap p = sqlite3Get4byte p"
proof (cases "4 \<le> length p")
  case True
  then obtain p0 p1 p2 p3 q where p: "p = p0 # p1 # p2 # p3 # q"
    using four_bytes by blast
  have "le_word [p3, p2, p1, p0] = (push_bit 24 (ucast p0) OR push_bit 16 (ucast p1) OR push_bit 8 (ucast p2) OR ucast p3 :: u32)"
    by (simp add: ac_simps)
  then show ?thesis
    by (simp add: Get4byte_swap_def sqlite3Get4byte_def p)
qed (simp add: Get4byte_swap_def sqlite3Get4byte_def)

lemma Put4byte_versions: "Put4byte_swap v = sqlite3Put4byte v"
  by (simp add: Put4byte_swap_def sqlite3Put4byte_def eval_nat_numeral)

lemma Get4byte_Put4byte: "sqlite3Get4byte (sqlite3Put4byte v @ rest) = Some v"
  unfolding Get4byte_versions [symmetric] Put4byte_versions [symmetric]
  by (simp add: Get4byte_swap_def Put4byte_swap_def)

text \<open>The digit characters, in either case.\<close>

definition hex_chars :: "bool \<Rightarrow> nat \<Rightarrow> u8" where
  "hex_chars upper k = of_nat (if k < 10 then 48 + k else if upper then 55 + k else 87 + k)"

lemma HexToInt_digit: "k < 16 \<Longrightarrow> sqlite3HexToInt (hex_chars upper k) = of_nat k"
proof -
  assume "k < 16"
  then have "k \<in> set [0, 1, 2, 3, 4, 5, 6, 7, 8, 9, 10, 11, 12, 13, 14, 15]"
    by (auto simp: less_Suc_eq eval_nat_numeral)
  then show ?thesis
    by (cases upper) (auto simp: sqlite3HexToInt_def hex_chars_def Let_def)
qed

definition hex_text :: "bool \<Rightarrow> bytes \<Rightarrow> bytes" where
  "hex_text upper bs = concat (map (\<lambda>b. [hex_chars upper (unat b div 16), hex_chars upper (unat b mod 16)]) bs)"

lemma HexToBlob_text: "sqlite3HexToBlob True (hex_text upper bs) (2 * length bs) = Some (bs @ [0])"
proof -
  have byte: "push_bit 4 (of_nat (unat b div 16)) OR of_nat (unat b mod 16) = b" for b :: u8
  proof -
    have "(of_nat (unat b div 16) :: u8) = drop_bit 4 b" "(of_nat (unat b mod 16) :: u8) = take_bit 4 b"
      by (simp_all add: drop_bit_eq_div take_bit_eq_mod word_arith_nat_div word_arith_nat_mod)
    moreover have "push_bit 4 (drop_bit 4 b) OR take_bit 4 b = b"
      by (rule bit_word_eqI) (auto simp: bit_simps)
    ultimately show ?thesis
      by simp
  qed
  have unat_u8_div: "unat b div 16 < 16" for b :: u8
  proof -
    have "unat b < 256"
      using unsigned_less [of b, where 'a = nat] by simp
    then show ?thesis by simp
  qed
  have "HexToBlob_loop (hex_text upper bs) = bs"
    by (induction bs) (simp_all add: hex_text_def HexToInt_digit byte unat_u8_div)
  moreover have "length (hex_text upper bs) = 2 * length bs"
    by (induction bs) (simp_all add: hex_text_def)
  ultimately show ?thesis
    by (simp add: sqlite3HexToBlob_def)
qed

section \<open>Arithmetic with overflow detection\<close>

definition LARGEST_INT64 :: int where
  "LARGEST_INT64 = 2 ^ 63 - 1"

definition SMALLEST_INT64 :: int where
  "SMALLEST_INT64 = - 1 - LARGEST_INT64"

definition is_i64 :: "int \<Rightarrow> bool" where
  "is_i64 x \<longleftrightarrow> SMALLEST_INT64 \<le> x \<and> x \<le> LARGEST_INT64"

text \<open>
  The portable code: whether there was an overflow, and the new value of \<^verbatim>\<open>*pA\<close>. Division truncates as in C.
\<close>

definition sqlite3AddInt64 :: "int \<Rightarrow> int \<Rightarrow> bool \<times> int" where
  "sqlite3AddInt64 iA iB =
     (if iB \<ge> 0 then (if iA > 0 \<and> LARGEST_INT64 - iA < iB then (True, iA) else (False, iA + iB))
      else (if iA < 0 \<and> - (iA + LARGEST_INT64) > iB + 1 then (True, iA) else (False, iA + iB)))"

definition sqlite3SubInt64 :: "int \<Rightarrow> int \<Rightarrow> bool \<times> int" where
  "sqlite3SubInt64 iA iB =
     (if iB = SMALLEST_INT64 then (if iA \<ge> 0 then (True, iA) else (False, iA - iB))
      else sqlite3AddInt64 iA (- iB))"

definition sqlite3MulInt64 :: "int \<Rightarrow> int \<Rightarrow> bool \<times> int" where
  "sqlite3MulInt64 iA iB =
     (if (if iB > 0 then iA > LARGEST_INT64 sdiv iB \<or> iA < SMALLEST_INT64 sdiv iB
          else if iB < 0 then
            (if iA > 0 then iB < SMALLEST_INT64 sdiv iA
             else if iA < 0 then iB = SMALLEST_INT64 \<or> iA = SMALLEST_INT64 \<or> - iA > LARGEST_INT64 sdiv (- iB)
             else False)
          else False)
      then (True, iA) else (False, iA * iB))"

text \<open>The built-in operations that newer compilers are given instead: the wrapped result, and whether it is wrong.\<close>

definition builtin_overflow :: "int \<Rightarrow> bool \<times> int" where
  "builtin_overflow x = (\<not> is_i64 x, (x + 2 ^ 63) mod 2 ^ 64 - 2 ^ 63)"

definition sqlite3AbsInt32 :: "int \<Rightarrow> int" where
  "sqlite3AbsInt32 x = (if x \<ge> 0 then x else if x = - (2 ^ 31) then 2 ^ 31 - 1 else - x)"

definition checked :: "int \<Rightarrow> int \<Rightarrow> bool \<times> int" where
  "checked iA x = (if is_i64 x then (False, x) else (True, iA))"

lemmas i64_defs = is_i64_def LARGEST_INT64_def SMALLEST_INT64_def checked_def

lemma AddInt64_checked: "is_i64 iA \<Longrightarrow> is_i64 iB \<Longrightarrow> sqlite3AddInt64 iA iB = checked iA (iA + iB)"
  by (auto simp: sqlite3AddInt64_def i64_defs)

lemma SubInt64_checked: "is_i64 iA \<Longrightarrow> is_i64 iB \<Longrightarrow> sqlite3SubInt64 iA iB = checked iA (iA - iB)"
  using AddInt64_checked [of iA "- iB"] by (auto simp: sqlite3SubInt64_def i64_defs)

lemma sdiv_pos: "0 \<le> (x :: int) \<Longrightarrow> 0 < y \<Longrightarrow> x sdiv y = x div y" "0 \<le> x \<Longrightarrow> 0 < y \<Longrightarrow> (- x) sdiv y = - (x div y)"
  by (auto simp: signed_divide_int_def sgn_if)

lemma int_div_less: "k div y < x \<longleftrightarrow> k < x * y" if "0 < y" for k x y :: int
proof
  assume "k div y < x"
  then have "(k div y + 1) * y \<le> x * y"
    using that by (intro mult_right_mono) simp_all
  moreover have "k < (k div y + 1) * y"
    using div_mult_mod_eq [of k y] pos_mod_bound [OF that, of k] unfolding distrib_right by linarith
  ultimately show "k < x * y" by simp
next
  assume less: "k < x * y"
  show "k div y < x"
  proof (rule ccontr)
    assume "\<not> k div y < x"
    then have "x * y \<le> (k div y) * y"
      using that by (intro mult_right_mono) simp_all
    also have "\<dots> \<le> k"
      using div_mult_mod_eq [of k y] pos_mod_sign [OF that, of k] by linarith
    finally show False using less by simp
  qed
qed

lemma MulInt64_checked:
  assumes "is_i64 iA" "is_i64 iB"
  shows "sqlite3MulInt64 iA iB = checked iA (iA * iB)"
proof -
  let ?L = "2 ^ 63 - 1 :: int"
  have L: "LARGEST_INT64 sdiv y = ?L div y" "SMALLEST_INT64 sdiv y = - (2 ^ 63 div y)" if "0 < y" for y
    using sdiv_pos [of ?L y] sdiv_pos [of "2 ^ 63" y] that by (simp_all add: LARGEST_INT64_def SMALLEST_INT64_def)
  have above: "?L div y < x \<longleftrightarrow> \<not> x * y \<le> ?L" if "0 < y" for x y
    using int_div_less [OF that] by (simp only: not_le)
  have below: "x < - (2 ^ 63 div y) \<longleftrightarrow> \<not> - (2 ^ 63) \<le> x * y" if "0 < y" for x y :: int
  proof -
    have "x < - (2 ^ 63 div y) \<longleftrightarrow> 2 ^ 63 div y < - x"
      by linarith
    also have "\<dots> \<longleftrightarrow> 2 ^ 63 < - x * y"
      using that by (simp only: int_div_less)
    also have "\<dots> \<longleftrightarrow> x * y < - (2 ^ 63)"
      unfolding mult_minus_left by (rule less_minus_iff)
    finally show ?thesis
      by (simp only: not_le)
  qed
  consider (pos) "0 < iB" | (neg_pos) "iB < 0" "0 < iA" | (neg_neg) "iB < 0" "iA < 0" | (zero) "iB = 0 \<or> (iB < 0 \<and> iA = 0)"
    by linarith
  then show ?thesis
  proof cases
    case pos
    with L [of iB] above [of iB iA] below [of iB iA] show ?thesis
      by (auto simp: sqlite3MulInt64_def i64_defs)
  next
    case neg_pos
    with L [of iA] below [of iA iB] mult_neg_pos [of iB iA] show ?thesis
      by (auto simp: sqlite3MulInt64_def i64_defs mult.commute [of iA iB])
  next
    case neg_neg
    with L [of "- iB"] above [of "- iB" "- iA"] mult_neg_neg [of iA iB] assms show ?thesis
      by (auto simp: sqlite3MulInt64_def i64_defs)
  next
    case zero
    then show ?thesis
      by (auto simp: sqlite3MulInt64_def i64_defs sdiv_pos)
  qed
qed

lemma builtin_exact: "fst (builtin_overflow x) = (\<not> is_i64 x)" "is_i64 x \<Longrightarrow> snd (builtin_overflow x) = x"
  by (simp_all add: builtin_overflow_def i64_defs)

section \<open>Properties\<close>

text \<open>
  C34: The unrolled decoder of variable-length integers, which keeps the value in three 32-bit variables and masks several
  bytes at once, is the plain decoder that reads byte after byte; the 32-bit decoder is the same with values above
  $2^{32}-1$ replaced by that bound.
\<close>

theorem sqlite3GetVarint_is_plain_decoder:
  "sqlite3GetVarint p = decode_varint 0 0 p \<and>
   sqlite3GetVarint32 p = map_option (\<lambda>(n, v). (n, saturate32 v)) (decode_varint 0 0 p)"
  using GetVarint_eq_decode GetVarint32_eq by simp

text \<open>
  C35: Every 64-bit integer is read back from what the encoder writes for it, whatever follows, in as many bytes as were
  written. The routine that announces this number is right exactly below $2^{63}$.
\<close>

theorem sqlite3_varint_roundtrip:
  "sqlite3GetVarint (sqlite3PutVarint v @ rest) = Some (length (sqlite3PutVarint v), v) \<and>
   (sqlite3VarintLen v = length (sqlite3PutVarint v) \<longleftrightarrow> v < 2 ^ 63)"
  by (simp add: GetVarint_eq_decode decode_PutVarint VarintLen_PutVarint)

text \<open>
  C36: The portable additions, subtractions and multiplications report an overflow exactly when the built-in ones of the compiler
  do, and without one both store the exact result. With an overflow the portable code leaves the first operand as it was.
\<close>

theorem sqlite3_arithmetic_is_builtin:
  assumes "is_i64 iA" "is_i64 iB"
  shows "\<forall>(f, x) \<in> {(sqlite3AddInt64, iA + iB), (sqlite3SubInt64, iA - iB), (sqlite3MulInt64, iA * iB)}.
    fst (f iA iB) = fst (builtin_overflow x) \<and> snd (f iA iB) = (if is_i64 x then snd (builtin_overflow x) else iA)"
  using AddInt64_checked [OF assms] SubInt64_checked [OF assms] MulInt64_checked [OF assms]
  by (simp add: checked_def builtin_exact)

theorem sqlite3_arithmetic_is_builtin_witness:
  "sqlite3MulInt64 (2 ^ 32) (- (2 ^ 32)) = (True, 2 ^ 32) \<and> sqlite3AddInt64 (2 ^ 62) (- (2 ^ 62)) = (False, 0)"
  using sqlite3_arithmetic_is_builtin [of "2 ^ 32" "- (2 ^ 32)"] sqlite3_arithmetic_is_builtin [of "2 ^ 62" "- (2 ^ 62)"]
  by (auto simp: i64_defs builtin_overflow_def prod_eq_iff)

end
