(* ===== verification/SqliteRowSet.thy ===== *)
theory SqliteRowSet
  imports Prelude "HOL-Library.Tree"
begin

text \<open>
  The row sets of the SQLite library that the repository ships, the part \<^verbatim>\<open>rowset.c\<close> of
  \<^verbatim>\<open>application/sqlite3/sqlite3.c\<close>: a set of row numbers that is either drained in increasing order or asked, between
  batches of insertions, whether a number is in an earlier batch. Merge sort with forty buckets, the conversion of sorted lists
  into balanced search trees and back, and the forest of such trees, shown to implement finite sets.
\<close>

section \<open>State\<close>

text \<open>
  A chain of entries linked by \<^verbatim>\<open>pRight\<close> is the list of their values, a tree of entries a binary tree; a null pointer is the
  empty list or the empty tree. A 64-bit row number is the integer it denotes, as the code only compares them. \<open>rs_entry\<close> is the list at \<^verbatim>\<open>pEntry\<close>, whose
  last element \<^verbatim>\<open>pLast\<close> points to; \<open>rs_forest\<close> the trees at the \<^verbatim>\<open>pLeft\<close> of the entries of \<^verbatim>\<open>pForest\<close>; \<open>rs_chunks\<close>
  the number of chunks allocated. The two bits of \<^verbatim>\<open>rsFlags\<close> are two fields.
\<close>

type_synonym i64 = int

record row_set =
  rs_chunks :: nat
  rs_entry :: "i64 list"
  rs_forest :: "i64 tree list"
  rs_fresh :: u16
  rs_sorted :: bool
  rs_next :: bool
  rs_batch :: int

definition ROWSET_ENTRY_PER_CHUNK :: nat where
  "ROWSET_ENTRY_PER_CHUNK = (1024 - 8) div 24"

text \<open>The argument is the size of the block the allocation gave, if it gave one.\<close>

definition sqlite3RowSetInit :: "nat option \<Rightarrow> row_set option" where
  "sqlite3RowSetInit malloc = map_option (\<lambda>N.
     \<lparr>rs_chunks = 0, rs_entry = [], rs_forest = [], rs_fresh = of_nat ((N - 56) div 24), rs_sorted = True, rs_next = False,
      rs_batch = 0\<rparr>) malloc"

definition sqlite3RowSetClear :: "row_set \<Rightarrow> row_set" where
  "sqlite3RowSetClear p = p\<lparr>rs_chunks := 0, rs_fresh := 0, rs_entry := [], rs_forest := [], rs_sorted := True, rs_next := False\<rparr>"

text \<open>Taking an entry from the pool; without memory for a new chunk there is none.\<close>

definition rowSetEntryAlloc :: "bool \<Rightarrow> row_set \<Rightarrow> row_set option" where
  "rowSetEntryAlloc malloc_ok p =
     (let pool = (if rs_fresh p = 0 then
                    (if malloc_ok then Some (p\<lparr>rs_chunks := rs_chunks p + 1, rs_fresh := of_nat ROWSET_ENTRY_PER_CHUNK\<rparr>)
                     else None)
                  else Some p)
      in map_option (\<lambda>p. p\<lparr>rs_fresh := rs_fresh p - 1\<rparr>) pool)"

section \<open>Insertion\<close>

text \<open>\<open>None\<close> is a violated assertion, also below.\<close>

definition sqlite3RowSetInsert :: "bool \<Rightarrow> i64 \<Rightarrow> row_set \<Rightarrow> row_set option" where
  "sqlite3RowSetInsert malloc_ok rowid p =
     (if rs_next p then None
      else case rowSetEntryAlloc malloc_ok p of
        None \<Rightarrow> Some p
      | Some p \<Rightarrow>
          if rs_entry p \<noteq> [] then
            (let p = (if rowid \<le> last (rs_entry p) then p\<lparr>rs_sorted := False\<rparr> else p)
             in Some (p\<lparr>rs_entry := rs_entry p @ [rowid]\<rparr>))
          else Some (p\<lparr>rs_entry := [rowid]\<rparr>))"

section \<open>Sorting\<close>

text \<open>Neither list is empty in a call; the loop ends by linking the rest of one list when the other is used up.\<close>

fun rowSetEntryMerge :: "i64 list \<Rightarrow> i64 list \<Rightarrow> i64 list" where
  "rowSetEntryMerge [] pB = pB"
| "rowSetEntryMerge pA [] = pA"
| "rowSetEntryMerge (a # pA) (b # pB) =
     (if a \<le> b then
        (if a < b then a # rowSetEntryMerge pA (b # pB) else rowSetEntryMerge pA (b # pB))
      else b # rowSetEntryMerge (a # pA) pB)"

text \<open>
  The inner loop of \<^verbatim>\<open>rowSetEntrySort\<close> on the buckets from some index on: merge full buckets into the list and empty them, up to
  the first empty one. Behind the last bucket the array is read out of bounds.
\<close>

fun bucket_insert :: "i64 list list \<Rightarrow> i64 list \<Rightarrow> i64 list list option" where
  "bucket_insert [] pIn = None"
| "bucket_insert (b # bs) pIn =
     (if b \<noteq> [] then map_option (Cons []) (bucket_insert bs (rowSetEntryMerge b pIn)) else Some (pIn # bs))"

fun sort_loop :: "i64 list list \<Rightarrow> i64 list \<Rightarrow> i64 list list option" where
  "sort_loop aBucket [] = Some aBucket"
| "sort_loop aBucket (v # pNext) = Option.bind (bucket_insert aBucket [v]) (\<lambda>aBucket. sort_loop aBucket pNext)"

fun sort_collect :: "i64 list \<Rightarrow> i64 list list \<Rightarrow> i64 list" where
  "sort_collect pIn [] = pIn"
| "sort_collect pIn (b # bs) =
     (if b = [] then sort_collect pIn bs
      else sort_collect (if pIn \<noteq> [] then rowSetEntryMerge pIn b else b) bs)"

definition rowSetEntrySort :: "i64 list \<Rightarrow> i64 list option" where
  "rowSetEntrySort pIn =
     map_option (\<lambda>aBucket. sort_collect (hd aBucket) (tl aBucket)) (sort_loop (replicate 40 []) pIn)"

section \<open>Trees\<close>

fun rowSetTreeToList :: "i64 tree \<Rightarrow> i64 list" where
  "rowSetTreeToList Leaf = []"
| "rowSetTreeToList (Node l v r) =
     (if l \<noteq> Leaf then rowSetTreeToList l @ [v] else [v]) @ (if r \<noteq> Leaf then rowSetTreeToList r else [])"

text \<open>The tree, and what is left of the list.\<close>

fun rowSetNDeepTree :: "i64 list \<Rightarrow> nat \<Rightarrow> i64 tree \<times> i64 list" where
  "rowSetNDeepTree [] iDepth = (Leaf, [])"
| "rowSetNDeepTree (v # vs) 0 = (Node Leaf v Leaf, vs)"
| "rowSetNDeepTree (v # vs) (Suc 0) = (Node Leaf v Leaf, vs)"
| "rowSetNDeepTree (v # vs) (Suc (Suc d)) =
     (let (pLeft, ppList) = rowSetNDeepTree (v # vs) (Suc d) in
      case ppList of
        [] \<Rightarrow> (pLeft, [])
      | p # ppList \<Rightarrow> let (pRight, ppList) = rowSetNDeepTree ppList (Suc d) in (Node pLeft p pRight, ppList))"

lemma length_rowSetNDeepTree: "length (snd (rowSetNDeepTree xs d)) \<le> length xs"
proof (induction xs d rule: rowSetNDeepTree.induct)
  case (4 v vs d)
  obtain l ys where l: "rowSetNDeepTree (v # vs) (Suc d) = (l, ys)"
    by fastforce
  show ?case
  proof (cases ys)
    case Nil
    then show ?thesis by (simp add: l)
  next
    case (Cons w ws)
    then show ?thesis
      using "4.IH"(1) "4.IH"(2) [OF l [symmetric] refl Cons] by (simp add: l split_beta)
  qed
qed simp_all

function list_to_tree_loop :: "nat \<Rightarrow> i64 tree \<Rightarrow> i64 list \<Rightarrow> i64 tree" where
  "list_to_tree_loop iDepth p [] = p"
| "list_to_tree_loop iDepth pLeft (v # pList) =
     list_to_tree_loop (iDepth + 1) (Node pLeft v (fst (rowSetNDeepTree pList iDepth))) (snd (rowSetNDeepTree pList iDepth))"
  by pat_completeness auto
termination
  by (relation "measure (\<lambda>(_, _, xs). length xs)") (auto simp: le_imp_less_Suc length_rowSetNDeepTree)

definition rowSetListToTree :: "i64 list \<Rightarrow> i64 tree" where
  "rowSetListToTree pList =
     (case pList of [] \<Rightarrow> Leaf | v # pList \<Rightarrow> list_to_tree_loop 1 (Node Leaf v Leaf) pList)"

section \<open>Draining\<close>

definition sqlite3RowSetNext :: "row_set \<Rightarrow> (i64 option \<times> row_set) option" where
  "sqlite3RowSetNext p =
     (if rs_forest p \<noteq> [] then None else
      Option.bind
        (if \<not> rs_next p then
           Option.bind (if \<not> rs_sorted p then rowSetEntrySort (rs_entry p) else Some (rs_entry p)) (\<lambda>pEntry.
             Some (p\<lparr>rs_entry := pEntry, rs_sorted := True, rs_next := True\<rparr>))
         else Some p) (\<lambda>p.
      Some (case rs_entry p of
        v # pEntry \<Rightarrow> (Some v, let p = p\<lparr>rs_entry := pEntry\<rparr> in if pEntry = [] then sqlite3RowSetClear p else p)
      | [] \<Rightarrow> (None, p))))"

section \<open>Testing\<close>

text \<open>
  The loop that places a sorted list in the forest: the first empty tree takes it, full trees before it are merged into it. The
  second result is the list that found no place.
\<close>

fun forest_place :: "i64 list \<Rightarrow> i64 tree list \<Rightarrow> i64 tree list \<times> i64 list option" where
  "forest_place p [] = ([], Some p)"
| "forest_place p (pTree # pForest) =
     (if pTree = Leaf then (rowSetListToTree p # pForest, None)
      else let (ts, rest) = forest_place (rowSetEntryMerge (rowSetTreeToList pTree) p) pForest in (Leaf # ts, rest))"

fun tree_search :: "i64 \<Rightarrow> i64 tree \<Rightarrow> bool" where
  "tree_search iRowid Leaf = False"
| "tree_search iRowid (Node l v r) =
     (if v < iRowid then tree_search iRowid r else if v > iRowid then tree_search iRowid l else True)"

definition forest_update :: "bool \<Rightarrow> row_set \<Rightarrow> row_set option" where
  "forest_update malloc_ok p =
     (if rs_entry p = [] then Some p else
      Option.bind (if \<not> rs_sorted p then rowSetEntrySort (rs_entry p) else Some (rs_entry p)) (\<lambda>l.
      let (ts, rest) = forest_place l (rs_forest p);
          p = p\<lparr>rs_forest := ts\<rparr>;
          p = (case rest of
                 None \<Rightarrow> p
               | Some l \<Rightarrow>
                   (case rowSetEntryAlloc malloc_ok p of
                      None \<Rightarrow> p
                    | Some p \<Rightarrow> p\<lparr>rs_forest := ts @ [rowSetListToTree l]\<rparr>))
      in Some (p\<lparr>rs_entry := [], rs_sorted := True\<rparr>)))"

definition sqlite3RowSetTest :: "bool \<Rightarrow> int \<Rightarrow> i64 \<Rightarrow> row_set \<Rightarrow> (bool \<times> row_set) option" where
  "sqlite3RowSetTest malloc_ok iBatch iRowid p =
     (if rs_next p then None else
      Option.bind
        (if iBatch \<noteq> rs_batch p then map_option (\<lambda>p. p\<lparr>rs_batch := iBatch\<rparr>) (forest_update malloc_ok p) else Some p)
        (\<lambda>p. Some (\<exists>pTree \<in> set (rs_forest p). tree_search iRowid pTree, p)))"

section \<open>Sorting is sorting\<close>

text \<open>A list without duplicates in increasing order.\<close>

abbreviation ordered :: "i64 list \<Rightarrow> bool" where
  "ordered \<equiv> sorted_wrt (<)"

named_theorems rowset_sets \<open>the values that the parts of a row set hold\<close>

lemma rowSetEntryMerge_Nil [simp]: "rowSetEntryMerge pA [] = pA"
  by (cases pA) auto

lemma set_rowSetEntryMerge [rowset_sets]: "set (rowSetEntryMerge pA pB) = set pA \<union> set pB"
  by (induction pA pB rule: rowSetEntryMerge.induct) auto

lemma ordered_rowSetEntryMerge: "ordered pA \<Longrightarrow> ordered pB \<Longrightarrow> ordered (rowSetEntryMerge pA pB)"
  by (induction pA pB rule: rowSetEntryMerge.induct) (auto simp: rowset_sets)

lemma rowSetEntryMerge_empty [simp]: "rowSetEntryMerge pA pB = [] \<longleftrightarrow> pA = [] \<and> pB = []"
  using set_rowSetEntryMerge [of pA pB] by (metis set_empty sup_eq_bot_iff)

text \<open>
  The buckets count in binary: bucket number \<open>i\<close> is full when bit \<open>i\<close> of the number of values sorted so far is set, although
  a full bucket may hold fewer than \<open>2 ^ i\<close> values where duplicates were dropped.
\<close>

fun bucket_count :: "i64 list list \<Rightarrow> nat" where
  "bucket_count [] = 0"
| "bucket_count (b # bs) = (if b = [] then 0 else 1) + 2 * bucket_count bs"

lemma bucket_count_less: "bucket_count bs < 2 ^ length bs"
  by (induction bs) auto

lemma bucket_insert_total:
  "Suc (bucket_count bs) < 2 ^ length bs \<Longrightarrow> \<exists>bs'. bucket_insert bs pIn = Some bs'"
  by (induction bs arbitrary: pIn) auto

lemma bucket_insert_Some:
  "bucket_insert bs pIn = Some bs' \<Longrightarrow> pIn \<noteq> [] \<Longrightarrow> ordered pIn \<Longrightarrow> \<forall>b \<in> set bs. ordered b \<Longrightarrow>
    length bs' = length bs \<and> bucket_count bs' = Suc (bucket_count bs) \<and> (\<forall>b \<in> set bs'. ordered b) \<and>
    \<Union> (set ` set bs') = set pIn \<union> \<Union> (set ` set bs)"
proof (induction bs arbitrary: pIn bs')
  case (Cons b bs)
  show ?case
  proof (cases "b = []")
    case False
    then obtain bs1 where bs1: "bucket_insert bs (rowSetEntryMerge b pIn) = Some bs1" "bs' = [] # bs1"
      using Cons.prems(1) by auto
    then show ?thesis
      using Cons.IH [OF bs1(1)] Cons.prems False by (auto simp: ordered_rowSetEntryMerge rowset_sets)
  qed (use Cons.prems in auto)
qed simp

lemma sort_loop_total:
  assumes "bucket_count bs + length pIn < 2 ^ length bs" "\<forall>b \<in> set bs. ordered b"
  shows "\<exists>bs'. sort_loop bs pIn = Some bs' \<and> length bs' = length bs \<and> (\<forall>b \<in> set bs'. ordered b) \<and>
    \<Union> (set ` set bs') = set pIn \<union> \<Union> (set ` set bs)"
  using assms
proof (induction pIn arbitrary: bs)
  case (Cons v vs)
  obtain bs1 where bs1: "bucket_insert bs [v] = Some bs1"
    using bucket_insert_total [of bs "[v]"] Cons.prems(1) by auto
  have step: "length bs1 = length bs" "bucket_count bs1 = Suc (bucket_count bs)" "\<forall>b \<in> set bs1. ordered b"
    "\<Union> (set ` set bs1) = insert v (\<Union> (set ` set bs))"
    using bucket_insert_Some [OF bs1 _ _ Cons.prems(2)] by simp_all
  obtain bs' where "sort_loop bs1 vs = Some bs'" "length bs' = length bs1" "\<forall>b \<in> set bs'. ordered b"
    "\<Union> (set ` set bs') = set vs \<union> \<Union> (set ` set bs1)"
    using Cons.IH [of bs1] Cons.prems(1) step by auto
  then show ?case
    using bs1 step by auto
qed auto

lemma sort_collect_merges:
  "ordered pIn \<Longrightarrow> \<forall>b \<in> set bs. ordered b \<Longrightarrow>
    ordered (sort_collect pIn bs) \<and> set (sort_collect pIn bs) = set pIn \<union> \<Union> (set ` set bs)"
  by (induction pIn bs rule: sort_collect.induct) (auto simp: rowset_sets ordered_rowSetEntryMerge)

lemma ordered_unique: "ordered xs \<Longrightarrow> ordered ys \<Longrightarrow> set xs = set ys \<Longrightarrow> xs = ys"
  by (simp add: strict_sorted_equal)

lemma ordered_eq_list: "ordered xs \<Longrightarrow> xs = sorted_list_of_set (set xs)"
  by (rule ordered_unique) auto

lemma rowSetEntrySort_sorts:
  assumes "length pIn < 2 ^ 40"
  shows "rowSetEntrySort pIn = Some (sorted_list_of_set (set pIn))"
proof -
  have empty: "bucket_count (replicate n []) = 0" for n
    by (induction n) auto
  obtain bs where bs: "sort_loop (replicate 40 []) pIn = Some bs" "length bs = 40" "\<forall>b \<in> set bs. ordered b"
    "\<Union> (set ` set bs) = set pIn"
    using sort_loop_total [of "replicate 40 []" pIn] assms by (auto simp: empty)
  obtain b bs' where bs': "bs = b # bs'"
    using bs(2) by (cases bs) auto
  have "ordered (sort_collect b bs')" "set (sort_collect b bs') = set pIn"
    using sort_collect_merges [of b bs'] bs(3,4) by (auto simp: bs')
  then have "sort_collect b bs' = sorted_list_of_set (set pIn)"
    using ordered_eq_list by metis
  then show ?thesis
    by (simp add: rowSetEntrySort_def bs(1) bs')
qed

section \<open>Trees and lists\<close>

lemma rowSetTreeToList_inorder [simp]: "rowSetTreeToList t = inorder t"
  by (induction t) auto

lemma rowSetNDeepTree_splits:
  "rowSetNDeepTree xs d = (t, rest) \<Longrightarrow> 0 < d \<Longrightarrow>
    inorder t @ rest = xs \<and> height t \<le> d \<and> (rest \<noteq> [] \<longrightarrow> Suc (size t) = 2 ^ d)"
proof (induction xs d arbitrary: t rest rule: rowSetNDeepTree.induct)
  case (4 v vs d)
  obtain l ys where l: "rowSetNDeepTree (v # vs) (Suc d) = (l, ys)"
    by fastforce
  note IHl = "4.IH"(1) [OF l]
  show ?case
  proof (cases ys)
    case (Cons w ws)
    obtain r zs where r: "rowSetNDeepTree ws (Suc d) = (r, zs)"
      by fastforce
    show ?thesis
      using "4.IH"(2) [OF l [symmetric] refl Cons r] IHl "4.prems" by (auto simp: l Cons r)
  qed (use IHl "4.prems" l in auto)
qed auto

lemma list_to_tree_loop_bounds:
  assumes "0 < d" "height p \<le> d" "xs \<noteq> [] \<Longrightarrow> Suc (size p) = 2 ^ d" "2 ^ (height p - 1) \<le> size p"
  shows "inorder (list_to_tree_loop d p xs) = inorder p @ xs \<and>
    2 ^ (height (list_to_tree_loop d p xs) - 1) \<le> size (list_to_tree_loop d p xs)"
  using assms
proof (induction d p xs rule: list_to_tree_loop.induct)
  case (2 d p v xs)
  obtain r rest where r: "rowSetNDeepTree xs d = (r, rest)"
    by fastforce
  have split: "inorder r @ rest = xs" "height r \<le> d" "rest \<noteq> [] \<Longrightarrow> Suc (size r) = 2 ^ d"
    using rowSetNDeepTree_splits [OF r "2.prems"(1)] by simp_all
  have full: "Suc (size p) = 2 ^ d"
    using "2.prems"(3) by simp
  have "(2 :: nat) ^ max (height p) (height r) \<le> 2 ^ d"
    using "2.prems"(2) split(2) by (intro power_increasing) auto
  also have "\<dots> \<le> Suc (size p + size r)"
    using full by simp
  finally have bound: "2 ^ max (height p) (height r) \<le> Suc (size p + size r)" .
  have "inorder (list_to_tree_loop (d + 1) (Node p v r) rest) = inorder (Node p v r) @ rest \<and>
    2 ^ (height (list_to_tree_loop (d + 1) (Node p v r) rest) - 1) \<le> size (list_to_tree_loop (d + 1) (Node p v r) rest)"
    by (rule "2.IH" [unfolded r fst_conv snd_conv]) (use "2.prems"(2) full split(2,3) bound in auto)
  then show ?case
    using split(1) by (auto simp: r)
qed simp

lemma rowSetListToTree_bounds:
  "inorder (rowSetListToTree xs) = xs \<and> (xs \<noteq> [] \<longrightarrow> 2 ^ (height (rowSetListToTree xs) - 1) \<le> length xs)"
proof (cases xs)
  case (Cons v vs)
  have "inorder (list_to_tree_loop 1 (Node Leaf v Leaf) vs) = v # vs"
    "2 ^ (height (list_to_tree_loop 1 (Node Leaf v Leaf) vs) - 1) \<le> size (list_to_tree_loop 1 (Node Leaf v Leaf) vs)"
    using list_to_tree_loop_bounds [of 1 "Node Leaf v Leaf" vs] by auto
  then show ?thesis
    by (simp add: Cons rowSetListToTree_def flip: length_inorder)
qed (simp add: rowSetListToTree_def)

lemma inorder_rowSetListToTree [simp]: "inorder (rowSetListToTree xs) = xs"
  using rowSetListToTree_bounds by simp

lemma tree_search_inorder: "ordered (inorder t) \<Longrightarrow> tree_search x t \<longleftrightarrow> x \<in> set (inorder t)"
  by (induction t) (auto simp: sorted_wrt_append)

section \<open>Operations on the set\<close>

text \<open>
  The values that tests see, and the well-formed states while values are inserted and tested: the flag \<^verbatim>\<open>ROWSET_SORTED\<close>
  is only set on sorted lists, and all trees are search trees.
\<close>

definition forest_values :: "row_set \<Rightarrow> i64 set" where
  "forest_values p = \<Union> (set_tree ` set (rs_forest p))"

definition rowset_inv :: "row_set \<Rightarrow> bool" where
  "rowset_inv p \<longleftrightarrow> \<not> rs_next p \<and> (rs_sorted p \<longrightarrow> ordered (rs_entry p)) \<and>
     (\<forall>t \<in> set (rs_forest p). ordered (inorder t))"

lemma rowset_inv_init: "sqlite3RowSetInit malloc = Some p \<Longrightarrow>
    rowset_inv p \<and> rs_entry p = [] \<and> rs_forest p = [] \<and> rs_batch p = 0"
  by (auto simp: sqlite3RowSetInit_def rowset_inv_def)

lemma rowSetEntryAlloc_Some:
  "rowSetEntryAlloc ok p = Some p' \<Longrightarrow>
    rs_entry p' = rs_entry p \<and> rs_forest p' = rs_forest p \<and> rs_sorted p' = rs_sorted p \<and> rs_next p' = rs_next p \<and>
    rs_batch p' = rs_batch p"
  by (auto simp: rowSetEntryAlloc_def Let_def split: if_splits)

lemma rowSetEntryAlloc_True: "\<exists>p'. rowSetEntryAlloc True p = Some p'"
  by (simp add: rowSetEntryAlloc_def Let_def)

lemma ordered_snoc: "ordered (xs @ [y]) \<longleftrightarrow> ordered xs \<and> (xs \<noteq> [] \<longrightarrow> last xs < y)"
proof (cases xs rule: rev_cases)
  case (snoc ys x)
  then show ?thesis
    by (auto simp: sorted_wrt_append)
qed simp

lemma sqlite3RowSetInsert_appends:
  assumes "rowset_inv p"
  shows "\<exists>p'. sqlite3RowSetInsert True v p = Some p' \<and> rowset_inv p' \<and> rs_entry p' = rs_entry p @ [v] \<and>
    rs_forest p' = rs_forest p \<and> rs_batch p' = rs_batch p"
proof -
  obtain p1 where p1: "rowSetEntryAlloc True p = Some p1"
    using rowSetEntryAlloc_True by blast
  show ?thesis
    using assms rowSetEntryAlloc_Some [OF p1] ordered_snoc [of "rs_entry p" v]
    by (auto simp: sqlite3RowSetInsert_def p1 rowset_inv_def Let_def)
qed

text \<open>Without memory the value is lost, and nothing else changes.\<close>

lemma sqlite3RowSetInsert_no_memory:
  "\<not> rs_next p \<Longrightarrow> rs_fresh p = 0 \<Longrightarrow> sqlite3RowSetInsert False v p = Some p"
  by (simp add: sqlite3RowSetInsert_def rowSetEntryAlloc_def)

lemma forest_place_values:
  "forest_place l ts = (ts', rest) \<Longrightarrow> ordered l \<Longrightarrow> \<forall>t \<in> set ts. ordered (inorder t) \<Longrightarrow>
    (\<forall>t \<in> set ts'. ordered (inorder t)) \<and> (\<forall>l'. rest = Some l' \<longrightarrow> ordered l') \<and>
    \<Union> (set_tree ` set ts') \<union> (case rest of None \<Rightarrow> {} | Some l' \<Rightarrow> set l') = set l \<union> \<Union> (set_tree ` set ts)"
proof (induction l ts arbitrary: ts' rest rule: forest_place.induct)
  case (2 l t ts)
  show ?case
  proof (cases "t = Leaf")
    case True
    then show ?thesis
      using "2.prems" by (auto simp flip: set_inorder)
  next
    case False
    let ?l = "rowSetEntryMerge (rowSetTreeToList t) l"
    obtain ts1 where ts1: "forest_place ?l ts = (ts1, rest)" "ts' = Leaf # ts1"
      using "2.prems"(1) False by (auto simp: split_beta prod_eq_iff)
    have "ordered ?l" "set ?l = set_tree t \<union> set l"
      using "2.prems" by (auto simp: ordered_rowSetEntryMerge rowset_sets)
    then show ?thesis
      using "2.IH" [OF False ts1(1)] "2.prems"(3) ts1(2) by (auto simp: split: option.splits)
  qed
qed auto

lemma forest_update_stores:
  assumes "rowset_inv p" "length (rs_entry p) < 2 ^ 40"
  shows "\<exists>p'. forest_update True p = Some p' \<and> rowset_inv p' \<and> rs_entry p' = [] \<and> rs_batch p' = rs_batch p \<and>
    forest_values p' = forest_values p \<union> set (rs_entry p)"
proof (cases "rs_entry p = []")
  case False
  obtain l where l: "(if \<not> rs_sorted p then rowSetEntrySort (rs_entry p) else Some (rs_entry p)) = Some l"
    "ordered l" "set l = set (rs_entry p)"
    using assms(1) rowSetEntrySort_sorts [OF assms(2)] by (cases "rs_sorted p") (auto simp: rowset_inv_def)
  obtain ts rest where place: "forest_place l (rs_forest p) = (ts, rest)"
    by fastforce
  obtain p2 where p2: "rowSetEntryAlloc True (p\<lparr>rs_forest := ts\<rparr>) = Some p2"
    using rowSetEntryAlloc_True by blast
  note facts = forest_place_values [OF place l(2)] rowSetEntryAlloc_Some [OF p2]
  show ?thesis
    using facts assms(1) False l(3)
    by (cases rest) (auto simp: forest_update_def l(1) place p2 rowset_inv_def forest_values_def simp flip: set_inorder)
qed (use assms in \<open>simp add: forest_update_def\<close>)

lemma tree_search_forest:
  "rowset_inv p \<Longrightarrow> (\<exists>t \<in> set (rs_forest p). tree_search v t) \<longleftrightarrow> v \<in> forest_values p"
  by (auto simp: rowset_inv_def forest_values_def tree_search_inorder)

lemma sqlite3RowSetTest_answers:
  assumes "rowset_inv p" "length (rs_entry p) < 2 ^ 40"
  shows "\<exists>p'. sqlite3RowSetTest True b v p = Some (v \<in> forest_values p', p') \<and> rowset_inv p' \<and> rs_batch p' = b \<and>
    length (rs_entry p') \<le> length (rs_entry p) \<and>
    (if b \<noteq> rs_batch p then set (rs_entry p') = {} \<and> forest_values p' = forest_values p \<union> set (rs_entry p) else p' = p)"
proof (cases "b = rs_batch p")
  case False
  obtain p1 where p1: "forest_update True p = Some p1" "rowset_inv p1" "rs_entry p1 = []" "rs_batch p1 = rs_batch p"
    "forest_values p1 = forest_values p \<union> set (rs_entry p)"
    using forest_update_stores [OF assms] by blast
  have "rowset_inv (p1\<lparr>rs_batch := b\<rparr>)" "forest_values (p1\<lparr>rs_batch := b\<rparr>) = forest_values p1"
    using p1(2) by (simp_all add: rowset_inv_def forest_values_def)
  then show ?thesis
    using False p1 assms(1) tree_search_forest [of "p1\<lparr>rs_batch := b\<rparr>" v]
    by (auto simp: sqlite3RowSetTest_def rowset_inv_def)
qed (use assms tree_search_forest [OF assms(1), of v] in \<open>auto simp: sqlite3RowSetTest_def rowset_inv_def\<close>)

section \<open>Runs\<close>

text \<open>Insertions and tests, each with memory for new entries; the results of the tests.\<close>

datatype rowset_op = RowInsert i64 | RowTest int i64

fun rowset_run :: "rowset_op list \<Rightarrow> row_set \<Rightarrow> (bool list \<times> row_set) option" where
  "rowset_run [] p = Some ([], p)"
| "rowset_run (RowInsert v # ops) p = Option.bind (sqlite3RowSetInsert True v p) (rowset_run ops)"
| "rowset_run (RowTest b v # ops) p =
     Option.bind (sqlite3RowSetTest True b v p) (\<lambda>(r, p). map_option (\<lambda>(rs, p). (r # rs, p)) (rowset_run ops p))"

text \<open>Calls of \<^verbatim>\<open>sqlite3RowSetNext\<close> until it reports the end.\<close>

fun rowset_drain :: "nat \<Rightarrow> row_set \<Rightarrow> i64 list option" where
  "rowset_drain 0 p = None"
| "rowset_drain (Suc n) p =
     Option.bind (sqlite3RowSetNext p) (\<lambda>(r, p). case r of None \<Rightarrow> Some [] | Some v \<Rightarrow> map_option (Cons v) (rowset_drain n p))"

text \<open>
  The specification of the tests: a value is found if it was inserted before the batch of the test began. \<open>F\<close> are the values of
  the earlier batches, \<open>P\<close> the values inserted in the current one, whose number is \<open>b\<close>.
\<close>

fun batch_tests :: "rowset_op list \<Rightarrow> i64 set \<Rightarrow> i64 set \<Rightarrow> int \<Rightarrow> bool list" where
  "batch_tests [] F P b = []"
| "batch_tests (RowInsert v # ops) F P b = batch_tests ops F (insert v P) b"
| "batch_tests (RowTest b' v # ops) F P b =
     (if b' \<noteq> b then (v \<in> F \<union> P) # batch_tests ops (F \<union> P) {} b' else (v \<in> F) # batch_tests ops F P b)"

lemma rowset_run_tests:
  assumes "rowset_inv p" "length (rs_entry p) + length ops < 2 ^ 40"
  shows "\<exists>p'. rowset_run ops p = Some (batch_tests ops (forest_values p) (set (rs_entry p)) (rs_batch p), p')"
  using assms
proof (induction ops arbitrary: p)
  case (Cons x ops)
  show ?case
  proof (cases x)
    case (RowInsert v)
    obtain p1 where p1: "sqlite3RowSetInsert True v p = Some p1" "rowset_inv p1" "rs_entry p1 = rs_entry p @ [v]"
      "rs_forest p1 = rs_forest p" "rs_batch p1 = rs_batch p"
      using sqlite3RowSetInsert_appends [OF Cons.prems(1)] by blast
    then show ?thesis
      using Cons.IH [OF p1(2)] Cons.prems(2) by (simp add: RowInsert forest_values_def)
  next
    case (RowTest b v)
    obtain p1 where p1: "sqlite3RowSetTest True b v p = Some (v \<in> forest_values p1, p1)" "rowset_inv p1" "rs_batch p1 = b"
      "length (rs_entry p1) \<le> length (rs_entry p)"
      "if b \<noteq> rs_batch p then set (rs_entry p1) = {} \<and> forest_values p1 = forest_values p \<union> set (rs_entry p) else p1 = p"
      using sqlite3RowSetTest_answers [OF Cons.prems(1), of b v] Cons.prems(2) by auto
    then show ?thesis
      using Cons.IH [OF p1(2)] Cons.prems(2) by (auto simp: RowTest split: if_splits)
  qed
qed simp

lemma rowset_run_inserts:
  assumes "rowset_inv p"
  shows "\<exists>p'. rowset_run (map RowInsert xs) p = Some ([], p') \<and> rowset_inv p' \<and> rs_entry p' = rs_entry p @ xs \<and>
    rs_forest p' = rs_forest p"
  using assms
proof (induction xs arbitrary: p)
  case (Cons v xs)
  obtain p1 where p1: "sqlite3RowSetInsert True v p = Some p1" "rowset_inv p1" "rs_entry p1 = rs_entry p @ [v]"
    "rs_forest p1 = rs_forest p"
    using sqlite3RowSetInsert_appends [OF Cons.prems] by blast
  then show ?case
    using Cons.IH [OF p1(2)] by simp
qed simp

lemma rowset_drain_list:
  "rs_forest p = [] \<Longrightarrow> rs_entry p \<noteq> [] \<longrightarrow> rs_next p \<Longrightarrow> rs_sorted p \<Longrightarrow>
    rowset_drain (Suc (length (rs_entry p))) p = Some (rs_entry p)"
proof (induction "length (rs_entry p)" arbitrary: p)
  case 0
  then show ?case by (simp add: sqlite3RowSetNext_def)
next
  case (Suc n)
  obtain v vs where vs: "rs_entry p = v # vs" "n = length vs"
    using Suc.hyps(2) by (cases "rs_entry p") auto
  let ?p = "p\<lparr>rs_entry := vs\<rparr>"
  let ?p' = "if vs = [] then sqlite3RowSetClear ?p else ?p"
  have "rowset_drain (Suc (length (rs_entry ?p'))) ?p' = Some (rs_entry ?p')"
    by (rule Suc.hyps(1)) (use Suc.prems vs in \<open>auto simp: sqlite3RowSetClear_def\<close>)
  moreover have "sqlite3RowSetNext p = Some (Some v, ?p')"
    using Suc.prems vs by (simp add: sqlite3RowSetNext_def Let_def)
  moreover have "rs_entry ?p' = vs"
    by (simp add: sqlite3RowSetClear_def)
  ultimately show ?case
    unfolding vs(1) by (simp del: rowset_drain.simps(2) add: rowset_drain.simps(2) [of "Suc (length vs)"])
qed

lemma rowset_drain_sorted:
  assumes "rowset_inv p" "rs_forest p = []" "length (rs_entry p) < 2 ^ 40"
  shows "rowset_drain (Suc (card (set (rs_entry p)))) p = Some (sorted_list_of_set (set (rs_entry p)))"
proof -
  let ?l = "sorted_list_of_set (set (rs_entry p))"
  let ?p = "p\<lparr>rs_entry := ?l, rs_sorted := True, rs_next := True\<rparr>"
  have "(if \<not> rs_sorted p then rowSetEntrySort (rs_entry p) else Some (rs_entry p)) = Some ?l"
    using assms(1) rowSetEntrySort_sorts [OF assms(3)] ordered_eq_list by (auto simp: rowset_inv_def)
  then have "sqlite3RowSetNext p = sqlite3RowSetNext ?p"
    using assms(1,2) by (auto simp: sqlite3RowSetNext_def rowset_inv_def)
  then have "rowset_drain (Suc n) p = rowset_drain (Suc n) ?p" for n
    by simp
  then show ?thesis
    using rowset_drain_list [of ?p] assms(2) by simp
qed

section \<open>Properties of row sets\<close>

text \<open>
  C40: Whatever is inserted and tested, a test reports exactly whether its value was inserted before the batch of the test began,
  although the values move between lists, buckets and a forest of search trees. The bound is the capacity of the forty buckets
  of the sort, \<open>2 ^ 40 - 1\<close> values.
\<close>

theorem rowset_tests_earlier_batches:
  assumes "sqlite3RowSetInit (Some N) = Some p" "length ops < 2 ^ 40"
  shows "\<exists>p'. rowset_run ops p = Some (batch_tests ops {} {} 0, p')"
  using rowset_run_tests [of p ops] rowset_inv_init [OF assms(1)] assms(2) by (simp add: forest_values_def)

theorem rowset_tests_earlier_batches_witness:
  "\<exists>p p'. sqlite3RowSetInit (Some 500) = Some p \<and>
    rowset_run [RowInsert 5, RowInsert 3, RowTest 1 3, RowInsert 4, RowTest 1 4, RowTest 2 4] p = Some ([True, False, True], p')"
proof -
  obtain p where p: "sqlite3RowSetInit (Some 500) = Some p"
    by (simp add: sqlite3RowSetInit_def)
  show ?thesis
    using rowset_tests_earlier_batches [OF p, of "[RowInsert 5, RowInsert 3, RowTest 1 3, RowInsert 4, RowTest 1 4, RowTest 2 4]"] p
    by auto
qed

text \<open>
  A row set that is filled and then drained yields the inserted values in increasing order, each once.
\<close>

theorem rowset_drains_in_order:
  assumes "sqlite3RowSetInit (Some N) = Some p" "length xs < 2 ^ 40"
  shows "\<exists>p'. rowset_run (map RowInsert xs) p = Some ([], p') \<and>
    rowset_drain (Suc (card (set xs))) p' = Some (sorted_list_of_set (set xs))"
proof -
  obtain p' where p': "rowset_run (map RowInsert xs) p = Some ([], p')" "rowset_inv p'" "rs_entry p' = xs" "rs_forest p' = []"
    using rowset_run_inserts [of p xs] rowset_inv_init [OF assms(1)] by auto
  then show ?thesis
    using rowset_drain_sorted [of p'] assms(2) by auto
qed

theorem rowset_drains_in_order_witness:
  "\<exists>p p'. sqlite3RowSetInit (Some 500) = Some p \<and> rowset_run (map RowInsert [7, 2, 7, - 1]) p = Some ([], p') \<and>
    rowset_drain 4 p' = Some [- 1, 2, 7]"
proof -
  obtain p where p: "sqlite3RowSetInit (Some 500) = Some p"
    by (simp add: sqlite3RowSetInit_def)
  have vals: "set [7, 2, 7, - 1 :: i64] = set [- 1, 2, 7]"
    by auto
  have sorted: "sorted_list_of_set (set [7, 2, 7, - 1 :: i64]) = [- 1, 2, 7]"
    unfolding vals by (rule ordered_eq_list [symmetric]) simp
  have card: "Suc (card (set [7, 2, 7, - 1 :: i64])) = 4"
    unfolding vals by (subst distinct_card) simp_all
  show ?thesis
    using rowset_drains_in_order [OF p, of "[7, 2, 7, - 1]", unfolded sorted card] p by auto
qed

end
