(* ===== verification/SqliteBitvec.thy ===== *)
theory SqliteBitvec
  imports Refinement
begin

text \<open>
  The bit vectors of the SQLite library that the repository ships, the part \<^verbatim>\<open>bitvec.c\<close> of
  \<^verbatim>\<open>application/sqlite3/sqlite3.c\<close>: a set of numbers up to a fixed size, held as a plain bitmap when the size is small, as a
  hash table with linear probing when the size is large and the set small, and else as an array of bit vectors of a
  62nd of the size. The three representations and the conversion between them are shown to implement sets.
\<close>

section \<open>State\<close>

definition BITVEC_SZ :: nat where
  "BITVEC_SZ = 512"

definition BITVEC_USIZE :: nat where
  "BITVEC_USIZE = ((BITVEC_SZ - 3 * 4) div 8) * 8"

definition BITVEC_SZELEM :: nat where
  "BITVEC_SZELEM = 8"

definition BITVEC_NELEM :: nat where
  "BITVEC_NELEM = BITVEC_USIZE div 1"

definition BITVEC_NBIT :: nat where
  "BITVEC_NBIT = BITVEC_NELEM * BITVEC_SZELEM"

definition BITVEC_NINT :: nat where
  "BITVEC_NINT = BITVEC_USIZE div 4"

definition BITVEC_MXHASH :: nat where
  "BITVEC_MXHASH = BITVEC_NINT div 2"

definition BITVEC_HASH :: "nat \<Rightarrow> nat" where
  "BITVEC_HASH x = (x * 1) mod BITVEC_NINT"

definition BITVEC_NPTR :: nat where
  "BITVEC_NPTR = BITVEC_USIZE div 8"

text \<open>
  \<^verbatim>\<open>struct Bitvec\<close>, by the representation that \<^verbatim>\<open>iSize\<close> and \<^verbatim>\<open>iDivisor\<close> select in its union: \<^verbatim>\<open>aBitmap\<close>; \<^verbatim>\<open>nSet\<close> and \<^verbatim>\<open>aHash\<close>;
  \<^verbatim>\<open>iDivisor\<close> and \<^verbatim>\<open>apSub\<close>. The fields are unsigned 32-bit numbers; the one wrap-around that can happen, of the index
  \<open>0\<close> in \<^verbatim>\<open>i--\<close>, is written out.
\<close>

datatype bitvec =
    Bitmap nat "u8 list"
  | HashTable nat nat "nat list"
  | SubVectors nat nat "bitvec option list"

fun iSize :: "bitvec \<Rightarrow> nat" where
  "iSize (Bitmap s _) = s"
| "iSize (HashTable s _ _) = s"
| "iSize (SubVectors s _ _) = s"

text \<open>The zeroed structure with a size.\<close>

definition bitvec_zero :: "nat \<Rightarrow> bitvec" where
  "bitvec_zero s = (if s \<le> BITVEC_NBIT then Bitmap s (replicate BITVEC_NELEM 0) else HashTable s 0 (replicate BITVEC_NINT 0))"

definition sqlite3BitvecCreate :: "bool \<Rightarrow> nat \<Rightarrow> bitvec option" where
  "sqlite3BitvecCreate malloc_ok s = (if malloc_ok then Some (bitvec_zero s) else None)"

definition sqlite3BitvecSize :: "bitvec \<Rightarrow> nat" where
  "sqlite3BitvecSize p = iSize p"

section \<open>Testing\<close>

text \<open>
  The search from slot \<open>h\<close> on for the value \<open>i\<close> or a free slot, with a bound on the slots to visit: the loop of the code does not
  end on a full table without the value, which is \<open>None\<close>. For \<open>i = 0\<close> it is the search for a free slot.
\<close>

fun hash_probe :: "nat \<Rightarrow> nat list \<Rightarrow> nat \<Rightarrow> nat \<Rightarrow> (bool \<times> nat) option" where
  "hash_probe 0 aHash i h = None"
| "hash_probe (Suc n) aHash i h =
     (if aHash ! h = 0 then Some (False, h)
      else if aHash ! h = i then Some (True, h)
      else hash_probe n aHash i ((h + 1) mod BITVEC_NINT))"

lemma bitvec_sub_size: "k < length apSub \<Longrightarrow> apSub ! k = Some p \<Longrightarrow> size p < size_list (size_option size) apSub"
  by (rule size_list_estimation [of "Some p"]) (auto simp: in_set_conv_nth)

text \<open>The tests and updates behind \<^verbatim>\<open>i--\<close>, on an index from \<open>0\<close>. \<open>None\<close> is an access outside an array.\<close>

function bitvec_test :: "bitvec \<Rightarrow> nat \<Rightarrow> bool option" where
  "bitvec_test (Bitmap s aBitmap) i =
     (if i div BITVEC_SZELEM < length aBitmap
      then Some (aBitmap ! (i div BITVEC_SZELEM) AND push_bit (i mod BITVEC_SZELEM) 1 \<noteq> 0) else None)"
| "bitvec_test (HashTable s nSet aHash) i = map_option fst (hash_probe BITVEC_NINT aHash (i + 1) (BITVEC_HASH i))"
| "bitvec_test (SubVectors s iDivisor apSub) i =
     (let bin = i div iDivisor in
      if bin < length apSub then
        (case apSub ! bin of None \<Rightarrow> Some False | Some p \<Rightarrow> bitvec_test p (i mod iDivisor))
      else None)"
  by pat_completeness auto

termination
  by (relation "measure (\<lambda>(p, i). size p)") (auto dest!: bitvec_sub_size)

definition index_before :: "nat \<Rightarrow> nat" where
  "index_before i = (if i = 0 then 2 ^ 32 - 1 else i - 1)"

definition sqlite3BitvecTestNotNull :: "bitvec \<Rightarrow> nat \<Rightarrow> bool option" where
  "sqlite3BitvecTestNotNull p i =
     (let i = index_before i in if i \<ge> iSize p then Some False else bitvec_test p i)"

definition sqlite3BitvecTest :: "bitvec option \<Rightarrow> nat \<Rightarrow> bool option" where
  "sqlite3BitvecTest p i = (case p of None \<Rightarrow> Some False | Some p \<Rightarrow> sqlite3BitvecTestNotNull p i)"

section \<open>Setting\<close>

definition SQLITE_NOMEM :: nat where
  "SQLITE_NOMEM = 7"

text \<open>
  The call of \<^verbatim>\<open>sqlite3BitvecSet\<close> for every value of a list, with the disjunction of the return codes. \<open>malloc n\<close> says whether
  allocation number \<open>n\<close> succeeds; the number of the next one is passed along.
\<close>

fun set_values :: "(nat \<Rightarrow> bitvec \<Rightarrow> nat \<Rightarrow> (nat \<times> bitvec \<times> nat) option) \<Rightarrow> nat list \<Rightarrow> nat \<Rightarrow> nat \<Rightarrow> bitvec \<Rightarrow>
    (nat \<times> bitvec \<times> nat) option" where
  "set_values set_one [] rc n p = Some (rc, p, n)"
| "set_values set_one (v # vs) rc n p =
     Option.bind (set_one n p (v - 1)) (\<lambda>(rc', p, n). set_values set_one vs (rc OR rc') n p)"

text \<open>Behind the label \<^verbatim>\<open>bitvec_set_rehash\<close>: a table that is half full is split, else the value goes to the free slot \<open>h\<close>.\<close>

definition set_rehash :: "(nat \<Rightarrow> bool) \<Rightarrow> (nat \<Rightarrow> bitvec \<Rightarrow> nat \<Rightarrow> (nat \<times> bitvec \<times> nat) option) \<Rightarrow>
    nat \<Rightarrow> nat \<Rightarrow> nat \<Rightarrow> nat list \<Rightarrow> nat \<Rightarrow> nat \<Rightarrow> (nat \<times> bitvec \<times> nat) option" where
  "set_rehash malloc set_one n s nSet aHash i h =
     (if nSet \<ge> BITVEC_MXHASH then
        (if \<not> malloc n then Some (SQLITE_NOMEM, HashTable s nSet aHash, n + 1)
         else let aiValues = aHash;
                  p = SubVectors s ((s + BITVEC_NPTR - 1) div BITVEC_NPTR) (replicate BITVEC_NPTR None)
              in set_values set_one (i # filter (\<lambda>v. v \<noteq> 0) aiValues) 0 (n + 1) p)
      else Some (0, HashTable s (nSet + 1) (aHash[h := i]), n))"

text \<open>The first argument bounds the depth of the recursion.\<close>

primrec bitvec_set :: "nat \<Rightarrow> (nat \<Rightarrow> bool) \<Rightarrow> nat \<Rightarrow> bitvec \<Rightarrow> nat \<Rightarrow> (nat \<times> bitvec \<times> nat) option" where
  "bitvec_set 0 malloc n p i = None"
| "bitvec_set (Suc depth) malloc n p i =
     (case p of
        SubVectors s iDivisor apSub \<Rightarrow>
          (let bin = i div iDivisor; j = i mod iDivisor;
               put = (\<lambda>(rc, p, n). (rc, SubVectors s iDivisor (apSub[bin := Some p]), n))
           in if bin < length apSub then
                (case apSub ! bin of
                   Some p \<Rightarrow> map_option put (bitvec_set depth malloc n p j)
                 | None \<Rightarrow>
                     (case sqlite3BitvecCreate (malloc n) iDivisor of
                        None \<Rightarrow> Some (SQLITE_NOMEM, p, n + 1)
                      | Some p \<Rightarrow> map_option put (bitvec_set depth malloc (n + 1) p j)))
              else None)
      | Bitmap s aBitmap \<Rightarrow>
          (let k = i div BITVEC_SZELEM in
           if k < length aBitmap
           then Some (0, Bitmap s (aBitmap[k := aBitmap ! k OR push_bit (i mod BITVEC_SZELEM) 1]), n) else None)
      | HashTable s nSet aHash \<Rightarrow>
          (let h = BITVEC_HASH i; i = i + 1 in
           if aHash ! h = 0 then
             (if nSet < BITVEC_NINT - 1 then Some (0, HashTable s (nSet + 1) (aHash[h := i]), n)
              else set_rehash malloc (bitvec_set depth malloc) n s nSet aHash i h)
           else
             (case hash_probe BITVEC_NINT aHash i h of
                None \<Rightarrow> None
              | Some (True, _) \<Rightarrow> Some (0, p, n)
              | Some (False, h) \<Rightarrow> set_rehash malloc (bitvec_set depth malloc) n s nSet aHash i h)))"

text \<open>The deepest recursion that sizes below \<open>2 ^ 32\<close> allow: four splits, each with its table, and a bitmap.\<close>

definition BITVEC_DEPTH :: nat where
  "BITVEC_DEPTH = 10"

definition sqlite3BitvecSet :: "(nat \<Rightarrow> bool) \<Rightarrow> nat \<Rightarrow> bitvec option \<Rightarrow> nat \<Rightarrow> (nat \<times> bitvec option \<times> nat) option" where
  "sqlite3BitvecSet malloc n p i =
     (case p of
        None \<Rightarrow> Some (0, None, n)
      | Some p \<Rightarrow>
          if 0 < i \<and> i \<le> iSize p
          then map_option (\<lambda>(rc, p, n). (rc, Some p, n)) (bitvec_set BITVEC_DEPTH malloc n p (index_before i))
          else None)"

section \<open>Clearing\<close>

text \<open>The table built anew from the values but \<open>i\<close>.\<close>

fun rebuild :: "nat \<Rightarrow> nat list \<Rightarrow> nat \<Rightarrow> nat list \<Rightarrow> (nat \<times> nat list) option" where
  "rebuild i [] nSet aHash = Some (nSet, aHash)"
| "rebuild i (v # aiValues) nSet aHash =
     (if v \<noteq> 0 \<and> v \<noteq> i then
        Option.bind (hash_probe BITVEC_NINT aHash 0 (BITVEC_HASH (v - 1))) (\<lambda>(_, h).
        rebuild i aiValues (nSet + 1) (aHash[h := v]))
      else rebuild i aiValues nSet aHash)"

function bitvec_clear :: "bitvec \<Rightarrow> nat \<Rightarrow> bitvec option" where
  "bitvec_clear (SubVectors s iDivisor apSub) i =
     (let bin = i div iDivisor in
      if bin < length apSub then
        (case apSub ! bin of
           None \<Rightarrow> Some (SubVectors s iDivisor apSub)
         | Some p \<Rightarrow> map_option (\<lambda>p. SubVectors s iDivisor (apSub[bin := Some p])) (bitvec_clear p (i mod iDivisor)))
      else None)"
| "bitvec_clear (Bitmap s aBitmap) i =
     (let k = i div BITVEC_SZELEM in
      if k < length aBitmap
      then Some (Bitmap s (aBitmap[k := aBitmap ! k AND NOT (push_bit (i mod BITVEC_SZELEM) 1)])) else None)"
| "bitvec_clear (HashTable s nSet aHash) i =
     map_option (\<lambda>(nSet, aHash). HashTable s nSet aHash) (rebuild (i + 1) aHash 0 (replicate BITVEC_NINT 0))"
  by pat_completeness auto

termination
  by (relation "measure (\<lambda>(p, i). size p)") (auto dest!: bitvec_sub_size)

definition sqlite3BitvecClear :: "bitvec option \<Rightarrow> nat \<Rightarrow> bitvec option option" where
  "sqlite3BitvecClear p i =
     (case p of
        None \<Rightarrow> Some None
      | Some p \<Rightarrow> if 0 < i then map_option Some (bitvec_clear p (index_before i)) else None)"

section \<open>Linear probing\<close>

lemmas bitvec_sizes = BITVEC_SZ_def BITVEC_USIZE_def BITVEC_SZELEM_def BITVEC_NELEM_def BITVEC_NBIT_def BITVEC_NINT_def
  BITVEC_MXHASH_def BITVEC_NPTR_def

text \<open>
  The slot \<open>j\<close> steps behind \<open>h\<close>; a value \<open>v\<close> is in reach at \<open>h\<close> if no slot between its hash and \<open>h\<close> is free. In a good
  table every value is in reach where it is, no value is there twice, and \<open>nSet\<close> slots are used, never all.
\<close>

definition slot_at :: "nat \<Rightarrow> nat \<Rightarrow> nat" where
  "slot_at h j = (h + j) mod BITVEC_NINT"

definition in_reach :: "nat list \<Rightarrow> nat \<Rightarrow> nat \<Rightarrow> bool" where
  "in_reach t v h \<longleftrightarrow> (\<exists>j < BITVEC_NINT. h = slot_at (BITVEC_HASH (v - 1)) j \<and>
     (\<forall>j' < j. t ! slot_at (BITVEC_HASH (v - 1)) j' \<noteq> 0))"

definition used :: "nat list \<Rightarrow> nat set" where
  "used t = {h. h < BITVEC_NINT \<and> t ! h \<noteq> 0}"

definition hash_ok :: "nat \<Rightarrow> nat list \<Rightarrow> bool" where
  "hash_ok nSet t \<longleftrightarrow> length t = BITVEC_NINT \<and> nSet < BITVEC_NINT \<and> card (used t) = nSet \<and>
     (\<forall>h \<in> used t. in_reach t (t ! h) h) \<and> inj_on ((!) t) (used t)"

definition hash_values :: "nat list \<Rightarrow> nat set" where
  "hash_values t = set t - {0}"

lemma slot_less [simp]: "slot_at h j < BITVEC_NINT" "BITVEC_HASH x < BITVEC_NINT"
  by (simp_all add: slot_at_def BITVEC_HASH_def bitvec_sizes)

lemma slot_0 [simp]: "h < BITVEC_NINT \<Longrightarrow> slot_at h 0 = h"
  by (simp add: slot_at_def)

lemma slot_Suc [simp]: "slot_at (slot_at h (Suc 0)) j = slot_at h (Suc j)"
  by (simp add: slot_at_def mod_simps ac_simps)

lemma finite_used [simp]: "finite (used t)"
  by (simp add: used_def)

lemma hash_values_used: "length t = BITVEC_NINT \<Longrightarrow> hash_values t = (!) t ` used t"
  by (force simp: hash_values_def used_def in_set_conv_nth)

lemma free_slot_exists:
  assumes "card (used t) < BITVEC_NINT" "h < BITVEC_NINT"
  shows "\<exists>j < BITVEC_NINT. t ! slot_at h j = 0"
proof -
  have "\<not> {..<BITVEC_NINT} \<subseteq> used t"
    using assms(1) card_mono [OF finite_used, of "{..<BITVEC_NINT}" t] by auto
  then obtain g where g: "g < BITVEC_NINT" "t ! g = 0"
    unfolding used_def by blast
  let ?j = "(g + (BITVEC_NINT - h)) mod BITVEC_NINT"
  have "slot_at h ?j = (h + (g + (BITVEC_NINT - h))) mod BITVEC_NINT"
    by (simp add: slot_at_def mod_simps)
  also have "h + (g + (BITVEC_NINT - h)) = g + BITVEC_NINT"
    using assms(2) by simp
  finally have "slot_at h ?j = g"
    using g(1) by simp
  then show ?thesis
    using g(2) assms(2) by (intro exI [of _ ?j]) simp
qed

lemma hash_probe_cases:
  "h < BITVEC_NINT \<Longrightarrow> \<exists>j < n. t ! slot_at h j = 0 \<Longrightarrow>
    \<exists>b j. j < n \<and> hash_probe n t v h = Some (b, slot_at h j) \<and> (\<forall>j' < j. t ! slot_at h j' \<notin> {0, v}) \<and>
      (if b then t ! slot_at h j = v \<and> v \<noteq> 0 else t ! slot_at h j = 0)"
proof (induction n arbitrary: h)
  case (Suc n)
  show ?case
  proof (cases "t ! h \<in> {0, v}")
    case True
    then show ?thesis
      using Suc.prems(1) by (intro exI [of _ "t ! h \<noteq> 0"] exI [of _ 0]) auto
  next
    case False
    obtain j where j: "j < Suc n" "t ! slot_at h j = 0"
      using Suc.prems(2) by blast
    then obtain j1 where j1: "j = Suc j1"
      using False Suc.prems(1) by (cases j) auto
    have next_slot: "(h + 1) mod BITVEC_NINT = slot_at h (Suc 0)"
      by (simp add: slot_at_def)
    have "\<exists>j < n. t ! slot_at (slot_at h (Suc 0)) j = 0"
      using j by (auto simp: j1)
    then obtain b j2 where IH: "j2 < n" "hash_probe n t v (slot_at h (Suc 0)) = Some (b, slot_at h (Suc j2))"
      "\<forall>j' < j2. t ! slot_at h (Suc j') \<notin> {0, v}"
      "if b then t ! slot_at h (Suc j2) = v \<and> v \<noteq> 0 else t ! slot_at h (Suc j2) = 0"
      using Suc.IH [OF slot_less(1), of h "Suc 0"] unfolding slot_Suc by blast
    have "t ! slot_at h j' \<notin> {0, v}" if "j' < Suc j2" for j'
      using that IH(3) False Suc.prems(1) by (cases j') auto
    then show ?thesis
      using IH False by (intro exI [of _ b] exI [of _ "Suc j2"]) (simp add: next_slot [simplified])
  qed
qed simp

lemma hash_probe_home: "0 < n \<Longrightarrow> t ! h = 0 \<Longrightarrow> hash_probe n t v h = Some (False, h)"
  by (cases n) auto

text \<open>In a good table the search decides membership, and a free slot it ends at can take the value.\<close>

lemma hash_probe_ok:
  assumes "hash_ok nSet t" "v \<noteq> 0"
  shows "\<exists>h. h < BITVEC_NINT \<and> hash_probe BITVEC_NINT t v (BITVEC_HASH (v - 1)) = Some (v \<in> hash_values t, h) \<and>
    (v \<notin> hash_values t \<longrightarrow> t ! h = 0 \<and> in_reach t v h)"
proof -
  let ?s = "slot_at (BITVEC_HASH (v - 1))"
  have len: "length t = BITVEC_NINT"
    using assms(1) by (simp add: hash_ok_def)
  have "\<exists>j < BITVEC_NINT. t ! ?s j = 0"
    using assms(1) by (intro free_slot_exists) (simp_all add: hash_ok_def)
  then obtain b j where j: "j < BITVEC_NINT" "hash_probe BITVEC_NINT t v (BITVEC_HASH (v - 1)) = Some (b, ?s j)"
    "\<forall>j' < j. t ! ?s j' \<notin> {0, v}" "if b then t ! ?s j = v \<and> v \<noteq> 0 else t ! ?s j = 0"
    using hash_probe_cases [of "BITVEC_HASH (v - 1)" BITVEC_NINT t v] by auto
  have "b \<longleftrightarrow> v \<in> hash_values t"
  proof
    assume b
    then have "?s j \<in> used t" "t ! ?s j = v"
      using j(4) by (simp_all add: used_def)
    then show "v \<in> hash_values t"
      unfolding hash_values_used [OF len] by (metis imageI)
  next
    assume "v \<in> hash_values t"
    then obtain h where h: "h \<in> used t" "t ! h = v"
      by (auto simp: hash_values_used [OF len])
    then obtain k where k: "h = ?s k" "\<forall>j' < k. t ! ?s j' \<noteq> 0"
      using assms(1) by (auto simp: hash_ok_def in_reach_def)
    have "\<not> k < j"
      using j(3) h(2) k(1) by auto
    show b
    proof (rule ccontr)
      assume "\<not> b"
      then have "t ! ?s j = 0"
        using j(4) by simp
      then have "k = j"
        using k \<open>\<not> k < j\<close> by (metis linorder_neqE_nat)
      then show False
        using \<open>t ! ?s j = 0\<close> h assms(2) k(1) by simp
    qed
  qed
  moreover have "t ! ?s j = 0 \<and> in_reach t v (?s j)" if "\<not> b"
    using that j by (auto simp: in_reach_def)
  ultimately show ?thesis
    using j(2) by (intro exI [of _ "?s j"]) auto
qed

lemma hash_probe_free:
  assumes "hash_ok nSet t"
  shows "\<exists>h. h < BITVEC_NINT \<and> hash_probe BITVEC_NINT t 0 (BITVEC_HASH (v - 1)) = Some (False, h) \<and> t ! h = 0 \<and>
    in_reach t v h"
proof -
  have "\<exists>j < BITVEC_NINT. t ! slot_at (BITVEC_HASH (v - 1)) j = 0"
    using assms by (intro free_slot_exists) (simp_all add: hash_ok_def)
  then obtain b j where "j < BITVEC_NINT"
    "hash_probe BITVEC_NINT t 0 (BITVEC_HASH (v - 1)) = Some (b, slot_at (BITVEC_HASH (v - 1)) j)"
    "\<forall>j' < j. t ! slot_at (BITVEC_HASH (v - 1)) j' \<notin> {0, 0}"
    "if b then t ! slot_at (BITVEC_HASH (v - 1)) j = 0 \<and> (0 :: nat) \<noteq> 0 else t ! slot_at (BITVEC_HASH (v - 1)) j = 0"
    using hash_probe_cases [OF slot_less(2), of BITVEC_NINT t "v - 1" 0] by blast
  then show ?thesis
    by (intro exI [of _ "slot_at (BITVEC_HASH (v - 1)) j"]) (auto simp: in_reach_def split: if_splits)
qed

lemma in_reach_update: "in_reach t x h' \<Longrightarrow> v \<noteq> 0 \<Longrightarrow> in_reach (t[h := v]) x h'"
  by (cases "h < length t") (auto simp: in_reach_def nth_list_update list_update_beyond not_less)

lemma used_update: "length t = BITVEC_NINT \<Longrightarrow> h < BITVEC_NINT \<Longrightarrow> v \<noteq> 0 \<Longrightarrow> used (t[h := v]) = insert h (used t)"
  by (auto simp: used_def nth_list_update)

lemma hash_ok_insert:
  assumes "hash_ok nSet t" "h < BITVEC_NINT" "t ! h = 0" "in_reach t v h" "v \<noteq> 0" "v \<notin> hash_values t"
    "nSet < BITVEC_NINT - 1"
  shows "hash_ok (nSet + 1) (t[h := v]) \<and> hash_values (t[h := v]) = insert v (hash_values t)"
proof -
  have len: "length t = BITVEC_NINT"
    using assms(1) by (simp add: hash_ok_def)
  have new: "used (t[h := v]) = insert h (used t)" "h \<notin> used t"
    using used_update [OF len assms(2,5)] assms(3) by (simp_all add: used_def)
  have old: "t[h := v] ! k = t ! k" if "k \<in> used t" for k
    using that new(2) by (metis nth_list_update_neq)
  have here: "t[h := v] ! h = v"
    using len assms(2) by simp
  have vals: "(!) (t[h := v]) ` used (t[h := v]) = insert v (hash_values t)"
    using old here by (simp add: new(1) hash_values_used [OF len])
  have "inj_on ((!) (t[h := v])) (used (t[h := v]))"
    unfolding new(1)
  proof (rule inj_on_insert [THEN iffD2], intro conjI)
    have "inj_on ((!) t) (used t)"
      using assms(1) by (simp add: hash_ok_def)
    then show "inj_on ((!) (t[h := v])) (used t)"
      using old by (simp add: inj_on_def)
    show "t[h := v] ! h \<notin> (!) (t[h := v]) ` (used t - {h})"
      using assms(6) old by (auto simp: here hash_values_used [OF len])
  qed
  moreover have "in_reach (t[h := v]) (t[h := v] ! k) k" if "k \<in> used (t[h := v])" for k
    using that old here assms(1,4,5) in_reach_update [of t _ k v h] by (auto simp: new(1) hash_ok_def)
  moreover have "card (used (t[h := v])) = nSet + 1"
    using assms(1) by (simp add: new hash_ok_def)
  ultimately have "hash_ok (nSet + 1) (t[h := v])"
    using len assms(7) by (simp add: hash_ok_def)
  then show ?thesis
    using vals hash_values_used [of "t[h := v]"] len by simp
qed

lemma hash_ok_empty: "hash_ok 0 (replicate BITVEC_NINT 0)" "hash_values (replicate BITVEC_NINT 0) = {}"
proof -
  have "used (replicate BITVEC_NINT 0) = {}"
    by (auto simp: used_def)
  then show "hash_ok 0 (replicate BITVEC_NINT 0)"
    by (simp add: hash_ok_def bitvec_sizes)
qed (auto simp: hash_values_def)

section \<open>Well-formed bit vectors\<close>

inductive bitvec_ok :: "bitvec \<Rightarrow> bool" where
  ok_Bitmap: "s \<le> BITVEC_NBIT \<Longrightarrow> length aBitmap = BITVEC_NELEM \<Longrightarrow> bitvec_ok (Bitmap s aBitmap)"
| ok_HashTable: "BITVEC_NBIT < s \<Longrightarrow> hash_ok nSet aHash \<Longrightarrow> hash_values aHash \<subseteq> {1..s} \<Longrightarrow> bitvec_ok (HashTable s nSet aHash)"
| ok_SubVectors: "BITVEC_NBIT < s \<Longrightarrow> iDivisor = (s + BITVEC_NPTR - 1) div BITVEC_NPTR \<Longrightarrow> length apSub = BITVEC_NPTR \<Longrightarrow>
    \<forall>k < BITVEC_NPTR. \<forall>p. apSub ! k = Some p \<longrightarrow> bitvec_ok p \<and> iSize p = iDivisor \<Longrightarrow>
    bitvec_ok (SubVectors s iDivisor apSub)"

inductive_simps bitvec_ok_simps: "bitvec_ok (Bitmap s aBitmap)" "bitvec_ok (HashTable s nSet aHash)"
  "bitvec_ok (SubVectors s iDivisor apSub)"

lemma bitvec_ok_zero [simp]: "bitvec_ok (bitvec_zero s)" "iSize (bitvec_zero s) = s"
  by (auto simp: bitvec_zero_def bitvec_ok_simps hash_ok_empty)

text \<open>The members of a bit vector, counted from \<open>0\<close>.\<close>

definition bitvec_has :: "bitvec \<Rightarrow> nat \<Rightarrow> bool" where
  "bitvec_has p i \<longleftrightarrow> bitvec_test p i = Some True"

lemma has_Bitmap:
  assumes "length aBitmap = BITVEC_NELEM" "i < BITVEC_NBIT"
  shows "bitvec_has (Bitmap s aBitmap) i \<longleftrightarrow> bit (aBitmap ! (i div 8)) (i mod 8)"
    "bitvec_test (Bitmap s aBitmap) i \<noteq> None"
proof -
  have len: "i div 8 < length aBitmap"
    using assms by (simp add: bitvec_sizes)
  then show "bitvec_has (Bitmap s aBitmap) i \<longleftrightarrow> bit (aBitmap ! (i div 8)) (i mod 8)"
    "bitvec_test (Bitmap s aBitmap) i \<noteq> None"
    by (simp_all add: bitvec_has_def BITVEC_SZELEM_def bit_iff_and_push_bit_not_eq_0)
qed

lemma has_HashTable:
  assumes "hash_ok nSet aHash"
  shows "bitvec_has (HashTable s nSet aHash) i \<longleftrightarrow> i + 1 \<in> hash_values aHash"
    "bitvec_test (HashTable s nSet aHash) i \<noteq> None"
  using hash_probe_ok [OF assms, of "i + 1"] by (auto simp: bitvec_has_def)

lemma has_SubVectors:
  assumes "i div iDivisor < length apSub"
  shows "bitvec_has (SubVectors s iDivisor apSub) i \<longleftrightarrow>
    (\<exists>p. apSub ! (i div iDivisor) = Some p \<and> bitvec_has p (i mod iDivisor))"
  using assms by (auto simp: bitvec_has_def Let_def split: option.splits)

lemma has_zero: "i < s \<Longrightarrow> \<not> bitvec_has (bitvec_zero s) i"
  by (cases "s \<le> BITVEC_NBIT")
     (simp_all add: bitvec_zero_def has_Bitmap has_HashTable [OF hash_ok_empty(1)] hash_ok_empty(2),
      simp add: bitvec_sizes)

text \<open>An index below the size finds its part, and its index in the part is below the size of the part.\<close>

lemma sub_index:
  assumes "i < s" "iDivisor = (s + BITVEC_NPTR - 1) div BITVEC_NPTR"
  shows "i div iDivisor < BITVEC_NPTR" "i mod iDivisor < iDivisor" "0 < iDivisor"
proof -
  have d: "s \<le> iDivisor * 62" "0 < iDivisor"
    using assms by (simp_all add: bitvec_sizes)
  show "i mod iDivisor < iDivisor" "0 < iDivisor"
    using d(2) by simp_all
  show "i div iDivisor < BITVEC_NPTR"
    using d assms(1) by (simp add: bitvec_sizes less_mult_imp_div_less mult.commute)
qed

lemma bitvec_test_total: "bitvec_ok p \<Longrightarrow> i < iSize p \<Longrightarrow> bitvec_test p i \<noteq> None"
proof (induction p arbitrary: i rule: bitvec_ok.induct)
  case (ok_SubVectors s iDivisor apSub)
  then have "i div iDivisor < length apSub" "i mod iDivisor < iDivisor"
    using sub_index [of i s iDivisor] by auto
  then show ?case
    using ok_SubVectors.IH ok_SubVectors.hyps by (auto simp: Let_def split: option.splits)
qed (use has_Bitmap(2) has_HashTable(2) in force)+

section \<open>Setting a bit\<close>

lemma bit_set_iff: "i mod 8 = k \<Longrightarrow> (j :: nat) mod 8 = k' \<Longrightarrow> bit ((x :: u8) OR push_bit k 1) k' \<longleftrightarrow> k' = k \<or> bit x k'"
  by (auto simp: bit_simps)

lemma set_Bitmap:
  assumes "length aBitmap = BITVEC_NELEM" "i < BITVEC_NBIT" "j < BITVEC_NBIT"
  shows "bitvec_has (Bitmap s (aBitmap[i div 8 := aBitmap ! (i div 8) OR push_bit (i mod 8) 1])) j \<longleftrightarrow>
    j = i \<or> bitvec_has (Bitmap s aBitmap) j"
proof (cases "i div 8 = j div 8")
  case True
  then have "j mod 8 = i mod 8 \<longleftrightarrow> j = i"
    by (metis div_mult_mod_eq)
  moreover have "i div 8 < length aBitmap"
    using assms by (simp add: bitvec_sizes)
  ultimately show ?thesis
    using assms True bit_set_iff [of i _ j _ "aBitmap ! (j div 8)"] by (auto simp: has_Bitmap)
qed (use assms in \<open>auto simp: has_Bitmap\<close>)

lemma set_SubVectors:
  assumes "length apSub = BITVEC_NPTR" "i < s" "j < s" "iDivisor = (s + BITVEC_NPTR - 1) div BITVEC_NPTR"
    "\<And>k. k < iDivisor \<Longrightarrow> bitvec_has p k \<longleftrightarrow> k = i mod iDivisor \<or> (\<exists>p'. apSub ! (i div iDivisor) = Some p' \<and> bitvec_has p' k)"
  shows "bitvec_has (SubVectors s iDivisor (apSub[i div iDivisor := Some p])) j \<longleftrightarrow>
    j = i \<or> bitvec_has (SubVectors s iDivisor apSub) j"
proof -
  note bin = sub_index [OF assms(2,4)] sub_index [OF assms(3,4)]
  have "j mod iDivisor = i mod iDivisor \<longleftrightarrow> j = i" if "i div iDivisor = j div iDivisor"
    using that by (metis div_mult_mod_eq)
  then show ?thesis
    using bin assms(1,5) by (cases "i div iDivisor = j div iDivisor") (auto simp: has_SubVectors)
qed

text \<open>
  What setting bit \<open>i\<close> of \<open>p\<close> promises, whatever allocations fail: the vector stays well formed; when the return code reports success,
  the members are the old ones and \<open>i\<close>; and it reports success when there is memory.
\<close>

definition sets_bit :: "(nat \<Rightarrow> bool) \<Rightarrow> bitvec \<Rightarrow> nat \<Rightarrow> nat \<times> bitvec \<times> nat \<Rightarrow> bool" where
  "sets_bit malloc p i = (\<lambda>(rc, p', n). bitvec_ok p' \<and> iSize p' = iSize p \<and>
     (rc = 0 \<longrightarrow> (\<forall>j < iSize p. bitvec_has p' j \<longleftrightarrow> j = i \<or> bitvec_has p j)) \<and> ((\<forall>k. malloc k) \<longrightarrow> rc = 0))"

definition bit_setter :: "(nat \<Rightarrow> bool) \<Rightarrow> (nat \<Rightarrow> bitvec \<Rightarrow> nat \<Rightarrow> (nat \<times> bitvec \<times> nat) option) \<Rightarrow> bool" where
  "bit_setter malloc set_one \<longleftrightarrow>
     (\<forall>n p i out. set_one n p i = Some out \<longrightarrow> bitvec_ok p \<longrightarrow> i < iSize p \<longrightarrow> sets_bit malloc p i out)"

lemma nat_or_0: "(a :: nat) OR b = 0 \<longleftrightarrow> a = 0 \<and> b = 0"
  by (auto simp: bit_eq_iff bit_simps)

lemma set_values_sets:
  assumes "bit_setter malloc set_one"
  shows "set_values set_one vs rc n p = Some (rc', p', n') \<Longrightarrow> bitvec_ok p \<Longrightarrow> set vs \<subseteq> {1..iSize p} \<Longrightarrow>
    bitvec_ok p' \<and> iSize p' = iSize p \<and>
    (rc' = 0 \<longrightarrow> rc = 0 \<and> (\<forall>j < iSize p. bitvec_has p' j \<longleftrightarrow> j + 1 \<in> set vs \<or> bitvec_has p j)) \<and>
    ((\<forall>k. malloc k) \<longrightarrow> rc = 0 \<longrightarrow> rc' = 0)"
proof (induction vs arbitrary: rc n p)
  case (Cons v vs)
  then obtain rc1 p1 n1 where first: "set_one n p (v - 1) = Some (rc1, p1, n1)"
    "set_values set_one vs (rc OR rc1) n1 p1 = Some (rc', p', n')"
    by (auto split: bind_splits)
  have "v - 1 < iSize p"
    using Cons.prems(3) by auto
  then have "sets_bit malloc p (v - 1) (rc1, p1, n1)"
    using assms first(1) Cons.prems(2) unfolding bit_setter_def by blast
  then have p1: "bitvec_ok p1" "iSize p1 = iSize p"
    "rc1 = 0 \<longrightarrow> (\<forall>j < iSize p. bitvec_has p1 j \<longleftrightarrow> j = v - 1 \<or> bitvec_has p j)" "(\<forall>k. malloc k) \<longrightarrow> rc1 = 0"
    by (simp_all add: sets_bit_def)
  have "j = v - 1 \<longleftrightarrow> j + 1 = v" for j
    using Cons.prems(3) by auto
  then show ?case
    using Cons.IH [OF first(2) p1(1)] Cons.prems(3) p1(2-4) by (auto simp: nat_or_0)
qed auto

lemma bitvec_ok_empty_sub:
  "BITVEC_NBIT < s \<Longrightarrow> bitvec_ok (SubVectors s ((s + BITVEC_NPTR - 1) div BITVEC_NPTR) (replicate BITVEC_NPTR None))"
  by (simp add: bitvec_ok_simps)

lemma has_empty_sub:
  "j < s \<Longrightarrow> \<not> bitvec_has (SubVectors s ((s + BITVEC_NPTR - 1) div BITVEC_NPTR) (replicate BITVEC_NPTR None)) j"
  using sub_index [of j s] by (simp add: has_SubVectors)

lemma set_HashTable:
  assumes "hash_ok nSet t" "BITVEC_NBIT < s" "hash_values t \<subseteq> {1..s}" "i < s" "h < BITVEC_NINT" "t ! h = 0" "in_reach t (i + 1) h"
    "i + 1 \<notin> hash_values t" "nSet < BITVEC_NINT - 1"
  shows "sets_bit malloc (HashTable s nSet t) i (0, HashTable s (nSet + 1) (t[h := i + 1]), n)"
proof -
  note ins = hash_ok_insert [OF assms(1,5,6,7) _ assms(8,9)]
  have "hash_ok (nSet + 1) (t[h := i + 1])" "hash_values (t[h := i + 1]) = insert (i + 1) (hash_values t)"
    using ins by auto
  then show ?thesis
    using assms(1-4) has_HashTable(1) by (auto simp: sets_bit_def bitvec_ok_simps)
qed

lemma set_rehash_sets:
  assumes out: "set_rehash malloc set_one n s nSet t (i + 1) h = Some out" and setter: "bit_setter malloc set_one"
    and ok: "hash_ok nSet t" "BITVEC_NBIT < s" "hash_values t \<subseteq> {1..s}" "i < s"
    and free: "h < BITVEC_NINT" "t ! h = 0" "in_reach t (i + 1) h" "i + 1 \<notin> hash_values t"
  shows "sets_bit malloc (HashTable s nSet t) i out"
proof (cases "nSet \<ge> BITVEC_MXHASH")
  case False
  then have "out = (0, HashTable s (nSet + 1) (t[h := i + 1]), n)" "nSet < BITVEC_NINT - 1"
    using out by (auto simp: set_rehash_def bitvec_sizes)
  then show ?thesis
    using set_HashTable [OF ok free] by simp
next
  case True
  let ?p = "SubVectors s ((s + BITVEC_NPTR - 1) div BITVEC_NPTR) (replicate BITVEC_NPTR None)"
  let ?vs = "(i + 1) # filter (\<lambda>v. v \<noteq> 0) t"
  show ?thesis
  proof (cases "malloc n")
    case True
    then obtain rc p' n' where p': "out = (rc, p', n')" "set_values set_one ?vs 0 (n + 1) ?p = Some (rc, p', n')"
      using out \<open>nSet \<ge> BITVEC_MXHASH\<close> by (cases out) (simp add: set_rehash_def Let_def)
    have vs: "set ?vs = insert (i + 1) (hash_values t)"
      by (auto simp: hash_values_def)
    have "bitvec_ok p' \<and> iSize p' = s \<and>
      (rc = 0 \<longrightarrow> (\<forall>j < s. bitvec_has p' j \<longleftrightarrow> j + 1 \<in> set ?vs \<or> bitvec_has ?p j)) \<and> ((\<forall>k. malloc k) \<longrightarrow> rc = 0)"
      using set_values_sets [OF setter p'(2) bitvec_ok_empty_sub [OF ok(2)]] ok(3,4) unfolding vs by simp
    then show ?thesis
      unfolding vs using has_empty_sub [of _ s] has_HashTable(1) [OF ok(1)] by (auto simp: sets_bit_def p'(1))
  next
    case False
    then show ?thesis
      using out \<open>nSet \<ge> BITVEC_MXHASH\<close> ok by (auto simp: set_rehash_def SQLITE_NOMEM_def sets_bit_def bitvec_ok_simps)
  qed
qed

lemma bitvec_set_sets: "bit_setter malloc (bitvec_set depth malloc)"
proof (induction depth)
  case 0
  then show ?case by (simp add: bit_setter_def)
next
  case (Suc depth)
  show ?case
    unfolding bit_setter_def
  proof (intro allI impI)
    fix n p i out
    assume set: "bitvec_set (Suc depth) malloc n p i = Some out" and ok: "bitvec_ok p" and i: "i < iSize p"
    show "sets_bit malloc p i out"
    proof (cases p)
      case (Bitmap s aBitmap)
      then have b: "s \<le> BITVEC_NBIT" "length aBitmap = BITVEC_NELEM"
        using ok by (simp_all add: bitvec_ok_simps)
      then show ?thesis
        using set i set_Bitmap [OF b(2)]
        by (auto simp: Bitmap sets_bit_def bitvec_ok_simps Let_def BITVEC_SZELEM_def split: if_splits)
    next
      case (HashTable s nSet t)
      have t: "hash_ok nSet t" "BITVEC_NBIT < s" "hash_values t \<subseteq> {1..s}" "i < s"
        using ok i by (simp_all add: HashTable bitvec_ok_simps)
      obtain h where h: "h < BITVEC_NINT" "hash_probe BITVEC_NINT t (i + 1) (BITVEC_HASH i) = Some (i + 1 \<in> hash_values t, h)"
        "i + 1 \<notin> hash_values t \<Longrightarrow> t ! h = 0 \<and> in_reach t (i + 1) h"
        using hash_probe_ok [OF t(1), of "i + 1"] by auto
      have home: "h = BITVEC_HASH i \<and> i + 1 \<notin> hash_values t" if "t ! BITVEC_HASH i = 0"
        using hash_probe_home [OF _ that, of BITVEC_NINT "i + 1"] h(2) by (simp add: bitvec_sizes)
      show ?thesis
      proof (cases "i + 1 \<in> hash_values t")
        case True
        then have "out = (0, p, n)"
          using set home h(2) by (cases "t ! BITVEC_HASH i = 0") (auto simp: HashTable Let_def)
        then show ?thesis
          using True ok has_HashTable(1) [OF t(1)] by (auto simp: sets_bit_def HashTable)
      next
        case False
        note free = h(1) conjunct1 [OF h(3) [OF False]] conjunct2 [OF h(3) [OF False]] False
        consider "nSet < BITVEC_NINT - 1" "out = (0, HashTable s (nSet + 1) (t[h := i + 1]), n)"
          | "set_rehash malloc (bitvec_set depth malloc) n s nSet t (i + 1) h = Some out"
          using set home h(2) False by (cases "t ! BITVEC_HASH i = 0") (auto simp: HashTable Let_def split: if_splits)
        then show ?thesis
          by cases (use set_HashTable [OF t(1-4) free] set_rehash_sets [OF _ Suc t free] in \<open>simp_all add: HashTable\<close>)
      qed
    next
      case (SubVectors s d apSub)
      have subs: "BITVEC_NBIT < s" "d = (s + BITVEC_NPTR - 1) div BITVEC_NPTR" "length apSub = BITVEC_NPTR" "i < s"
        "\<And>k q. k < BITVEC_NPTR \<Longrightarrow> apSub ! k = Some q \<Longrightarrow> bitvec_ok q \<and> iSize q = d"
        using ok i by (simp_all add: SubVectors bitvec_ok_simps)
      note bin = sub_index [OF subs(4,2)]
      have put: "sets_bit malloc p i (rc, SubVectors s d (apSub[i div d := Some q']), n')"
        if "sets_bit malloc q (i mod d) (rc, q', n')" "bitvec_ok q" "iSize q = d"
          "\<And>k. k < d \<Longrightarrow> bitvec_has q k \<longleftrightarrow> (\<exists>p'. apSub ! (i div d) = Some p' \<and> bitvec_has p' k)" for q rc q' n'
        using that set_SubVectors [OF subs(3,4) _ subs(2), of _ q'] subs(1-3,5) bin
        by (auto simp: sets_bit_def SubVectors bitvec_ok_simps nth_list_update)
      show ?thesis
      proof (cases "apSub ! (i div d)")
        case (Some q)
        have q: "bitvec_ok q" "iSize q = d"
          using subs(5) [OF bin(1) Some] by simp_all
        obtain rc q' n' where q': "bitvec_set depth malloc n q (i mod d) = Some (rc, q', n')"
          "out = (rc, SubVectors s d (apSub[i div d := Some q']), n')"
          using set bin(1) subs(3) Some by (auto simp: SubVectors Let_def)
        have "sets_bit malloc q (i mod d) (rc, q', n')"
          using Suc q'(1) q bin(2) by (simp add: bit_setter_def)
        then show ?thesis
          using put [OF _ q] by (simp add: q'(2) Some)
      next
        case None
        show ?thesis
        proof (cases "malloc n")
          case True
          obtain rc q' n' where q': "bitvec_set depth malloc (n + 1) (bitvec_zero d) (i mod d) = Some (rc, q', n')"
            "out = (rc, SubVectors s d (apSub[i div d := Some q']), n')"
            using set bin(1) subs(3) None True by (auto simp: SubVectors Let_def sqlite3BitvecCreate_def)
          have "sets_bit malloc (bitvec_zero d) (i mod d) (rc, q', n')"
            using Suc q'(1) bin(2) by (simp add: bit_setter_def)
          then show ?thesis
            using put [of "bitvec_zero d"] by (simp add: q'(2) None has_zero)
        next
          case False
          then have "out = (SQLITE_NOMEM, p, n + 1)"
            using set bin(1) subs(3) None by (auto simp: SubVectors Let_def sqlite3BitvecCreate_def)
          then show ?thesis
            using False ok by (auto simp: sets_bit_def SQLITE_NOMEM_def)
        qed
      qed
    qed
  qed
qed

section \<open>The depth of the recursion\<close>

text \<open>How often a size can be split before a bitmap holds it.\<close>

function levels :: "nat \<Rightarrow> nat" where
  "levels s = (if s \<le> BITVEC_NBIT then 0 else Suc (levels ((s + BITVEC_NPTR - 1) div BITVEC_NPTR)))"
  by auto
termination
  by (relation "measure id") (auto simp: bitvec_sizes)

declare levels.simps [simp del]

lemma levels_step: "s \<le> 62 * b \<Longrightarrow> (\<And>s. s \<le> b \<Longrightarrow> levels s \<le> n) \<Longrightarrow> levels s \<le> Suc n"
  by (subst levels.simps) (simp add: bitvec_sizes)

lemma levels_32:
  assumes "s < 2 ^ 32"
  shows "levels s \<le> 4"
proof -
  have l0: "levels s \<le> 0" if "s \<le> 3968" for s
    using that by (subst levels.simps) (simp add: bitvec_sizes)
  have l1: "levels s \<le> Suc 0" if "s \<le> 246016" for s
    by (rule levels_step [of s 3968 "0"]) (use that l0 in simp_all)
  have l2: "levels s \<le> Suc (Suc 0)" if "s \<le> 15252992" for s
    by (rule levels_step [of s 246016 "Suc 0"]) (use that l1 in simp_all)
  have l3: "levels s \<le> Suc (Suc (Suc 0))" if "s \<le> 945685504" for s
    by (rule levels_step [of s 15252992 "Suc (Suc 0)"]) (use that l2 in simp_all)
  have "levels s \<le> Suc (Suc (Suc (Suc 0)))"
    by (rule levels_step [of s 945685504 "Suc (Suc (Suc 0))"]) (use assms l3 in simp_all)
  then show ?thesis by simp
qed

text \<open>Splitting a table counts as a step of its own.\<close>

fun bitvec_rank :: "bitvec \<Rightarrow> nat" where
  "bitvec_rank (HashTable s _ _) = Suc (2 * levels s)"
| "bitvec_rank p = 2 * levels (iSize p)"

lemma bitvec_rank_le: "bitvec_rank p \<le> Suc (2 * levels (iSize p))"
  by (cases p) auto

lemma set_values_total:
  assumes "bit_setter malloc set_one" "\<And>n p i. bitvec_ok p \<Longrightarrow> iSize p = s \<Longrightarrow> sub_like p \<Longrightarrow> i < s \<Longrightarrow> set_one n p i \<noteq> None"
    "\<And>n p i rc p' n'. set_one n p i = Some (rc, p', n') \<Longrightarrow> sub_like p \<Longrightarrow> sub_like p'"
  shows "bitvec_ok p \<Longrightarrow> iSize p = s \<Longrightarrow> sub_like p \<Longrightarrow> set vs \<subseteq> {1..s} \<Longrightarrow> set_values set_one vs rc n p \<noteq> None"
proof (induction vs arbitrary: rc n p)
  case (Cons v vs)
  have v: "v - 1 < s"
    using Cons.prems(4) by auto
  then obtain rc1 p1 n1 where first: "set_one n p (v - 1) = Some (rc1, p1, n1)"
    using assms(2) [OF Cons.prems(1-3)] by fastforce
  then have "sets_bit malloc p (v - 1) (rc1, p1, n1)"
    using assms(1) v Cons.prems(1,2) unfolding bit_setter_def by blast
  then show ?case
    using Cons.IH [of p1] assms(3) [OF first] Cons.prems first by (simp add: sets_bit_def)
qed simp

fun is_sub :: "bitvec \<Rightarrow> bool" where
  "is_sub (SubVectors _ _ _) = True"
| "is_sub _ = False"

lemma bitvec_set_is_sub: "bitvec_set depth malloc n p i = Some (rc, p', n') \<Longrightarrow> is_sub p \<Longrightarrow> is_sub p'"
  by (cases depth; cases p) (auto simp: Let_def split: if_splits option.splits)

lemma rank_is_sub: "is_sub p \<Longrightarrow> bitvec_rank p = 2 * levels (iSize p)"
  by (cases p) auto

lemma bitvec_set_total:
  "bitvec_rank p < depth \<Longrightarrow> bitvec_ok p \<Longrightarrow> i < iSize p \<Longrightarrow> bitvec_set depth malloc n p i \<noteq> None"
proof (induction depth arbitrary: p i n)
  case (Suc depth)
  show ?case
  proof (cases p)
    case (Bitmap s aBitmap)
    then show ?thesis
      using Suc.prems(2,3) by (auto simp: bitvec_ok_simps bitvec_sizes Let_def)
  next
    case (HashTable s nSet t)
    have t: "hash_ok nSet t" "BITVEC_NBIT < s" "hash_values t \<subseteq> {1..s}" "i < s"
      using Suc.prems(2,3) by (simp_all add: HashTable bitvec_ok_simps)
    let ?p = "SubVectors s ((s + BITVEC_NPTR - 1) div BITVEC_NPTR) (replicate BITVEC_NPTR None)"
    have "set_values (bitvec_set depth malloc) ((i + 1) # filter (\<lambda>v. v \<noteq> 0) t) rc n ?p \<noteq> None" for rc n
    proof (rule set_values_total [where s = s and sub_like = is_sub])
      show "bitvec_set depth malloc n q k \<noteq> None" if "bitvec_ok q" "iSize q = s" "is_sub q" "k < s" for n q k
        using Suc.IH [OF _ that(1)] Suc.prems(1) that rank_is_sub [OF that(3)] by (simp add: HashTable)
      show "set ((i + 1) # filter (\<lambda>v. v \<noteq> 0) t) \<subseteq> {1..s}"
        using t(3,4) by (auto simp: hash_values_def)
    qed (use t(2) bitvec_set_sets bitvec_set_is_sub bitvec_ok_empty_sub in auto)
    then show ?thesis
      using hash_probe_ok [OF t(1), of "i + 1"]
      by (auto simp: HashTable Let_def set_rehash_def simp del: set_values.simps split: bool.splits)
  next
    case (SubVectors s d apSub)
    have subs: "BITVEC_NBIT < s" "d = (s + BITVEC_NPTR - 1) div BITVEC_NPTR" "length apSub = BITVEC_NPTR" "i < s"
      "\<And>k q. k < BITVEC_NPTR \<Longrightarrow> apSub ! k = Some q \<Longrightarrow> bitvec_ok q \<and> iSize q = d"
      using Suc.prems(2,3) by (simp_all add: SubVectors bitvec_ok_simps)
    note bin = sub_index [OF subs(4,2)]
    have "levels s = Suc (levels d)"
      using subs(1) by (subst levels.simps) (simp add: subs(2))
    then have part: "bitvec_set depth malloc n q (i mod d) \<noteq> None" if "bitvec_ok q" "iSize q = d" for n q
      using Suc.IH [OF _ that(1)] Suc.prems(1) that(2) bin(2) bitvec_rank_le [of q] by (simp add: SubVectors)
    show ?thesis
    proof (cases "apSub ! (i div d)")
      case None
      then show ?thesis
        using bin(1) subs(3) part [of "bitvec_zero d" "n + 1"] by (auto simp: SubVectors Let_def sqlite3BitvecCreate_def)
    next
      case (Some q)
      then show ?thesis
        using bin(1) subs(3) part [of q n] subs(5) [OF bin(1) Some] by (auto simp: SubVectors Let_def)
    qed
  qed
qed simp

section \<open>Clearing a bit\<close>

lemma rebuild_keeps:
  assumes "hash_ok nSet t" "\<forall>v \<in> set vs. v \<noteq> 0 \<longrightarrow> v \<notin> hash_values t" "distinct (filter (\<lambda>v. v \<noteq> 0) vs)"
    "nSet + length (filter (\<lambda>v. v \<noteq> 0) vs) < BITVEC_NINT"
  shows "\<exists>nSet' t'. rebuild i vs nSet t = Some (nSet', t') \<and> hash_ok nSet' t' \<and>
    hash_values t' = hash_values t \<union> (set vs - {0, i})"
  using assms
proof (induction vs arbitrary: nSet t)
  case (Cons v vs)
  show ?case
  proof (cases "v \<noteq> 0 \<and> v \<noteq> i")
    case True
    obtain h where h: "h < BITVEC_NINT" "hash_probe BITVEC_NINT t 0 (BITVEC_HASH (v - 1)) = Some (False, h)" "t ! h = 0"
      "in_reach t v h"
      using hash_probe_free [OF Cons.prems(1)] by blast
    have ins: "hash_ok (nSet + 1) (t[h := v])" "hash_values (t[h := v]) = insert v (hash_values t)"
      using hash_ok_insert [OF Cons.prems(1) h(1,3,4), of] True Cons.prems(2,4) by auto
    have "\<exists>nSet' t'. rebuild i vs (nSet + 1) (t[h := v]) = Some (nSet', t') \<and> hash_ok nSet' t' \<and>
      hash_values t' = hash_values (t[h := v]) \<union> (set vs - {0, i})"
      by (rule Cons.IH [OF ins(1)]) (use Cons.prems True ins(2) in auto)
    then show ?thesis
      using True h(2) ins(2) by auto
  next
    case False
    then show ?thesis
      using Cons.IH [OF Cons.prems(1)] Cons.prems(2-4) by (auto split: if_splits)
  qed
qed simp

lemma hash_ok_list:
  assumes "hash_ok nSet t"
  shows "distinct (filter (\<lambda>v. v \<noteq> 0) t)" "length (filter (\<lambda>v. v \<noteq> 0) t) = nSet"
proof -
  have len: "length t = BITVEC_NINT" "card (used t) = nSet" "inj_on ((!) t) (used t)"
    using assms by (simp_all add: hash_ok_def)
  have used: "used t = {k. k < length t \<and> t ! k \<noteq> 0}"
    by (simp add: used_def len(1))
  then show n: "length (filter (\<lambda>v. v \<noteq> 0) t) = nSet"
    using len(2) by (simp add: length_filter_conv_card)
  have "set (filter (\<lambda>v. v \<noteq> 0) t) = (!) t ` used t"
    using hash_values_used [OF len(1)] by (auto simp: hash_values_def)
  then have "card (set (filter (\<lambda>v. v \<noteq> 0) t)) = card ((!) t ` used t)"
    by simp
  also have "\<dots> = length (filter (\<lambda>v. v \<noteq> 0) t)"
    using card_image [OF len(3)] n len(2) by simp
  finally show "distinct (filter (\<lambda>v. v \<noteq> 0) t)"
    by (rule card_distinct)
qed

lemma clear_Bitmap:
  assumes "length aBitmap = BITVEC_NELEM" "i < BITVEC_NBIT" "j < BITVEC_NBIT"
  shows "bitvec_has (Bitmap s (aBitmap[i div 8 := aBitmap ! (i div 8) AND NOT (push_bit (i mod 8) 1)])) j \<longleftrightarrow>
    j \<noteq> i \<and> bitvec_has (Bitmap s aBitmap) j"
proof (cases "i div 8 = j div 8")
  case True
  then have "j mod 8 = i mod 8 \<longleftrightarrow> j = i"
    by (metis div_mult_mod_eq)
  moreover have "i div 8 < length aBitmap"
    using assms by (simp add: bitvec_sizes)
  ultimately show ?thesis
    using assms True by (auto simp: has_Bitmap bit_simps)
qed (use assms in \<open>auto simp: has_Bitmap\<close>)

lemma bitvec_clear_clears:
  "bitvec_ok p \<Longrightarrow> i < iSize p \<Longrightarrow> \<exists>p'. bitvec_clear p i = Some p' \<and> bitvec_ok p' \<and> iSize p' = iSize p \<and>
    (\<forall>j < iSize p. bitvec_has p' j \<longleftrightarrow> j \<noteq> i \<and> bitvec_has p j)"
proof (induction p arbitrary: i rule: bitvec_ok.induct)
  case (ok_Bitmap s aBitmap)
  then show ?case
    using clear_Bitmap [OF ok_Bitmap.hyps(2)] by (auto simp: Let_def BITVEC_SZELEM_def bitvec_ok_simps bitvec_sizes)
next
  case (ok_HashTable s nSet t)
  have "\<exists>nSet' t'. rebuild (i + 1) t 0 (replicate BITVEC_NINT 0) = Some (nSet', t') \<and> hash_ok nSet' t' \<and>
    hash_values t' = hash_values (replicate BITVEC_NINT 0) \<union> (set t - {0, i + 1})"
    by (rule rebuild_keeps [OF hash_ok_empty(1)])
       (use hash_ok_list [OF ok_HashTable.hyps(2)] ok_HashTable.hyps(2) in \<open>auto simp: hash_ok_empty(2) hash_ok_def\<close>)
  then obtain nSet' t' where "rebuild (i + 1) t 0 (replicate BITVEC_NINT 0) = Some (nSet', t')" "hash_ok nSet' t'"
    "hash_values t' = set t - {0, i + 1}"
    unfolding hash_ok_empty(2) by blast
  moreover have "set t - {0, i + 1} = hash_values t - {i + 1}"
    by (auto simp: hash_values_def)
  ultimately have t': "rebuild (i + 1) t 0 (replicate BITVEC_NINT 0) = Some (nSet', t')" "hash_ok nSet' t'"
    "hash_values t' = hash_values t - {i + 1}"
    by simp_all
  then show ?case
    using ok_HashTable.hyps has_HashTable(1) by (auto simp: bitvec_ok_simps)
next
  case (ok_SubVectors s d apSub)
  note bin = sub_index [of i s d]
  show ?case
  proof (cases "apSub ! (i div d)")
    case None
    have "\<not> bitvec_has (SubVectors s d apSub) i"
      using None bin ok_SubVectors.prems ok_SubVectors.hyps by (simp add: has_SubVectors)
    then show ?thesis
      using None bin ok_SubVectors by (auto simp: bitvec_ok_simps Let_def)
  next
    case (Some q)
    have q: "bitvec_ok q" "iSize q = d" "i div d < BITVEC_NPTR" "i mod d < d"
      using bin ok_SubVectors Some by auto
    obtain q' where q': "bitvec_clear q (i mod d) = Some q'" "bitvec_ok q'" "iSize q' = d"
      "\<And>j. j < d \<Longrightarrow> bitvec_has q' j \<longleftrightarrow> j \<noteq> i mod d \<and> bitvec_has q j"
      using ok_SubVectors.IH q Some by metis
    have "bitvec_has (SubVectors s d (apSub[i div d := Some q'])) j \<longleftrightarrow> j \<noteq> i \<and> bitvec_has (SubVectors s d apSub) j"
      if "j < s" for j
    proof -
      note binj = sub_index [OF that ok_SubVectors.hyps(2)]
      have "j mod d = i mod d \<longleftrightarrow> j = i" if "i div d = j div d"
        using that by (metis div_mult_mod_eq)
      then show ?thesis
        using binj q(3) q'(4) Some ok_SubVectors.hyps(3) by (cases "i div d = j div d") (auto simp: has_SubVectors)
    qed
    then show ?thesis
      using q' q(3) Some ok_SubVectors by (auto simp: bitvec_ok_simps Let_def nth_list_update)
  qed
qed

section \<open>The set\<close>

text \<open>
  The operations as one machine, with memory for all allocations. Calls outside the contract of the code, an index \<open>0\<close> or beyond the
  size, are answered with \<open>Misuse\<close>.
\<close>

datatype bitvec_op = BvSet nat | BvClear nat | BvTest nat

datatype bitvec_result = Done nat | Cleared | Answer bool | Misuse

fun bitvec_step :: "bitvec_op \<Rightarrow> bitvec \<Rightarrow> bitvec_result \<times> bitvec" where
  "bitvec_step (BvSet i) p =
     (case sqlite3BitvecSet (\<lambda>_. True) 0 (Some p) i of Some (rc, Some p', _) \<Rightarrow> (Done rc, p') | _ \<Rightarrow> (Misuse, p))"
| "bitvec_step (BvClear i) p =
     (if i \<le> sqlite3BitvecSize p then
        (case sqlite3BitvecClear (Some p) i of Some (Some p') \<Rightarrow> (Cleared, p') | _ \<Rightarrow> (Misuse, p))
      else (Misuse, p))"
| "bitvec_step (BvTest i) p = (case sqlite3BitvecTest (Some p) i of Some b \<Rightarrow> (Answer b, p) | None \<Rightarrow> (Misuse, p))"

text \<open>The specification: a size and a set of numbers from \<open>1\<close> to it.\<close>

fun set_step :: "bitvec_op \<Rightarrow> nat \<times> nat set \<Rightarrow> bitvec_result \<times> nat \<times> nat set" where
  "set_step (BvSet i) (s, A) = (if i \<in> {1..s} then (Done 0, s, insert i A) else (Misuse, s, A))"
| "set_step (BvClear i) (s, A) = (if i \<in> {1..s} then (Cleared, s, A - {i}) else (Misuse, s, A))"
| "set_step (BvTest i) (s, A) = (Answer (i \<in> A), s, A)"

definition bitvec_abs :: "bitvec \<Rightarrow> nat \<times> nat set" where
  "bitvec_abs p = (iSize p, {i \<in> {1..iSize p}. bitvec_has p (i - 1)})"

definition bitvec_inv :: "bitvec \<Rightarrow> bool" where
  "bitvec_inv p \<longleftrightarrow> bitvec_ok p \<and> iSize p < 2 ^ 32"

lemma sqlite3BitvecTest_abs:
  assumes "bitvec_inv p"
  shows "sqlite3BitvecTest (Some p) i = Some (i \<in> snd (bitvec_abs p))"
proof (cases "i \<in> {1..iSize p}")
  case True
  then have "i - 1 < iSize p"
    by auto
  then have "bitvec_test p (i - 1) \<noteq> None"
    using assms bitvec_test_total [of p "i - 1"] by (simp add: bitvec_inv_def)
  then show ?thesis
    using True by (auto simp: sqlite3BitvecTest_def sqlite3BitvecTestNotNull_def index_before_def bitvec_abs_def bitvec_has_def Let_def)
next
  case False
  then show ?thesis
    using assms by (auto simp: sqlite3BitvecTest_def sqlite3BitvecTestNotNull_def index_before_def bitvec_abs_def bitvec_inv_def Let_def)
qed

text \<open>
  Setting with any memory: it returns, keeps the vector well formed, and when it reports success the set has gained exactly the number.
\<close>

lemma sqlite3BitvecSet_abs:
  assumes "bitvec_inv p" "i \<in> {1..iSize p}"
  shows "\<exists>rc p' n'. sqlite3BitvecSet malloc n (Some p) i = Some (rc, Some p', n') \<and> bitvec_inv p' \<and>
    (rc = 0 \<longrightarrow> bitvec_abs p' = (iSize p, insert i (snd (bitvec_abs p)))) \<and> ((\<forall>k. malloc k) \<longrightarrow> rc = 0)"
proof -
  have i: "i - 1 < iSize p" "index_before i = i - 1"
    using assms(2) by (auto simp: index_before_def)
  have "bitvec_rank p < BITVEC_DEPTH"
    using assms(1) bitvec_rank_le [of p] levels_32 [of "iSize p"] by (simp add: bitvec_inv_def BITVEC_DEPTH_def)
  then obtain rc p' n' where set: "bitvec_set BITVEC_DEPTH malloc n p (i - 1) = Some (rc, p', n')"
    using bitvec_set_total [of p BITVEC_DEPTH "i - 1" malloc n] assms(1) i(1) by (auto simp: bitvec_inv_def)
  then have sets: "sets_bit malloc p (i - 1) (rc, p', n')"
    using bitvec_set_sets assms(1) i(1) unfolding bit_setter_def bitvec_inv_def by blast
  have "j - 1 = i - 1 \<longleftrightarrow> j = i" if "j \<in> {1..iSize p}" for j
    using that assms(2) by auto
  then have "rc = 0 \<Longrightarrow> bitvec_abs p' = (iSize p, insert i (snd (bitvec_abs p)))"
    using sets assms(2) by (auto simp: sets_bit_def bitvec_abs_def)
  then show ?thesis
    using set sets assms i(2) by (auto simp: sqlite3BitvecSet_def sets_bit_def bitvec_inv_def)
qed

lemma sqlite3BitvecClear_abs:
  assumes "bitvec_inv p" "i \<in> {1..iSize p}"
  shows "\<exists>p'. sqlite3BitvecClear (Some p) i = Some (Some p') \<and> bitvec_inv p' \<and>
    bitvec_abs p' = (iSize p, snd (bitvec_abs p) - {i})"
proof -
  have i: "i - 1 < iSize p" "index_before i = i - 1"
    using assms(2) by (auto simp: index_before_def)
  obtain p' where p': "bitvec_clear p (i - 1) = Some p'" "bitvec_ok p'" "iSize p' = iSize p"
    "\<And>j. j < iSize p \<Longrightarrow> bitvec_has p' j \<longleftrightarrow> j \<noteq> i - 1 \<and> bitvec_has p j"
    using bitvec_clear_clears [of p "i - 1"] assms(1) i(1) by (auto simp: bitvec_inv_def)
  have "j - 1 \<noteq> i - 1 \<longleftrightarrow> j \<noteq> i" if "j \<in> {1..iSize p}" for j
    using that assms(2) by auto
  then have "bitvec_abs p' = (iSize p, snd (bitvec_abs p) - {i})"
    using p'(3,4) by (auto simp: bitvec_abs_def)
  then show ?thesis
    using p' assms i(2) by (simp add: sqlite3BitvecClear_def bitvec_inv_def)
qed

lemma set_step_abs:
  "set_step (BvSet i) (bitvec_abs p) =
    (if i \<in> {1..iSize p} then (Done 0, iSize p, insert i (snd (bitvec_abs p))) else (Misuse, bitvec_abs p))"
  "set_step (BvClear i) (bitvec_abs p) =
    (if i \<in> {1..iSize p} then (Cleared, iSize p, snd (bitvec_abs p) - {i}) else (Misuse, bitvec_abs p))"
  "set_step (BvTest i) (bitvec_abs p) = (Answer (i \<in> snd (bitvec_abs p)), bitvec_abs p)"
  by (simp_all add: bitvec_abs_def)

lemma bitvec_step_refines:
  assumes "bitvec_inv p"
  shows "bitvec_inv (snd (bitvec_step x p)) \<and>
    set_step x (bitvec_abs p) = (fst (bitvec_step x p), bitvec_abs (snd (bitvec_step x p)))"
proof (cases x)
  case (BvSet i)
  show ?thesis
  proof (cases "i \<in> {1..iSize p}")
    case True
    then show ?thesis
      using sqlite3BitvecSet_abs [OF assms True, of "\<lambda>_. True" 0] by (auto simp: BvSet set_step_abs simp del: set_step.simps)
  next
    case False
    then show ?thesis
      using assms by (auto simp: BvSet set_step_abs sqlite3BitvecSet_def simp del: set_step.simps)
  qed
next
  case (BvClear i)
  show ?thesis
  proof (cases "i \<in> {1..iSize p}")
    case True
    then show ?thesis
      using sqlite3BitvecClear_abs [OF assms True]
      by (auto simp: BvClear set_step_abs sqlite3BitvecSize_def simp del: set_step.simps)
  next
    case False
    then show ?thesis
      using assms by (auto simp: BvClear set_step_abs sqlite3BitvecClear_def sqlite3BitvecSize_def simp del: set_step.simps)
  qed
next
  case (BvTest i)
  then show ?thesis
    using sqlite3BitvecTest_abs [OF assms, of i] assms by (simp add: set_step_abs del: set_step.simps)
qed

interpretation bits: data_refinement bitvec_step bitvec_inv set_step bitvec_abs
  by unfold_locales (use bitvec_step_refines in auto)

section \<open>Properties of bit vectors\<close>

text \<open>
  C37: A bit vector of any 32-bit size implements a finite set: after any sequence of operations, with all the conversions from table to array of
  vectors they cause, every test has answered as the set would, every other call has returned success, and the vector still holds
  the set.
\<close>

theorem bitvec_refines_set:
  assumes "s < 2 ^ 32"
  shows "\<exists>p. sqlite3BitvecCreate True s = Some p \<and>
    run_ops set_step ops (s, {}) = (fst (run_ops bitvec_step ops p), bitvec_abs (snd (run_ops bitvec_step ops p)))"
proof -
  have "bitvec_abs (bitvec_zero s) = (s, {})"
    using has_zero [of _ s] by (auto simp: bitvec_abs_def)
  moreover have "bitvec_inv (bitvec_zero s)"
    using assms by (simp add: bitvec_inv_def)
  ultimately show ?thesis
    using bits.run_refines [of "bitvec_zero s" ops] by (simp add: sqlite3BitvecCreate_def)
qed

theorem bitvec_refines_set_witness:
  "\<exists>p. sqlite3BitvecCreate True 100000 = Some p \<and>
    fst (run_ops bitvec_step [BvSet 99999, BvTest 99999, BvTest 99998, BvClear 99999, BvTest 99999, BvSet 0] p) =
      [Done 0, Answer True, Answer False, Cleared, Answer False, Misuse]"
proof -
  let ?ops = "[BvSet 99999, BvTest 99999, BvTest 99998, BvClear 99999, BvTest 99999, BvSet 0]"
  obtain p where "sqlite3BitvecCreate True 100000 = Some p"
    "run_ops set_step ?ops (100000, {}) = (fst (run_ops bitvec_step ?ops p), bitvec_abs (snd (run_ops bitvec_step ?ops p)))"
    using bitvec_refines_set [of 100000 ?ops] by auto
  moreover have "fst (run_ops set_step ?ops (100000, {})) = [Done 0, Answer True, Answer False, Cleared, Answer False, Misuse]"
    by simp
  ultimately show ?thesis
    by (metis fst_conv)
qed

end
