(* ===== verification/SqliteUtf8.thy ===== *)
theory SqliteUtf8
  imports Prelude "HOL-Library.Monad_Syntax"
begin

text \<open>
  UTF-8 in the SQLite library that the repository ships, \<^verbatim>\<open>application/sqlite3/sqlite3.c\<close>: reading, skipping, counting and writing
  characters. A pointer into a string is the list of bytes from it to the end of the object; reading past the end is undefined,
  \<open>None\<close>. The characters of a C string are those that reading one after the other gives, up to the terminator.
\<close>

section \<open>UTF-8\<close>

definition sqlite3Utf8Trans1 :: "u8 list" where
  "sqlite3Utf8Trans1 = map of_nat ([0..<32] @ [0..<16] @ [0..<8] @ [0, 1, 2, 3, 0, 1, 0, 0])"

definition deref :: "bytes \<Rightarrow> u8 option" where
  "deref z = (case z of [] \<Rightarrow> None | b # _ \<Rightarrow> Some b)"

fun utf8_continue :: "u32 \<Rightarrow> bytes \<Rightarrow> (u32 \<times> bytes) option" where
  "utf8_continue c [] = None"
| "utf8_continue c (b # z) = (if b AND 0xc0 = 0x80 then utf8_continue (push_bit 6 c + ucast (0x3f AND b)) z else Some (c, b # z))"

definition sqlite3Utf8Read :: "bytes \<Rightarrow> (u32 \<times> bytes) option" where
  "sqlite3Utf8Read z = do {
     b \<leftarrow> deref z;
     let c = (ucast b :: u32);
     let z = tl z;
     if 0xc0 \<le> c then do {
       (c, z) \<leftarrow> utf8_continue (ucast (sqlite3Utf8Trans1 ! unat (c - 0xc0))) z;
       Some (if c < 0x80 \<or> c AND 0xFFFFF800 = 0xD800 \<or> c AND 0xFFFFFFFE = 0xFFFE then 0xFFFD else c, z)
     }
     else Some (c, z)
   }"

definition Utf8Read :: "bytes \<Rightarrow> (u32 \<times> bytes) option" where
  "Utf8Read A = do { b \<leftarrow> deref A; if b < 0x80 then Some (ucast b, tl A) else sqlite3Utf8Read A }"

fun skip_continuation :: "bytes \<Rightarrow> bytes option" where
  "skip_continuation [] = None"
| "skip_continuation (b # z) = (if b AND 0xc0 = 0x80 then skip_continuation z else Some (b # z))"

definition SQLITE_SKIP_UTF8 :: "bytes \<Rightarrow> bytes option" where
  "SQLITE_SKIP_UTF8 z = do { b \<leftarrow> deref z; let z = tl z; if 0xc0 \<le> b then skip_continuation z else Some z }"

text \<open>The bytes that \<^verbatim>\<open>WRITE_UTF8\<close> writes.\<close>

definition WRITE_UTF8 :: "u32 \<Rightarrow> bytes" where
  "WRITE_UTF8 c =
     (if c < 0x80 then [ucast (c AND 0xFF)]
      else if c < 0x800 then [0xC0 + ucast (drop_bit 6 c AND 0x1F), 0x80 + ucast (c AND 0x3F)]
      else if c < 0x10000 then
        [0xE0 + ucast (drop_bit 12 c AND 0x0F), 0x80 + ucast (drop_bit 6 c AND 0x3F), 0x80 + ucast (c AND 0x3F)]
      else
        [0xF0 + ucast (drop_bit 18 c AND 0x07), 0x80 + ucast (drop_bit 12 c AND 0x3F), 0x80 + ucast (drop_bit 6 c AND 0x3F),
         0x80 + ucast (c AND 0x3F)])"

lemma unat_byte [simp]: "unat (ucast (b :: u8) :: u32) = unat b"
proof -
  have "unat b < 2 ^ 32"
    using unsigned_less [of b, where ?'a = nat] by simp
  then show ?thesis
    by (simp add: unsigned_ucast_eq take_bit_nat_eq_self)
qed

lemma ucast_byte [simp]: "ucast (ucast (b :: u8) :: u32) = b"
  using unsigned_less [of b, where ?'a = nat]
  by (simp add: word_unat_eq_iff unsigned_ucast_eq [of "ucast b :: u32"] take_bit_nat_eq_self)

lemma deref_simps [simp]: "deref [] = None" "deref (b # z) = Some b"
  by (simp_all add: deref_def)

lemma utf8_continue_shorter: "utf8_continue c z = Some (d, z') \<Longrightarrow> length z' \<le> length z"
  by (induction c z rule: utf8_continue.induct) (auto split: if_splits)

lemma read_shorter: "sqlite3Utf8Read z = Some (c, z') \<Longrightarrow> length z' < length z"
  by (cases z) (auto simp: sqlite3Utf8Read_def Let_def bind_eq_Some_conv split: if_splits dest!: utf8_continue_shorter)

lemma Utf8Read_eq: "Utf8Read z = sqlite3Utf8Read z"
proof (cases z)
  case (Cons b z')
  have "\<not> 0xc0 \<le> (ucast b :: u32)" if "b < 0x80"
    using that by (simp add: word_le_nat_alt word_less_nat_alt)
  then show ?thesis
    by (simp add: Cons Utf8Read_def sqlite3Utf8Read_def)
qed (simp add: Utf8Read_def sqlite3Utf8Read_def)

lemma Utf8Read_shorter: "Utf8Read z = Some (c, z') \<Longrightarrow> length z' < length z"
  unfolding Utf8Read_eq by (rule read_shorter)

lemma skip_continuation_shorter: "skip_continuation z = Some z' \<Longrightarrow> length z' \<le> length z"
  by (induction z) (auto split: if_splits)

lemma skip_shorter: "SQLITE_SKIP_UTF8 z = Some z' \<Longrightarrow> length z' < length z"
  by (cases z) (auto simp: SQLITE_SKIP_UTF8_def split: if_splits dest!: skip_continuation_shorter)

text \<open>The number of characters up to the terminator, the case \<^verbatim>\<open>nByte < 0\<close>.\<close>

function char_len :: "nat \<Rightarrow> bytes \<Rightarrow> nat option" where
  "char_len r z = do { b \<leftarrow> deref z; if b \<noteq> 0 then do { z \<leftarrow> SQLITE_SKIP_UTF8 z; char_len (r + 1) z } else Some r }"
  by auto
termination
  by (relation "measure (\<lambda>(r, z). length z)") (auto dest: skip_shorter)

definition sqlite3Utf8CharLen :: "bytes \<Rightarrow> nat option" where
  "sqlite3Utf8CharLen z = char_len 0 z"

declare char_len.simps [simp del]

section \<open>Characters\<close>

text \<open>The characters of a C string, up to its terminator.\<close>

abbreviation cstring :: "bytes \<Rightarrow> bool" where
  "cstring z \<equiv> 0 \<in> set z"

function chars :: "bytes \<Rightarrow> u32 list" where
  "chars z = (case sqlite3Utf8Read z of Some (c, z') \<Rightarrow> if c = 0 then [] else c # chars z' | None \<Rightarrow> [])"
  by auto
termination
  by (relation "measure length") (auto dest: read_shorter)

declare chars.simps [simp del]

lemma utf8_continue_total:
  assumes "cstring z"
  shows "\<exists>d z'. utf8_continue c z = Some (d, z') \<and> cstring z' \<and> skip_continuation z = Some z'"
  using assms
proof (induction c z rule: utf8_continue.induct)
  case (2 c b z)
  then show ?case
    by (cases "b = 0") auto
qed simp

text \<open>Reading a character of a C string: its terminator, an ASCII character, which is one byte, or another character.\<close>

lemma read_string:
  assumes "cstring (b # z)"
  shows "if b < 0x80 then sqlite3Utf8Read (b # z) = Some (ucast b, z) \<and> SQLITE_SKIP_UTF8 (b # z) = Some z
    else \<exists>c z'. sqlite3Utf8Read (b # z) = Some (c, z') \<and> 0x80 \<le> c \<and> cstring z' \<and> SQLITE_SKIP_UTF8 (b # z) = Some z'"
proof (cases "b < 0x80")
  case True
  then have "\<not> 0xc0 \<le> (ucast b :: u32)" "\<not> 0xc0 \<le> b"
    by (simp_all add: word_le_nat_alt word_less_nat_alt)
  with True show ?thesis
    by (simp add: sqlite3Utf8Read_def SQLITE_SKIP_UTF8_def)
next
  case False
  then have z: "cstring z"
    using assms by (cases "b = 0") auto
  have c0: "0xc0 \<le> (ucast b :: u32) \<longleftrightarrow> 0xc0 \<le> b"
    by (simp add: word_le_nat_alt)
  show ?thesis
  proof (cases "0xc0 \<le> b")
    case True
    obtain d z' where "utf8_continue (ucast (sqlite3Utf8Trans1 ! unat ((ucast b :: u32) - 0xc0))) z = Some (d, z')"
      "cstring z'" "skip_continuation z = Some z'"
      using utf8_continue_total [OF z] by blast
    then show ?thesis
      using False c0 True by (auto simp: sqlite3Utf8Read_def SQLITE_SKIP_UTF8_def Let_def not_less)
  next
    case big: False
    then show ?thesis
      using False z c0
      by (auto simp: sqlite3Utf8Read_def SQLITE_SKIP_UTF8_def Let_def word_le_nat_alt word_less_nat_alt)
  qed
qed

text \<open>The first byte of a string is ASCII if and only if its first character is, and then they are the same.\<close>

lemma read_cases [consumes 1, case_names terminator character]:
  assumes "cstring z"
  obtains z' where "z = 0 # z'" "sqlite3Utf8Read z = Some (0, z')" "chars z = []"
  | b y c z' where "z = b # y" "b \<noteq> 0" "sqlite3Utf8Read z = Some (c, z')" "c \<noteq> 0" "chars z = c # chars z'" "cstring z'"
      "SQLITE_SKIP_UTF8 z = Some z'" "b < 0x80 \<longleftrightarrow> c < 0x80" "c < 0x80 \<longrightarrow> c = ucast b \<and> z' = y"
proof (cases z)
  case (Cons b y)
  show thesis
  proof (cases "b = 0")
    case True
    then have "sqlite3Utf8Read z = Some (0, y)"
      using read_string [of b y] assms Cons by simp
    then show thesis
      using True Cons by (intro that(1) [of y]) (simp_all add: chars.simps [of "0 # y"])
  next
    case False
    show thesis
    proof (cases "b < 0x80")
      case True
      then have "(ucast b :: u32) < 0x80" "(ucast b :: u32) \<noteq> 0"
        using False by (simp_all add: word_less_nat_alt word_unat_eq_iff)
      moreover have "sqlite3Utf8Read z = Some (ucast b, y)" "SQLITE_SKIP_UTF8 z = Some y" "cstring y"
        using read_string [of b y] assms Cons True False by auto
      moreover from this(1) have "chars z = ucast b # chars y"
        using \<open>(ucast b :: u32) \<noteq> 0\<close> by (simp add: chars.simps [of z])
      ultimately show thesis
        using Cons False True by (intro that(2)) auto
    next
      case big: False
      then obtain c z' where r: "sqlite3Utf8Read z = Some (c, z')" "0x80 \<le> c" "cstring z'" "SQLITE_SKIP_UTF8 z = Some z'"
        using read_string [of b y] assms Cons by auto
      have c: "\<not> c < 0x80" "c \<noteq> 0"
        using r(2) by auto
      have "chars z = c # chars z'"
        using r(1) c by (simp add: chars.simps [of z])
      then show thesis
        by (rule that(2) [OF Cons False r(1) c(2) _ r(3,4)]) (use c big in simp_all)
    qed
  qed
qed (use assms in simp)

lemma chars_Nil: "cstring z \<Longrightarrow> chars z = [] \<longleftrightarrow> hd z = 0"
  by (cases z rule: read_cases) auto

lemma chars_ascii: "cstring p \<Longrightarrow> c \<noteq> 0 \<Longrightarrow> c < 0x80 \<Longrightarrow> chars (ucast c # p) = c # chars p"
proof -
  assume p: "cstring p" "c \<noteq> 0" "c < 0x80"
  then have c: "unat (ucast c :: u8) = unat c"
    by (simp add: unsigned_ucast_eq take_bit_nat_eq_self word_less_nat_alt)
  then have "(ucast c :: u8) < 0x80" "ucast (ucast c :: u8) = c"
    using p by (simp_all add: word_less_nat_alt word_unat_eq_iff)
  then show ?thesis
    using read_string [of "ucast c" p] p by (simp add: chars.simps [of "ucast c # p"])
qed

lemma unat_ascii: "c < 0x80 \<Longrightarrow> unat (ucast (c :: u32) :: u8) = unat c" "c < 0x80 \<Longrightarrow> unat (c :: u32) < 128"
  by (simp_all add: unsigned_ucast_eq take_bit_nat_eq_self word_less_nat_alt)

section \<open>Writing and reading UTF-8\<close>

text \<open>The bytes behind the first, and the first bytes, by exhaustion of their six and five bits.\<close>

lemma continuation_table:
  "list_all (\<lambda>n. (0x80 + of_nat n :: u8) AND 0xc0 = 0x80 \<and> 0x3f AND (0x80 + of_nat n :: u8) = of_nat n) [0..<64]"
  by code_simp

lemma lead_table:
  "list_all (\<lambda>n. 0xc0 \<le> (ucast (0xc0 + of_nat n :: u8) :: u32) \<and>
    sqlite3Utf8Trans1 ! unat ((ucast (0xc0 + of_nat n :: u8) :: u32) - 0xc0) = (if n < 32 then of_nat n else if n < 48 then of_nat (n - 32) else of_nat (n - 48))) [0..<56]"
  by code_simp

lemma low_bits: "(x AND 0x3f) = take_bit 6 (x :: u32)" "unat (ucast (x AND 0x3f) :: u8) < 64"
  "ucast (ucast (x AND 0x3f) :: u8) = x AND 0x3f"
proof -
  show mask: "(x AND 0x3f) = take_bit 6 x"
    by (simp add: take_bit_eq_mask mask_numeral)
  have "unat (take_bit 6 x) < 64"
    using take_bit_nat_less_exp [of 6 "unat x"] by (simp add: unsigned_take_bit_eq)
  then show "unat (ucast (x AND 0x3f) :: u8) < 64" "ucast (ucast (x AND 0x3f) :: u8) = x AND 0x3f"
    unfolding mask by (simp_all add: unsigned_ucast_eq word_unat_eq_iff take_bit_nat_eq_self)
qed

lemma utf8_continue_step:
  "utf8_continue (drop_bit (k + 6) c) ((0x80 + ucast (drop_bit k c AND 0x3f)) # z) = utf8_continue (drop_bit k c) z"
proof -
  let ?x = "drop_bit k c"
  have "unat (ucast (?x AND 0x3f) :: u8) \<in> set [0..<64]"
    using low_bits(2) [of ?x] by simp
  from bspec [OF continuation_table [unfolded list_all_iff] this]
  have "(0x80 + ucast (?x AND 0x3f) :: u8) AND 0xc0 = 0x80" "0x3f AND (0x80 + ucast (?x AND 0x3f) :: u8) = ucast (?x AND 0x3f)"
    by simp_all
  moreover have "push_bit 6 (drop_bit (k + 6) c) + (?x AND 0x3f) = ?x"
    using bits_ident [of 6 ?x] by (simp add: low_bits(1) drop_bit_drop_bit add.commute)
  ultimately show ?thesis
    using low_bits(3) [of ?x] by simp
qed

lemma read_lead:
  assumes "n < 56" "y = (if n < 32 then n else if n < 48 then n - 32 else n - 48)"
  shows "sqlite3Utf8Read ((0xc0 + of_nat n) # z) = do {
    (c, z) \<leftarrow> utf8_continue (of_nat y) z;
    Some (if c < 0x80 \<or> c AND 0xFFFFF800 = 0xD800 \<or> c AND 0xFFFFFFFE = 0xFFFE then 0xFFFD else c, z) }"
proof -
  have "n \<in> set [0..<56]"
    using assms(1) by simp
  from bspec [OF lead_table [unfolded list_all_iff] this] have
    lead: "0xc0 \<le> (ucast (0xc0 + of_nat n :: u8) :: u32)"
    "sqlite3Utf8Trans1 ! unat ((ucast (0xc0 + of_nat n :: u8) :: u32) - 0xc0) = of_nat y"
    using assms(2) by (auto split: if_splits)
  have "ucast (of_nat y :: u8) = (of_nat y :: u32)"
    using assms by (auto simp: word_unat_eq_iff unsigned_ucast_eq unsigned_of_nat take_bit_nat_eq_self split: if_splits)
  then show ?thesis
    by (simp only: sqlite3Utf8Read_def deref_simps Option.bind.bind_lunit list.sel Let_def lead if_True)
qed

lemma low_bits_id: "unat x < 2 ^ k \<Longrightarrow> x AND mask k = (x :: u32)"
  by (simp add: take_bit_eq_mask [symmetric] word_unat_eq_iff unsigned_take_bit_eq take_bit_nat_eq_self)

lemma unat_drop: "unat (drop_bit k (c :: u32)) = unat c div 2 ^ k"
  unfolding unat_drop_bit_eq by (simp add: drop_bit_eq_div)

lemma top_bits: "of_nat (unat c div 2 ^ k) = drop_bit k (c :: u32)"
  by (simp only: unat_drop [symmetric] of_nat_unat ucast_id)

lemma lead_bits:
  assumes "unat c div 2 ^ k < 2 ^ m" "m \<le> 8"
  shows "ucast (drop_bit k (c :: u32) AND mask m) = (of_nat (unat c div 2 ^ k) :: u8)"
proof -
  show ?thesis
    using low_bits_id [of "drop_bit k c" m] assms(1)
    by (simp add: word_unat_eq_iff unsigned_ucast_eq unsigned_of_nat unat_drop)
qed

text \<open>A character that is neither a surrogate nor a reserved one comes back as it was written.\<close>

lemma utf8_roundtrip:
  assumes c: "c < 0x110000" "c AND 0xFFFFF800 \<noteq> 0xD800" "c AND 0xFFFFFFFE \<noteq> 0xFFFE" and z: "z \<noteq> []" "hd z AND 0xc0 \<noteq> 0x80"
  shows "sqlite3Utf8Read (WRITE_UTF8 c @ z) = Some (c, z)"
proof -
  have stop: "utf8_continue d z = Some (d, z)" for d
    using z by (cases z) auto
  have lead: "sqlite3Utf8Read ((0xc0 + of_nat n) # bs @ z) = Some (c, z)"
    if "utf8_continue (of_nat y) (bs @ z) = Some (c, z)" "n < 56" "y = (if n < 32 then n else if n < 48 then n - 32 else n - 48)"
      "\<not> c < 0x80" for n y bs
    using read_lead [OF that(2,3), of "bs @ z"] that(1,4) c by simp
  note step = utf8_continue_step [of 0 c] utf8_continue_step [of 6 c] utf8_continue_step [of 12 c]
  have cont: "utf8_continue (of_nat (unat c div 2 ^ 6)) ([0x80 + ucast (c AND 0x3f)] @ z) = Some (c, z)"
    "utf8_continue (of_nat (unat c div 2 ^ 12)) ([0x80 + ucast (drop_bit 6 c AND 0x3f), 0x80 + ucast (c AND 0x3f)] @ z) = Some (c, z)"
    "utf8_continue (of_nat (unat c div 2 ^ 18))
      ([0x80 + ucast (drop_bit 12 c AND 0x3f), 0x80 + ucast (drop_bit 6 c AND 0x3f), 0x80 + ucast (c AND 0x3f)] @ z) = Some (c, z)"
    unfolding top_bits using step stop by (simp_all del: utf8_continue.simps)
  consider "c < 0x80" | "\<not> c < 0x80" "c < 0x800" | "\<not> c < 0x800" "c < 0x10000" | "\<not> c < 0x10000"
    by blast
  then show ?thesis
  proof cases
    case 1
    then have "c AND 0xFF = c"
      using low_bits_id [of c 8] by (simp add: word_less_nat_alt mask_numeral)
    moreover have "ucast (ucast c :: u8) = c" "\<not> 0xc0 \<le> c"
      using unat_ascii [OF 1] by (simp_all add: word_unat_eq_iff word_le_nat_alt)
    ultimately show ?thesis
      using 1 by (simp add: sqlite3Utf8Read_def WRITE_UTF8_def)
  next
    case 2
    then have n: "unat c div 2 ^ 6 < 2 ^ 5"
      by (simp add: word_less_nat_alt)
    have "WRITE_UTF8 c = (0xc0 + of_nat (unat c div 2 ^ 6)) # [0x80 + ucast (c AND 0x3f)]"
      using 2 lead_bits [OF n] by (simp add: WRITE_UTF8_def mask_numeral)
    then show ?thesis
      using lead [OF cont(1), of "unat c div 2 ^ 6"] n 2 by simp
  next
    case 3
    then have n: "unat c div 2 ^ 12 < 2 ^ 4" "\<not> c < 0x80"
      by (simp_all add: word_less_nat_alt)
    let ?bs = "[0x80 + ucast (drop_bit 6 c AND 0x3f), 0x80 + ucast (c AND 0x3f)]"
    have "WRITE_UTF8 c = (0xc0 + of_nat (32 + unat c div 2 ^ 12)) # ?bs"
      using 3 n(2) lead_bits [OF n(1)] by (simp add: WRITE_UTF8_def mask_numeral)
    then show ?thesis
      using lead [OF cont(2), of "32 + unat c div 2 ^ 12"] n by simp
  next
    case 4
    then have n: "unat c div 2 ^ 18 < 2 ^ 3" "\<not> c < 0x800" "\<not> c < 0x80"
      using c(1) by (simp_all add: word_less_nat_alt)
    let ?bs = "[0x80 + ucast (drop_bit 12 c AND 0x3f), 0x80 + ucast (drop_bit 6 c AND 0x3f), 0x80 + ucast (c AND 0x3f)]"
    have "WRITE_UTF8 c = (0xc0 + of_nat (48 + unat c div 2 ^ 18)) # ?bs"
      using 4 n lead_bits [OF n(1)] by (simp add: WRITE_UTF8_def mask_numeral)
    then show ?thesis
      using lead [OF cont(3), of "48 + unat c div 2 ^ 18"] n by simp
  qed
qed

section \<open>Counting characters\<close>

lemma char_len_chars: "cstring z \<Longrightarrow> char_len r z = Some (r + length (chars z))"
proof (induction r z rule: char_len.induct)
  case (1 r z)
  from 1(2) show ?case
  proof (cases z rule: read_cases)
    case (character b y c z')
    then have "char_len r z = char_len (r + 1) z'"
      by (simp add: char_len.simps [of r "b # y"])
    moreover have "char_len (r + 1) z' = Some (r + 1 + length (chars z'))"
      using character by (intro 1(1)) auto
    ultimately show ?thesis
      using character(5) by simp
  qed (simp add: char_len.simps [of r "0 # _"])
qed

lemma sqlite3Utf8CharLen_chars: "cstring z \<Longrightarrow> sqlite3Utf8CharLen z = Some (length (chars z))"
  by (simp add: sqlite3Utf8CharLen_def char_len_chars)

end
