(* ===== verification/SqliteHash.thy ===== *)
theory SqliteHash
  imports Refinement
begin

text \<open>
  The hash tables of the SQLite library that the repository ships, the part \<^verbatim>\<open>hash.c\<close> of
  \<^verbatim>\<open>application/sqlite3/sqlite3.c\<close>, which hold its schemas, functions and modules by name. All elements are on one doubly linked list;
  with ten elements or more there are buckets as well, each a position in this list and a number of elements. The memory of the
  elements is explicit, with its pointers; the table is shown to implement a map on names without case.
\<close>

section \<open>Names\<close>

text \<open>The table of lower case letters, and a C string's bytes up to its terminator, in lower case.\<close>

definition sqlite3UpperToLower :: "u8 list" where
  "sqlite3UpperToLower = map of_nat ([0..<65] @ [97..<123] @ [91..<256])"

definition upper_to_lower :: "u8 \<Rightarrow> u8" where
  "upper_to_lower c = sqlite3UpperToLower ! unat c"

definition lower :: "bytes \<Rightarrow> bytes" where
  "lower z = map upper_to_lower (takeWhile (\<lambda>c. c \<noteq> 0) z)"

fun sqlite3StrICmp :: "bytes \<Rightarrow> bytes \<Rightarrow> int" where
  "sqlite3StrICmp (c # a) (x # b) =
     (if c = x then (if c = 0 then 0 else sqlite3StrICmp a b)
      else (let d = uint (upper_to_lower c) - uint (upper_to_lower x) in if d \<noteq> 0 then d else sqlite3StrICmp a b))"
| "sqlite3StrICmp (c # a) [] = (if c = 0 then 0 else uint (upper_to_lower c))"
| "sqlite3StrICmp [] (x # b) = (if x = 0 then 0 else - uint (upper_to_lower x))"
| "sqlite3StrICmp [] [] = 0"

fun strHash_loop :: "u32 \<Rightarrow> bytes \<Rightarrow> u32" where
  "strHash_loop h [] = h"
| "strHash_loop h (c # z) = (if c = 0 then h else strHash_loop ((h + ucast (upper_to_lower c)) * 0x9e3779b1) z)"

definition strHash :: "bytes \<Rightarrow> nat" where
  "strHash z = unat (strHash_loop 0 z)"

section \<open>State\<close>

text \<open>
  \<^verbatim>\<open>HashElem\<close> and \<^verbatim>\<open>Hash\<close>. An address is a number, \<open>None\<close> the null pointer. The data of the clients are of any type. Keys are
  pointers to strings that the clients keep unchanged, so a key is its string. Counters are unsigned 32-bit numbers with the
  wrap-around written out. \<open>h_mem\<close> is the memory of the elements.
\<close>

type_synonym addr = nat

record 'd hash_elem =
  he_next :: "addr option"
  he_prev :: "addr option"
  he_data :: "'d option"
  he_key :: bytes

record bucket =
  ht_count :: nat
  ht_chain :: "addr option"

type_synonym 'd mem = "addr \<Rightarrow> 'd hash_elem option"

record 'd hash =
  h_size :: nat
  h_count :: nat
  h_first :: "addr option"
  h_ht :: "bucket list option"
  h_mem :: "'d mem"

text \<open>An assignment to a member of the element at an address; without the element the program is undefined.\<close>

definition update_elem :: "addr \<Rightarrow> ('d hash_elem \<Rightarrow> 'd hash_elem) \<Rightarrow> 'd mem \<Rightarrow> 'd mem option" where
  "update_elem a f mem = map_option (\<lambda>e. mem(a \<mapsto> f e)) (mem a)"

section \<open>Operations\<close>

definition sqlite3HashInit :: "'d hash" where
  "sqlite3HashInit = \<lparr>h_size = 0, h_count = 0, h_first = None, h_ht = None, h_mem = (\<lambda>a. None)\<rparr>"

text \<open>The loop that frees the elements; it takes at most as many iterations as the list has elements.\<close>

fun clear_loop :: "nat \<Rightarrow> addr option \<Rightarrow> 'd mem \<Rightarrow> 'd mem option" where
  "clear_loop n None mem = Some mem"
| "clear_loop 0 (Some a) mem = None"
| "clear_loop (Suc n) (Some a) mem = Option.bind (mem a) (\<lambda>e. clear_loop n (he_next e) (mem(a := None)))"

definition sqlite3HashClear :: "'d hash \<Rightarrow> 'd hash option" where
  "sqlite3HashClear H = map_option (\<lambda>mem. H\<lparr>h_first := None, h_ht := None, h_size := 0, h_mem := mem, h_count := 0\<rparr>)
     (clear_loop (h_count H) (h_first H) (h_mem H))"

text \<open>The two ways to link the new element: before the first element of its bucket, and before all others.\<close>

definition link_before :: "addr \<Rightarrow> addr \<Rightarrow> 'd hash \<Rightarrow> 'd hash option" where
  "link_before pHead pNew H =
     Option.bind (h_mem H pHead) (\<lambda>hd.
     Option.bind (update_elem pNew (\<lambda>e. e\<lparr>he_next := Some pHead, he_prev := he_prev hd\<rparr>) (h_mem H)) (\<lambda>mem.
     Option.bind
       (case he_prev hd of
          Some q \<Rightarrow> map_option (\<lambda>mem. H\<lparr>h_mem := mem\<rparr>) (update_elem q (\<lambda>e. e\<lparr>he_next := Some pNew\<rparr>) mem)
        | None \<Rightarrow> Some (H\<lparr>h_mem := mem, h_first := Some pNew\<rparr>))
       (\<lambda>H. map_option (\<lambda>mem. H\<lparr>h_mem := mem\<rparr>) (update_elem pHead (\<lambda>e. e\<lparr>he_prev := Some pNew\<rparr>) (h_mem H)))))"

definition link_first :: "addr \<Rightarrow> 'd hash \<Rightarrow> 'd hash option" where
  "link_first pNew H =
     Option.bind (update_elem pNew (\<lambda>e. e\<lparr>he_next := h_first H\<rparr>) (h_mem H)) (\<lambda>mem.
     Option.bind
       (case h_first H of Some f \<Rightarrow> update_elem f (\<lambda>e. e\<lparr>he_prev := Some pNew\<rparr>) mem | None \<Rightarrow> Some mem) (\<lambda>mem.
     map_option (\<lambda>mem. H\<lparr>h_mem := mem, h_first := Some pNew\<rparr>) (update_elem pNew (\<lambda>e. e\<lparr>he_prev := None\<rparr>) mem)))"

text \<open>\<open>pEntry\<close> is the index of the bucket, if there are buckets.\<close>

definition insertElement :: "nat option \<Rightarrow> addr \<Rightarrow> 'd hash \<Rightarrow> 'd hash option" where
  "insertElement pEntry pNew H =
     (case (pEntry, h_ht H) of
        (Some h, Some ht) \<Rightarrow>
          if h < length ht then
            (let b = ht ! h; pHead = (if ht_count b \<noteq> 0 then ht_chain b else None);
                 H = H\<lparr>h_ht := Some (ht[h := \<lparr>ht_count = (ht_count b + 1) mod 2 ^ 32, ht_chain = Some pNew\<rparr>])\<rparr>
             in case pHead of Some p \<Rightarrow> link_before p pNew H | None \<Rightarrow> link_first pNew H)
          else None
      | (Some h, None) \<Rightarrow> None
      | (None, _) \<Rightarrow> link_first pNew H)"

fun rehash_loop :: "nat \<Rightarrow> addr option \<Rightarrow> 'd hash \<Rightarrow> 'd hash option" where
  "rehash_loop n None H = Some H"
| "rehash_loop 0 (Some a) H = None"
| "rehash_loop (Suc n) (Some a) H =
     Option.bind (h_mem H a) (\<lambda>e.
     Option.bind (insertElement (Some (strHash (he_key e) mod h_size H)) a H) (\<lambda>H. rehash_loop n (he_next e) H))"

definition SQLITE_MALLOC_SOFT_LIMIT :: nat where
  "SQLITE_MALLOC_SOFT_LIMIT = 1024"

text \<open>
  The size of a bucket is 16 bytes. \<open>extra\<close> is the answer of the allocator: \<open>None\<close> for a failure, else by how much the block is
  larger than requested; the size of a block is an \<^verbatim>\<open>int\<close>.
\<close>

definition rehash :: "nat option \<Rightarrow> nat \<Rightarrow> 'd hash \<Rightarrow> (bool \<times> 'd hash) option" where
  "rehash extra new_size H =
     (let new_size = (if new_size * 16 > SQLITE_MALLOC_SOFT_LIMIT then SQLITE_MALLOC_SOFT_LIMIT div 16 else new_size) in
      if new_size = h_size H then Some (False, H)
      else case extra of
        Some x \<Rightarrow>
          if new_size * 16 + x < 2 ^ 31 then
            (let new_size = (new_size * 16 + x) div 16 in
             map_option (\<lambda>H. (True, H))
               (rehash_loop (h_count H) (h_first H)
                  (H\<lparr>h_ht := Some (replicate new_size \<lparr>ht_count = 0, ht_chain = None\<rparr>), h_size := new_size, h_first := None\<rparr>)))
          else Some (False, H)
      | None \<Rightarrow> Some (False, H))"

text \<open>The search: the element, or \<open>None\<close> for the static null element, whose data are null.\<close>

fun find_loop :: "nat \<Rightarrow> bytes \<Rightarrow> 'd mem \<Rightarrow> addr option \<Rightarrow> addr option option" where
  "find_loop 0 pKey mem elem = Some None"
| "find_loop (Suc count) pKey mem elem =
     Option.bind elem (\<lambda>a.
     Option.bind (mem a) (\<lambda>e.
       if sqlite3StrICmp (he_key e) pKey = 0 then Some (Some a) else find_loop count pKey mem (he_next e)))"

definition findElementWithHash :: "bytes \<Rightarrow> 'd hash \<Rightarrow> (addr option \<times> nat) option" where
  "findElementWithHash pKey H =
     (case h_ht H of
        Some ht \<Rightarrow>
          (let h = strHash pKey mod h_size H in
           if h < length ht then map_option (\<lambda>r. (r, h)) (find_loop (ht_count (ht ! h)) pKey (h_mem H) (ht_chain (ht ! h))) else None)
      | None \<Rightarrow> map_option (\<lambda>r. (r, 0)) (find_loop (h_count H) pKey (h_mem H) (h_first H)))"

text \<open>The first half of \<^verbatim>\<open>removeElementGivenHash\<close>: the element leaves the list.\<close>

definition unlink :: "addr \<Rightarrow> 'd hash \<Rightarrow> 'd hash option" where
  "unlink elem H =
     Option.bind (h_mem H elem) (\<lambda>e.
     Option.bind
       (case he_prev e of
          Some p \<Rightarrow> map_option (\<lambda>mem. H\<lparr>h_mem := mem\<rparr>) (update_elem p (\<lambda>e'. e'\<lparr>he_next := he_next e\<rparr>) (h_mem H))
        | None \<Rightarrow> Some (H\<lparr>h_first := he_next e\<rparr>)) (\<lambda>H.
     case he_next e of
       Some n \<Rightarrow> map_option (\<lambda>mem. H\<lparr>h_mem := mem\<rparr>) (update_elem n (\<lambda>e'. e'\<lparr>he_prev := he_prev e\<rparr>) (h_mem H))
     | None \<Rightarrow> Some H))"

text \<open>The second half: its bucket shrinks; \<open>next\<close> is the element's next pointer.\<close>

definition leave_bucket :: "addr \<Rightarrow> nat \<Rightarrow> addr option \<Rightarrow> 'd hash \<Rightarrow> 'd hash option" where
  "leave_bucket elem h next H =
     (case h_ht H of
        Some ht \<Rightarrow>
          if h < length ht \<and> 0 < ht_count (ht ! h) then
            (let b = (if ht_chain (ht ! h) = Some elem then (ht ! h)\<lparr>ht_chain := next\<rparr> else ht ! h)
             in Some (H\<lparr>h_ht := Some (ht[h := b\<lparr>ht_count := ht_count (ht ! h) - 1\<rparr>])\<rparr>))
          else None
      | None \<Rightarrow> Some H)"

definition removeElementGivenHash :: "addr \<Rightarrow> nat \<Rightarrow> 'd hash \<Rightarrow> 'd hash option" where
  "removeElementGivenHash elem h H =
     Option.bind (unlink elem H) (\<lambda>H.
     Option.bind (h_mem H elem) (\<lambda>e.
     Option.bind (leave_bucket elem h (he_next e) H) (\<lambda>H.
     let H = H\<lparr>h_mem := (h_mem H)(elem := None), h_count := (h_count H + 2 ^ 32 - 1) mod 2 ^ 32\<rparr>
     in if h_count H = 0 then sqlite3HashClear H else Some H)))"

definition sqlite3HashFind :: "bytes \<Rightarrow> 'd hash \<Rightarrow> 'd option option" where
  "sqlite3HashFind pKey H =
     Option.bind (findElementWithHash pKey H) (\<lambda>(elem, _).
     case elem of None \<Rightarrow> Some None | Some a \<Rightarrow> map_option he_data (h_mem H a))"

text \<open>
  The allocator's answer to the request for an element: \<open>None\<close> for a failure, else an address from which it takes the next free
  one. It does not give out memory that is in use, and it fails for more than \<open>max_elems\<close> elements.
\<close>

definition max_elems :: nat where
  "max_elems = 2 ^ 31 - 1"

fun free_from :: "nat \<Rightarrow> addr \<Rightarrow> 'd mem \<Rightarrow> addr option" where
  "free_from 0 a mem = None"
| "free_from (Suc n) a mem = (if mem a = None then Some a else free_from n (Suc a) mem)"

definition malloc_elem :: "addr option \<Rightarrow> 'd hash \<Rightarrow> addr option" where
  "malloc_elem answer H = (case answer of Some a \<Rightarrow> if h_count H < max_elems then free_from (Suc max_elems) a (h_mem H) else None | None \<Rightarrow> None)"

definition sqlite3HashInsert ::
  "addr option \<Rightarrow> nat option \<Rightarrow> bytes \<Rightarrow> 'd option \<Rightarrow> 'd hash \<Rightarrow> ('d option \<times> 'd hash) option" where
  "sqlite3HashInsert answer extra pKey data H =
     Option.bind (findElementWithHash pKey H) (\<lambda>(elem, h).
     Option.bind (case elem of None \<Rightarrow> Some None | Some a \<Rightarrow> map_option he_data (h_mem H a)) (\<lambda>old_data.
     case (elem, old_data) of
       (Some a, Some d) \<Rightarrow>
         if data = None then map_option (\<lambda>H. (Some d, H)) (removeElementGivenHash a h H)
         else map_option (\<lambda>mem. (Some d, H\<lparr>h_mem := mem\<rparr>)) (update_elem a (\<lambda>e. e\<lparr>he_data := data, he_key := pKey\<rparr>) (h_mem H))
     | _ \<Rightarrow>
         if data = None then Some (None, H)
         else case malloc_elem answer H of
           None \<Rightarrow> Some (data, H)
         | Some new_elem \<Rightarrow>
             (let H = H\<lparr>h_mem := (h_mem H)(new_elem \<mapsto> \<lparr>he_next = None, he_prev = None, he_data = data, he_key = pKey\<rparr>),
                        h_count := (h_count H + 1) mod 2 ^ 32\<rparr>
              in Option.bind
                   (if h_count H \<ge> 10 \<and> h_count H > (2 * h_size H) mod 2 ^ 32 then
                      map_option (\<lambda>(resized, H). (if resized then strHash pKey mod h_size H else h, H))
                        (rehash extra ((h_count H * 2) mod 2 ^ 32) H)
                    else Some (h, H)) (\<lambda>(h, H).
                 map_option (\<lambda>H. (None, H)) (insertElement (if h_ht H = None then None else Some h) new_elem H)))))"

section \<open>Names are compared without case\<close>

lemma upper_to_lower_eq: "upper_to_lower c = (if 65 \<le> unat c \<and> unat c \<le> 90 then c + 32 else c)"
proof -
  have c: "unat c < 256"
    using unsigned_less [where 'a = nat and w = c] by simp
  have nth: "(([0..<65] @ [97..<123] @ [91..<256]) ! unat c) =
      (if 65 \<le> unat c \<and> unat c \<le> 90 then unat c + 32 else unat c)"
    using c by (auto simp: nth_append simp del: upt_rec_numeral)
  have "upper_to_lower c = of_nat (([0..<65] @ [97..<123] @ [91..<256]) ! unat c)"
    unfolding upper_to_lower_def sqlite3UpperToLower_def by (rule nth_map) (use c in \<open>simp del: upt_rec_numeral\<close>)
  then show ?thesis
    unfolding nth by simp
qed

lemma upper_to_lower_0 [simp]: "upper_to_lower 0 = 0" "upper_to_lower c = 0 \<longleftrightarrow> c = 0"
proof -
  show "upper_to_lower 0 = 0"
    by (simp add: upper_to_lower_eq)
  moreover have "c + 32 \<noteq> 0" if "65 \<le> unat c" "unat c \<le> 90"
  proof
    assume "c + 32 = 0"
    then have "unat (c + 32) = 0" by simp
    with that show False
      by (simp add: unat_word_ariths)
  qed
  ultimately show "upper_to_lower c = 0 \<longleftrightarrow> c = 0"
    by (auto simp: upper_to_lower_eq)
qed

lemma lower_simps [simp]: "lower [] = []" "lower (c # z) = (if c = 0 then [] else upper_to_lower c # lower z)"
  by (simp_all add: lower_def)

lemma sqlite3StrICmp_eq: "sqlite3StrICmp a b = 0 \<longleftrightarrow> lower a = lower b"
proof (induction a b rule: sqlite3StrICmp.induct)
  case (1 c a x b)
  have d: "uint (upper_to_lower c) - uint (upper_to_lower x) \<noteq> 0 \<longleftrightarrow> upper_to_lower c \<noteq> upper_to_lower x"
    by (auto intro: word_uint_eqI)
  have zero: "upper_to_lower c = upper_to_lower x \<Longrightarrow> c = 0 \<longleftrightarrow> x = 0"
    by (metis upper_to_lower_0)
  show ?case
  proof (cases "c = x")
    case True
    with 1(1) show ?thesis by simp
  next
    case False
    with 1(2) d zero show ?thesis
      by (cases "upper_to_lower c = upper_to_lower x") (auto simp: Let_def)
  qed
qed (auto simp: unsigned_eq_0_iff)

lemma strHash_lower: "lower a = lower b \<Longrightarrow> strHash a = strHash b"
proof -
  have "strHash_loop h z = foldl (\<lambda>h c. (h + ucast c) * 0x9e3779b1) h (lower z)" for h z
    by (induction h z rule: strHash_loop.induct) simp_all
  then show "lower a = lower b \<Longrightarrow> strHash a = strHash b"
    by (simp add: strHash_def)
qed

section \<open>Doubly linked lists\<close>

text \<open>\<open>dll mem p as q\<close>: the elements at \<open>as\<close> are linked in this order, between \<open>p\<close> and \<open>q\<close>.\<close>

fun first_of :: "addr list \<Rightarrow> addr option \<Rightarrow> addr option" where
  "first_of [] q = q"
| "first_of (a # _) q = Some a"

definition last_of :: "addr option \<Rightarrow> addr list \<Rightarrow> addr option" where
  "last_of p as = (if as = [] then p else Some (last as))"

primrec dll :: "'d mem \<Rightarrow> addr option \<Rightarrow> addr list \<Rightarrow> addr option \<Rightarrow> bool" where
  "dll mem p [] q = True"
| "dll mem p (a # as) q = (\<exists>e. mem a = Some e \<and> he_prev e = p \<and> he_next e = first_of as q \<and> dll mem (Some a) as q)"

lemma first_of_append [simp]: "first_of (xs @ ys) q = first_of xs (first_of ys q)"
  by (cases xs) simp_all

lemma last_of_simps [simp]: "last_of p [] = p" "last_of p (xs @ [a]) = Some a" "last_of (Some a) as = Some (last (a # as))"
  "last_of p (a # as) = last_of (Some a) as"
  by (simp_all add: last_of_def)

lemma dll_append: "dll mem p (xs @ ys) q \<longleftrightarrow> dll mem p xs (first_of ys q) \<and> dll mem (last_of p xs) ys q"
  by (induction xs arbitrary: p) auto

lemma dll_frame: "\<forall>a \<in> set as. mem' a = mem a \<Longrightarrow> dll mem' p as q = dll mem p as q"
  by (induction as arbitrary: p) auto

lemma dll_frame_upd [simp]: "a \<notin> set as \<Longrightarrow> dll (mem(a := x)) p as q = dll mem p as q"
  by (rule dll_frame) auto

lemma dll_set_prev: "dll mem p (a # as) q \<Longrightarrow> a \<notin> set as \<Longrightarrow> dll (mem(a := map_option (\<lambda>e. e\<lparr>he_prev := p'\<rparr>) (mem a))) p' (a # as) q"
  by auto

lemma dll_set_next:
  "dll mem p (as @ [a]) q \<Longrightarrow> a \<notin> set as \<Longrightarrow> dll (mem(a := map_option (\<lambda>e. e\<lparr>he_next := q'\<rparr>) (mem a))) p (as @ [a]) q'"
  by (auto simp: dll_append)

text \<open>What the links do not concern.\<close>

definition contents :: "'d mem \<Rightarrow> addr \<Rightarrow> (bytes \<times> 'd option) option" where
  "contents mem a = map_option (\<lambda>e. (he_key e, he_data e)) (mem a)"

lemma dll_nodes: "dll mem p as q \<Longrightarrow> a \<in> set as \<Longrightarrow> mem a \<noteq> None"
  by (induction as arbitrary: p) auto

text \<open>Linking an element of the memory that is not on the list.\<close>

lemma link_before_dll:
  assumes "dll (h_mem H) None (xs @ p # ys) None" "distinct (a # xs @ p # ys)" "h_mem H a \<noteq> None"
    "h_first H = first_of (xs @ p # ys) None"
  shows "\<exists>mem. link_before p a H = Some (H\<lparr>h_mem := mem, h_first := first_of (xs @ a # p # ys) None\<rparr>) \<and>
    dll mem None (xs @ a # p # ys) None \<and> contents mem = contents (h_mem H) \<and>
    (\<forall>b. b \<notin> set (a # xs @ p # ys) \<longrightarrow> mem b = h_mem H b)"
proof -
  let ?m = "h_mem H"
  obtain e where e: "?m a = Some e"
    using assms(3) by auto
  have parts: "dll ?m None xs (Some p)" "dll ?m (last_of None xs) (p # ys) None"
    using assms(1) by (simp_all add: dll_append)
  then obtain hd where hd: "?m p = Some hd" "he_prev hd = last_of None xs" "he_next hd = first_of ys None"
    "dll ?m (Some p) ys None"
    by auto
  show ?thesis
  proof (cases xs rule: rev_cases)
    case Nil
    let ?mem = "?m(a \<mapsto> e\<lparr>he_next := Some p, he_prev := None\<rparr>, p \<mapsto> hd\<lparr>he_prev := Some a\<rparr>)"
    have "link_before p a H = Some (H\<lparr>h_mem := ?mem, h_first := first_of (xs @ a # p # ys) None\<rparr>)"
      using e hd Nil assms(2,4) by (auto simp: link_before_def update_elem_def)
    moreover have "dll ?mem None (xs @ a # p # ys) None"
      using hd Nil assms(2) by auto
    moreover have "contents ?mem = contents ?m"
      using e hd(1) assms(2) by (auto simp: contents_def fun_eq_iff)
    moreover have "\<forall>b. b \<notin> set (a # xs @ p # ys) \<longrightarrow> ?mem b = ?m b"
      by auto
    ultimately show ?thesis by blast
  next
    case (snoc xs' q)
    obtain eq where q: "?m q = Some eq"
      using parts(1) snoc by (auto simp: dll_append)
    let ?mem = "?m(a \<mapsto> e\<lparr>he_next := Some p, he_prev := Some q\<rparr>, q \<mapsto> eq\<lparr>he_next := Some a\<rparr>, p \<mapsto> hd\<lparr>he_prev := Some a\<rparr>)"
    have "link_before p a H = Some (H\<lparr>h_mem := ?mem\<rparr>)"
      using e hd q snoc assms(2) by (auto simp: link_before_def update_elem_def)
    moreover have "H\<lparr>h_mem := ?mem\<rparr> = H\<lparr>h_mem := ?mem, h_first := first_of (xs @ a # p # ys) None\<rparr>"
      using assms(4) snoc by (cases H) (cases xs'; simp)
    moreover have "dll ?mem None (xs @ a # p # ys) None"
      using parts(1) hd q snoc assms(2) by (auto simp: dll_append)
    moreover have "contents ?mem = contents ?m"
      using e hd(1) q assms(2) snoc by (auto simp: contents_def fun_eq_iff)
    moreover have "\<forall>b. b \<notin> set (a # xs @ p # ys) \<longrightarrow> ?mem b = ?m b"
      using snoc by auto
    ultimately show ?thesis by metis
  qed
qed

lemma link_first_dll:
  assumes "dll (h_mem H) None as None" "distinct (a # as)" "h_mem H a \<noteq> None" "h_first H = first_of as None"
  shows "\<exists>mem. link_first a H = Some (H\<lparr>h_mem := mem, h_first := Some a\<rparr>) \<and>
    dll mem None (a # as) None \<and> contents mem = contents (h_mem H) \<and> (\<forall>b. b \<notin> set (a # as) \<longrightarrow> mem b = h_mem H b)"
proof -
  let ?m = "h_mem H"
  obtain e where e: "?m a = Some e"
    using assms(3) by auto
  show ?thesis
  proof (cases as)
    case Nil
    let ?mem = "?m(a \<mapsto> e\<lparr>he_next := None, he_prev := None\<rparr>)"
    have "link_first a H = Some (H\<lparr>h_mem := ?mem, h_first := Some a\<rparr>)"
      using e Nil assms(4) by (simp add: link_first_def update_elem_def)
    moreover have "dll ?mem None (a # as) None \<and> contents ?mem = contents ?m \<and> (\<forall>b. b \<notin> set (a # as) \<longrightarrow> ?mem b = ?m b)"
      using e Nil by (auto simp: contents_def)
    ultimately show ?thesis by blast
  next
    case (Cons f fs)
    then obtain ef where f: "?m f = Some ef"
      using assms(1) by auto
    let ?mem = "?m(a \<mapsto> e\<lparr>he_next := Some f, he_prev := None\<rparr>, f \<mapsto> ef\<lparr>he_prev := Some a\<rparr>)"
    have "link_first a H = Some (H\<lparr>h_mem := ?mem, h_first := Some a\<rparr>)"
      using e f Cons assms(2,4) by (auto simp: link_first_def update_elem_def fun_upd_twist)
    moreover have "dll ?mem None (a # as) None"
      using assms(1,2) Cons f by auto
    moreover have "contents ?mem = contents ?m"
      using e f assms(2) Cons by (auto simp: contents_def fun_eq_iff)
    moreover have "\<forall>b. b \<notin> set (a # as) \<longrightarrow> ?mem b = ?m b"
      using Cons by auto
    ultimately show ?thesis by blast
  qed
qed

text \<open>Taking an element out; its own links stay.\<close>

lemma unlink_dll:
  assumes "dll (h_mem H) None (xs @ a # zs) None" "distinct (xs @ a # zs)" "h_first H = first_of (xs @ a # zs) None"
  shows "\<exists>mem e. unlink a H = Some (H\<lparr>h_mem := mem, h_first := first_of (xs @ zs) None\<rparr>) \<and>
    dll (mem(a := None)) None (xs @ zs) None \<and> contents mem = contents (h_mem H) \<and> mem a = Some e \<and> he_next e = first_of zs None"
proof -
  let ?m = "h_mem H"
  have parts: "dll ?m None xs (Some a)" "dll ?m (last_of None xs) (a # zs) None"
    using assms(1) by (simp_all add: dll_append)
  then obtain e where e: "?m a = Some e" "he_prev e = last_of None xs" "he_next e = first_of zs None" "dll ?m (Some a) zs None"
    by auto
  define m1 where "m1 = (case rev xs of [] \<Rightarrow> ?m | q # _ \<Rightarrow> ?m(q := map_option (\<lambda>e. e\<lparr>he_next := first_of zs None\<rparr>) (?m q)))"
  have m1: "dll m1 None xs (first_of zs None)" "dll m1 (Some a) zs None" "m1 a = ?m a" "contents m1 = contents ?m"
    "(case he_prev e of
        Some p \<Rightarrow> map_option (\<lambda>mem. H\<lparr>h_mem := mem\<rparr>) (update_elem p (\<lambda>e'. e'\<lparr>he_next := he_next e\<rparr>) ?m)
      | None \<Rightarrow> Some (H\<lparr>h_first := he_next e\<rparr>)) = Some (H\<lparr>h_mem := m1, h_first := first_of (xs @ zs) None\<rparr>)"
  proof -
    have "dll m1 None xs (first_of zs None) \<and> dll m1 (Some a) zs None \<and> m1 a = ?m a \<and> contents m1 = contents ?m \<and>
     (case he_prev e of
        Some p \<Rightarrow> map_option (\<lambda>mem. H\<lparr>h_mem := mem\<rparr>) (update_elem p (\<lambda>e'. e'\<lparr>he_next := he_next e\<rparr>) ?m)
      | None \<Rightarrow> Some (H\<lparr>h_first := he_next e\<rparr>)) = Some (H\<lparr>h_mem := m1, h_first := first_of (xs @ zs) None\<rparr>)"
    proof (cases xs rule: rev_cases)
      case Nil
      with e assms(3) show ?thesis
        by (simp add: m1_def)
    next
      case (snoc xs' q)
      then obtain eq where q: "?m q = Some eq"
        using parts(1) by (auto simp: dll_append)
      have upd: "m1 = ?m(q := map_option (\<lambda>e. e\<lparr>he_next := first_of zs None\<rparr>) (?m q))"
        by (simp add: m1_def snoc)
      have "dll m1 None xs (first_of zs None)"
        unfolding upd snoc by (rule dll_set_next) (use parts(1) assms(2) snoc in auto)
      moreover have "dll m1 (Some a) zs None" "m1 a = ?m a"
        using e(4) assms(2) snoc by (auto simp: upd)
      moreover have "contents m1 = contents ?m"
        using q by (auto simp: upd contents_def fun_eq_iff)
      moreover have "H\<lparr>h_mem := m1\<rparr> = H\<lparr>h_mem := m1, h_first := first_of (xs @ zs) None\<rparr>"
        using assms(3) snoc by (cases H) (cases xs'; simp)
      ultimately show ?thesis
        using e(2,3) snoc q by (simp add: upd update_elem_def)
    qed
    then show "dll m1 None xs (first_of zs None)" "dll m1 (Some a) zs None" "m1 a = ?m a" "contents m1 = contents ?m"
      "(case he_prev e of
          Some p \<Rightarrow> map_option (\<lambda>mem. H\<lparr>h_mem := mem\<rparr>) (update_elem p (\<lambda>e'. e'\<lparr>he_next := he_next e\<rparr>) ?m)
        | None \<Rightarrow> Some (H\<lparr>h_first := he_next e\<rparr>)) = Some (H\<lparr>h_mem := m1, h_first := first_of (xs @ zs) None\<rparr>)"
      by blast+
  qed
  show ?thesis
  proof (cases zs)
    case Nil
    have "unlink a H = Some (H\<lparr>h_mem := m1, h_first := first_of (xs @ zs) None\<rparr>)"
      using e m1(5) Nil by (simp add: unlink_def)
    with m1 e assms(2) Nil show ?thesis
      by auto
  next
    case (Cons n ns)
    then obtain en where n: "m1 n = Some en"
      using m1(2) by auto
    let ?mem = "m1(n := map_option (\<lambda>e'. e'\<lparr>he_prev := last_of None xs\<rparr>) (m1 n))"
    have "unlink a H = Some (H\<lparr>h_mem := ?mem, h_first := first_of (xs @ zs) None\<rparr>)"
      using e m1(5) Cons n by (simp add: unlink_def update_elem_def)
    moreover have "dll ?mem (last_of None xs) zs None"
      unfolding Cons by (rule dll_set_prev) (use m1(2) Cons assms(2) in auto)
    then have "dll (?mem(a := None)) None (xs @ zs) None"
      using m1(1) Cons assms(2) by (simp add: dll_append)
    moreover have "contents ?mem = contents ?m"
      unfolding m1(4) [symmetric] using n by (auto simp: contents_def fun_eq_iff)
    moreover have "?mem a = Some e"
      using m1(3) e(1) Cons assms(2) by auto
    ultimately show ?thesis
      using e(3) by blast
  qed
qed

section \<open>Buckets\<close>

text \<open>
  The list is a sequence of groups, one for each hash in use, and every bucket gives its group by the first element and the
  length.
\<close>

type_synonym groups = "(nat \<times> addr list) list"

definition members :: "groups \<Rightarrow> addr list" where
  "members gs = concat (map snd gs)"

definition grouped :: "(addr \<Rightarrow> nat) \<Rightarrow> groups \<Rightarrow> bool" where
  "grouped hs gs \<longleftrightarrow> distinct (map fst gs) \<and> (\<forall>(h, ys) \<in> set gs. ys \<noteq> [] \<and> (\<forall>a \<in> set ys. hs a = h))"

definition bucket_ok :: "bucket \<Rightarrow> addr list option \<Rightarrow> bool" where
  "bucket_ok b g = (case g of None \<Rightarrow> ht_count b = 0 | Some ys \<Rightarrow> ht_count b = length ys \<and> ht_chain b = Some (hd ys))"

definition buckets_ok :: "bucket list \<Rightarrow> groups \<Rightarrow> bool" where
  "buckets_ok bs gs \<longleftrightarrow> (\<forall>h < length bs. bucket_ok (bs ! h) (map_of gs h))"

lemma members_simps [simp]: "members [] = []" "members ((h, ys) # gs) = ys @ members gs" "members (gs @ gs') = members gs @ members gs'"
  by (simp_all add: members_def)

lemma grouped_None: "grouped hs gs \<Longrightarrow> map_of gs h = None \<longleftrightarrow> h \<notin> hs ` set (members gs)"
proof -
  assume g: "grouped hs gs"
  have "fst ` set gs = hs ` set (members gs)"
  proof (intro equalityI subsetI)
    fix h assume "h \<in> fst ` set gs"
    then obtain ys where ys: "(h, ys) \<in> set gs" by auto
    with g obtain a where "a \<in> set ys" "hs a = h"
      by (fastforce simp: grouped_def dest: hd_in_set)
    with ys show "h \<in> hs ` set (members gs)"
      by (force simp: members_def)
  next
    fix h assume "h \<in> hs ` set (members gs)"
    then obtain a k ys where "(k, ys) \<in> set gs" "a \<in> set ys" "h = hs a"
      by (auto simp: members_def)
    with g show "h \<in> fst ` set gs"
      by (force simp: grouped_def)
  qed
  then show ?thesis
    by (simp add: map_of_eq_None_iff)
qed

lemma grouped_absent: "grouped hs gs \<Longrightarrow> map_of gs h = None \<Longrightarrow> a \<in> set (members gs) \<Longrightarrow> hs a \<noteq> h"
  using grouped_None [of hs gs h] by blast

lemma grouped_split:
  assumes "grouped hs gs" "map_of gs h = Some ys"
  obtains g1 g2 where "gs = g1 @ (h, ys) # g2" "map_of (g1 @ g2) h = None" "ys \<noteq> []"
proof -
  obtain g1 g2 where gs: "gs = g1 @ (h, ys) # g2"
    using map_of_SomeD [OF assms(2)] by (auto dest: split_list)
  with assms(1) have "map_of (g1 @ g2) h = None" "ys \<noteq> []"
    by (auto simp: grouped_def map_of_eq_None_iff)
  with gs show thesis
    by (rule that)
qed

lemma map_of_split: "map_of (g1 @ (h, ys) # g2) k = (if k = h \<and> map_of g1 h = None then Some ys else map_of (g1 @ g2) k)"
  by (auto simp: map_add_def split: option.splits)

lemma grouped_replace:
  "grouped hs (g1 @ (h, ys) # g2) \<Longrightarrow> ys' \<noteq> [] \<Longrightarrow> \<forall>a \<in> set ys'. hs a = h \<Longrightarrow> grouped hs (g1 @ (h, ys') # g2)"
  by (auto simp: grouped_def)

lemma grouped_delete: "grouped hs (g1 @ (h, ys) # g2) \<Longrightarrow> grouped hs (g1 @ g2)"
  by (auto simp: grouped_def)

lemma buckets_replace:
  assumes "buckets_ok bs (g1 @ (h, ys) # g2)" "distinct (map fst (g1 @ (h, ys) # g2))" "bucket_ok b (Some ys')"
  shows "buckets_ok (bs[h := b]) (g1 @ (h, ys') # g2)"
proof -
  have new: "map_of g1 h = None"
    using assms(2) by (simp add: map_of_eq_None_iff)
  then have "map_of (g1 @ (h, ys') # g2) k = (if k = h then Some ys' else map_of (g1 @ (h, ys) # g2) k)" for k
    by (simp add: map_of_split del: map_of_append)
  with assms(1,3) show ?thesis
    by (auto simp: buckets_ok_def nth_list_update)
qed

lemma buckets_delete:
  assumes "buckets_ok bs (g1 @ (h, ys) # g2)" "distinct (map fst (g1 @ (h, ys) # g2))" "ht_count b = 0"
  shows "buckets_ok (bs[h := b]) (g1 @ g2)"
proof -
  have "map_of g1 h = None" "map_of g2 h = None"
    using assms(2) by (simp_all add: map_of_eq_None_iff)
  then have "map_of (g1 @ g2) k = (if k = h then None else map_of (g1 @ (h, ys) # g2) k)" for k
    by (cases "k = h"; cases "map_of g1 k") (simp_all add: map_add_def)
  with assms(1,3) show ?thesis
    by (auto simp: buckets_ok_def nth_list_update bucket_ok_def [of b])
qed

lemma buckets_add:
  assumes "buckets_ok bs gs" "bucket_ok b (Some ys)"
  shows "buckets_ok (bs[h := b]) ((h, ys) # gs)"
  using assms by (auto simp: buckets_ok_def nth_list_update)

section \<open>The table\<close>

text \<open>The elements \<open>as\<close> in the order of the list, and their groups when there are buckets.\<close>

definition key_at :: "'d hash \<Rightarrow> addr \<Rightarrow> bytes" where
  "key_at H a = he_key (the (h_mem H a))"

definition linked :: "'d hash \<Rightarrow> addr list \<Rightarrow> bool" where
  "linked H as \<longleftrightarrow> dll (h_mem H) None as None \<and> distinct as \<and> h_first H = first_of as None"

definition bucketed :: "'d hash \<Rightarrow> addr list \<Rightarrow> bool" where
  "bucketed H as = (case h_ht H of
     None \<Rightarrow> h_size H = 0
   | Some bs \<Rightarrow> length bs = h_size H \<and> 0 < h_size H \<and> h_size H < 2 ^ 31 \<and>
       (\<exists>gs. as = members gs \<and> grouped (\<lambda>a. strHash (key_at H a) mod h_size H) gs \<and> buckets_ok bs gs))"

lemma bucketedI: "h_ht H = Some bs \<Longrightarrow> length bs = h_size H \<Longrightarrow> 0 < h_size H \<Longrightarrow> h_size H < 2 ^ 31 \<Longrightarrow> members gs = as \<Longrightarrow>
    grouped (\<lambda>a. strHash (key_at H a) mod h_size H) gs \<Longrightarrow> buckets_ok bs gs \<Longrightarrow> bucketed H as"
  by (auto simp: bucketed_def)

lemma contents_key: "contents (h_mem H') = contents (h_mem H) \<Longrightarrow> h_mem H a \<noteq> None \<Longrightarrow> key_at H' a = key_at H a"
proof -
  assume "contents (h_mem H') = contents (h_mem H)" "h_mem H a \<noteq> None"
  then have "contents (h_mem H') a = contents (h_mem H) a" "h_mem H a \<noteq> None" by simp_all
  then show ?thesis
    by (auto simp: contents_def key_at_def)
qed

text \<open>The bucket into which an element belongs.\<close>

definition entry_of :: "'d hash \<Rightarrow> bytes \<Rightarrow> nat option" where
  "entry_of H key = (if h_ht H = None then None else Some (strHash key mod h_size H))"

definition same_shape :: "'d hash \<Rightarrow> 'd hash \<Rightarrow> bool" where
  "same_shape H H' \<longleftrightarrow> contents (h_mem H') = contents (h_mem H) \<and> h_count H' = h_count H \<and> h_size H' = h_size H \<and>
     (h_ht H' = None \<longleftrightarrow> h_ht H = None)"

lemma insertElement_ok:
  assumes "linked H as" "bucketed H as" "a \<notin> set as" "h_mem H a \<noteq> None" "length as < 2 ^ 32 - 1"
  shows "\<exists>H' as'. insertElement (entry_of H (key_at H a)) a H = Some H' \<and> linked H' as' \<and> bucketed H' as' \<and>
    set as' = insert a (set as) \<and> same_shape H H' \<and> (\<forall>b. b \<notin> insert a (set as) \<longrightarrow> h_mem H' b = h_mem H b)"
proof (cases "h_ht H")
  case None
  from link_first_dll [of H as a] assms obtain mem where
    mem: "link_first a H = Some (H\<lparr>h_mem := mem, h_first := Some a\<rparr>)" "dll mem None (a # as) None"
      "contents mem = contents (h_mem H)" "\<forall>b. b \<notin> set (a # as) \<longrightarrow> mem b = h_mem H b"
    by (auto simp: linked_def)
  then show ?thesis
    using None assms
    by (intro exI [of _ "H\<lparr>h_mem := mem, h_first := Some a\<rparr>"] exI [of _ "a # as"])
      (simp add: insertElement_def entry_of_def linked_def bucketed_def same_shape_def)
next
  case (Some bs)
  let ?hs = "\<lambda>a. strHash (key_at H a) mod h_size H"
  obtain gs where bs: "length bs = h_size H" "0 < h_size H" "h_size H < 2 ^ 31" and gs: "as = members gs" "grouped ?hs gs" "buckets_ok bs gs"
    using assms(2) Some by (auto simp: bucketed_def)
  let ?h = "?hs a"
  have h: "?h < length bs"
    using bs by simp
  then have b: "bucket_ok (bs ! ?h) (map_of gs ?h)"
    using gs(3) by (simp add: buckets_ok_def)
  have mem: "\<forall>b \<in> set (a # as). h_mem H b \<noteq> None"
    using assms(1,4) dll_nodes by (auto simp: linked_def)
  have keys: "key_at H' b = key_at H b" if "contents (h_mem H') = contents (h_mem H)" "b \<in> set (a # as)" for H' b
    using contents_key [OF that(1)] mem that(2) by blast
  have grouped_same: "grouped (\<lambda>a. strHash (key_at H' a) mod h_size H) gs'"
    if "contents (h_mem H') = contents (h_mem H)" "set (members gs') \<subseteq> set (a # as)" "grouped ?hs gs'" for H' gs'
    using that(3) keys [OF that(1) subsetD [OF that(2)]] by (fastforce simp: grouped_def members_def)
  have entry: "entry_of H (key_at H a) = Some ?h"
    using Some by (simp add: entry_of_def)
  show ?thesis
  proof (cases "map_of gs ?h")
    case None
    let ?b = "\<lparr>ht_count = 1, ht_chain = Some a\<rparr>"
    let ?H = "H\<lparr>h_ht := Some (bs[?h := ?b])\<rparr>"
    from link_first_dll [of ?H as a] assms obtain mem where
      m: "link_first a ?H = Some (?H\<lparr>h_mem := mem, h_first := Some a\<rparr>)" "dll mem None (a # as) None"
        "contents mem = contents (h_mem H)" "\<forall>b. b \<notin> set (a # as) \<longrightarrow> mem b = h_mem H b"
      by (auto simp: linked_def)
    let ?H' = "?H\<lparr>h_mem := mem, h_first := Some a\<rparr>"
    have "grouped ?hs ((?h, [a]) # gs)"
      using gs(2) None by (auto simp: grouped_def map_of_eq_None_iff)
    then have "bucketed ?H' (a # as)"
      using bs gs grouped_same [of ?H' "(?h, [a]) # gs"] m(3) buckets_add [OF gs(3), of ?b "[a]" ?h]
      by (auto simp: bucketed_def bucket_ok_def intro!: exI [of _ "(?h, [a]) # gs"])
    moreover have "insertElement (Some ?h) a H = Some ?H'"
      using Some h b None m(1) by (simp add: insertElement_def bucket_ok_def Let_def)
    ultimately show ?thesis
      unfolding entry using m assms Some
      by (intro exI [of _ ?H'] exI [of _ "a # as"]) (simp add: linked_def same_shape_def)
  next
    case ys: (Some ys)
    from grouped_split [OF gs(2) ys] obtain g1 g2 where g: "gs = g1 @ (?h, ys) # g2" "ys \<noteq> []" by metis
    obtain p ys' where p: "ys = p # ys'"
      using g(2) by (cases ys) auto
    have as: "as = members g1 @ p # (ys' @ members g2)"
      using gs(1) g(1) p by simp
    have len: "length ys < 2 ^ 32 - 1" "ht_count (bs ! ?h) = length ys" "ht_chain (bs ! ?h) = Some p"
      using b ys p assms(5) as by (simp_all add: bucket_ok_def)
    let ?b = "\<lparr>ht_count = length ys + 1, ht_chain = Some a\<rparr>"
    let ?H = "H\<lparr>h_ht := Some (bs[?h := ?b])\<rparr>" and ?as = "members g1 @ a # p # ys' @ members g2"
    from link_before_dll [of ?H "members g1" p "ys' @ members g2" a] assms(1,3,4) obtain mem where
      m: "link_before p a ?H = Some (?H\<lparr>h_mem := mem, h_first := first_of ?as None\<rparr>)" "dll mem None ?as None"
        "contents mem = contents (h_mem H)" "\<forall>b. b \<notin> set (a # as) \<longrightarrow> mem b = h_mem H b"
      unfolding as by (auto simp: linked_def)
    let ?H' = "?H\<lparr>h_mem := mem, h_first := first_of ?as None\<rparr>" and ?gs = "g1 @ (?h, a # ys) # g2"
    have "grouped ?hs ?gs"
      by (rule grouped_replace [where ys = ys]) (use gs(2) g in \<open>auto simp: grouped_def\<close>)
    moreover have "?as = members ?gs" "set (members ?gs) \<subseteq> set (a # as)"
      using p as by auto
    moreover have "buckets_ok (bs[?h := ?b]) ?gs"
      by (rule buckets_replace [where ys = ys]) (use gs(2,3) g(1) in \<open>auto simp: grouped_def bucket_ok_def\<close>)
    ultimately have "bucketed ?H' ?as"
      using bs grouped_same [of ?H' ?gs] m(3) by (auto simp: bucketed_def intro!: exI [of _ ?gs])
    moreover have "insertElement (Some ?h) a H = Some ?H'"
      using Some h len p m(1) by (simp add: insertElement_def Let_def)
    moreover have "linked ?H' ?as"
      using m(2) assms(1,3) as by (auto simp: linked_def)
    ultimately show ?thesis
      unfolding entry using m(3,4) as Some
      by (intro exI [of _ ?H'] exI [of _ ?as]) (auto simp: same_shape_def)
  qed
qed

lemma same_shape_refl [simp]: "same_shape H H"
  by (simp add: same_shape_def)

lemma same_shape_trans: "same_shape H H' \<Longrightarrow> same_shape H' H'' \<Longrightarrow> same_shape H H''"
  by (simp add: same_shape_def)

text \<open>Rehashing moves the elements \<open>rs\<close> that are left, whose links are still the old ones, to the new list \<open>as\<close>.\<close>

lemma rehash_loop_ok:
  assumes "linked H as" "bucketed H as" "dll (h_mem H) p rs None" "distinct (as @ rs)" "h_ht H \<noteq> None" "length rs \<le> n"
    "length (as @ rs) < 2 ^ 32"
  shows "\<exists>H' as'. rehash_loop n (first_of rs None) H = Some H' \<and> linked H' as' \<and> bucketed H' as' \<and>
    set as' = set as \<union> set rs \<and> same_shape H H'"
  using assms
proof (induction rs arbitrary: n H as p)
  case Nil
  then show ?case
    by (intro exI [of _ H] exI [of _ as]) simp
next
  case (Cons a rs)
  obtain n' where n: "n = Suc n'" using Cons.prems(6) by (cases n) auto
  obtain e where e: "h_mem H a = Some e" "he_next e = first_of rs None" "dll (h_mem H) (Some a) rs None"
    using Cons.prems(3) by auto
  have "entry_of H (key_at H a) = Some (strHash (he_key e) mod h_size H)"
    using Cons.prems(5) e(1) by (simp add: entry_of_def key_at_def)
  moreover have "a \<notin> set as" "h_mem H a \<noteq> None" "length as < 2 ^ 32 - 1"
    using Cons.prems(4,7) e(1) by simp_all
  ultimately obtain H1 as1 where H1: "insertElement (Some (strHash (he_key e) mod h_size H)) a H = Some H1" "linked H1 as1"
    "bucketed H1 as1" "set as1 = insert a (set as)" "same_shape H H1"
    "\<forall>b. b \<notin> insert a (set as) \<longrightarrow> h_mem H1 b = h_mem H b"
    using insertElement_ok [OF Cons.prems(1,2)] by metis
  have dist: "distinct as1"
    using H1(2) by (simp add: linked_def)
  then have len: "length as1 = length as + 1"
    using H1(4) Cons.prems(4) distinct_card [of as1] distinct_card [of as] by simp
  have "\<exists>H' as'. rehash_loop n' (first_of rs None) H1 = Some H' \<and> linked H' as' \<and> bucketed H' as' \<and>
    set as' = set as1 \<union> set rs \<and> same_shape H1 H'"
  proof (rule Cons.IH [OF H1(2,3)])
    have "dll (h_mem H1) (Some a) rs None = dll (h_mem H) (Some a) rs None"
      by (rule dll_frame) (use H1(6) Cons.prems(4) in auto)
    with e(3) show "dll (h_mem H1) (Some a) rs None" by simp
    show "distinct (as1 @ rs)"
      using dist H1(4) Cons.prems(4) by auto
  qed (use H1(5) Cons.prems(5-7) n len in \<open>auto simp: same_shape_def\<close>)
  then show ?case
    using e H1 n same_shape_trans [OF H1(5)] by auto
qed

lemma grouped_members_empty: "grouped hs [] \<and> members [] = []"
  by (simp add: grouped_def)

lemma rehash_ok:
  assumes "linked H as" "bucketed H as" "length as \<le> h_count H" "h_count H < 2 ^ 32" "0 < n"
  shows "\<exists>r H' as'. rehash extra n H = Some (r, H') \<and> linked H' as' \<and> bucketed H' as' \<and> set as' = set as \<and>
    contents (h_mem H') = contents (h_mem H) \<and> h_count H' = h_count H \<and> (r \<longrightarrow> h_ht H' \<noteq> None) \<and> (\<not> r \<longrightarrow> H' = H)"
proof -
  define n' where "n' = (if n * 16 > SQLITE_MALLOC_SOFT_LIMIT then SQLITE_MALLOC_SOFT_LIMIT div 16 else n)"
  show ?thesis
  proof (cases "n' = h_size H \<or> extra = None \<or> (\<exists>x. extra = Some x \<and> \<not> n' * 16 + x < 2 ^ 31)")
    case True
    then have "rehash extra n H = Some (False, H)"
      by (auto simp: rehash_def Let_def n'_def [symmetric])
    with assms show ?thesis
      by (intro exI [of _ False] exI [of _ H] exI [of _ as]) simp
  next
    case False
    then obtain x where x: "extra = Some x" "n' * 16 + x < 2 ^ 31" "n' \<noteq> h_size H"
      by (cases extra) auto
    let ?size = "(n' * 16 + x) div 16"
    let ?H = "H\<lparr>h_ht := Some (replicate ?size \<lparr>ht_count = 0, ht_chain = None\<rparr>), h_size := ?size, h_first := None\<rparr>"
    have run: "rehash extra n H = map_option (\<lambda>H. (True, H)) (rehash_loop (h_count H) (first_of as None) ?H)"
      using x assms(1) by (simp add: rehash_def Let_def n'_def [symmetric] linked_def)
    have "0 < n'"
      using assms(5) by (simp add: n'_def SQLITE_MALLOC_SOFT_LIMIT_def)
    then have size: "0 < ?size" "?size < 2 ^ 31"
      using x(2) by auto
    have "\<exists>H' as'. rehash_loop (h_count H) (first_of as None) ?H = Some H' \<and> linked H' as' \<and> bucketed H' as' \<and>
      set as' = set [] \<union> set as \<and> same_shape ?H H'"
    proof (rule rehash_loop_ok [where p = None])
      show "linked ?H []"
        by (simp add: linked_def)
      show "bucketed ?H []"
        using size by (auto simp: bucketed_def buckets_ok_def bucket_ok_def grouped_def intro!: exI [of _ "[]"])
    qed (use assms in \<open>auto simp: linked_def\<close>)
    then show ?thesis
      unfolding run by (fastforce simp: same_shape_def)
  qed
qed

section \<open>Searching\<close>

lemma find_loop_dll:
  "dll mem p as q \<Longrightarrow> find_loop (length as) key mem (first_of as q) =
    Some (List.find (\<lambda>a. lower (he_key (the (mem a))) = lower key) as)"
  by (induction as arbitrary: p) (auto simp: sqlite3StrICmp_eq)

lemma find_append: "List.find P (xs @ ys) = (case List.find P xs of None \<Rightarrow> List.find P ys | Some x \<Rightarrow> Some x)"
  by (induction xs) auto

text \<open>Elements with the name that is searched are all in its bucket.\<close>

lemma findElement_ok:
  assumes "linked H as" "bucketed H as" "length as = h_count H"
  shows "\<exists>h. findElementWithHash key H = Some (List.find (\<lambda>a. lower (key_at H a) = lower key) as, h) \<and>
    (h_ht H \<noteq> None \<longrightarrow> h = strHash key mod h_size H)"
proof (cases "h_ht H")
  case None
  with find_loop_dll [of "h_mem H" None as None key] assms show ?thesis
    by (simp add: findElementWithHash_def linked_def key_at_def)
next
  case (Some bs)
  let ?hs = "\<lambda>a. strHash (key_at H a) mod h_size H" and ?h = "strHash key mod h_size H" and ?P = "\<lambda>a. lower (key_at H a) = lower key"
  obtain gs where bs: "length bs = h_size H" "0 < h_size H" and gs: "as = members gs" "grouped ?hs gs" "buckets_ok bs gs"
    using assms(2) Some by (auto simp: bucketed_def)
  then have h: "?h < length bs" "bucket_ok (bs ! ?h) (map_of gs ?h)"
    by (auto simp: buckets_ok_def)
  have same: "?hs a = ?h" if "?P a" for a
    using strHash_lower [OF that] by simp
  have run: "findElementWithHash key H = map_option (\<lambda>r. (r, ?h)) (find_loop (ht_count (bs ! ?h)) key (h_mem H) (ht_chain (bs ! ?h)))"
    using Some h(1) by (simp add: findElementWithHash_def Let_def)
  show ?thesis
  proof (cases "map_of gs ?h")
    case None
    then have "\<forall>a \<in> set as. \<not> ?P a"
      using grouped_absent [OF gs(2)] gs(1) same by blast
    then have "List.find ?P as = None"
      by (simp add: find_None_iff)
    with run h(2) None show ?thesis
      by (simp add: bucket_ok_def)
  next
    case ys: (Some ys)
    from grouped_split [OF gs(2) ys] obtain g1 g2 where g: "gs = g1 @ (?h, ys) # g2" "map_of (g1 @ g2) ?h = None" "ys \<noteq> []" by metis
    have "grouped ?hs (g1 @ g2)"
      using gs(2) g(1) by (auto simp: grouped_def)
    then have "\<forall>a \<in> set (members (g1 @ g2)). \<not> ?P a"
      using grouped_absent [OF _ g(2)] same by blast
    then have "List.find ?P (members g1) = None" "List.find ?P (members g2) = None"
      by (auto simp: find_None_iff)
    then have "List.find ?P as = List.find ?P ys"
      using gs(1) g(1) by (simp add: find_append split: option.split)
    moreover have part: "dll (h_mem H) (last_of None (members g1)) ys (first_of (members g2) None)"
      using assms(1) gs(1) g(1) by (simp add: linked_def dll_append)
    have "find_loop (length ys) key (h_mem H) (first_of ys (first_of (members g2) None)) = Some (List.find ?P ys)"
      using find_loop_dll [OF part, of key] by (simp add: key_at_def)
    moreover have "first_of ys (first_of (members g2) None) = ht_chain (bs ! ?h)" "ht_count (bs ! ?h) = length ys"
      using h(2) ys g(3) by (cases ys; simp add: bucket_ok_def)+
    ultimately show ?thesis
      using run by simp
  qed
qed

section \<open>Invariant and abstraction\<close>

definition data_at :: "'d hash \<Rightarrow> addr \<Rightarrow> 'd option" where
  "data_at H a = he_data (the (h_mem H a))"

text \<open>The memory holds the listed elements and nothing else, no two of one name, and all have data.\<close>

definition hash_ok :: "'d hash \<Rightarrow> addr list \<Rightarrow> bool" where
  "hash_ok H as \<longleftrightarrow> linked H as \<and> bucketed H as \<and> dom (h_mem H) = set as \<and> h_count H = length as \<and> length as \<le> max_elems \<and>
     inj_on (\<lambda>a. lower (key_at H a)) (set as) \<and> (\<forall>a \<in> set as. data_at H a \<noteq> None)"

definition hash_inv :: "'d hash \<Rightarrow> bool" where
  "hash_inv H \<longleftrightarrow> (\<exists>as. hash_ok H as)"

text \<open>The elements in the order of the list, and the map from names in lower case to data.\<close>

fun elements :: "nat \<Rightarrow> addr option \<Rightarrow> 'd mem \<Rightarrow> addr list" where
  "elements (Suc n) (Some a) mem = a # elements n (he_next (the (mem a))) mem"
| "elements _ _ mem = []"

definition hash_abs :: "'d hash \<Rightarrow> bytes \<Rightarrow> 'd option" where
  "hash_abs H = map_of (map (\<lambda>a. (lower (key_at H a), the (data_at H a))) (elements (h_count H) (h_first H) (h_mem H)))"

lemma elements_dll: "dll mem p as None \<Longrightarrow> elements (length as) (first_of as None) mem = as"
  by (induction as arbitrary: p) auto

lemma hash_abs_iff:
  assumes "hash_ok H as"
  shows "hash_abs H k = Some d \<longleftrightarrow> (\<exists>a \<in> set as. lower (key_at H a) = k \<and> data_at H a = Some d)"
proof -
  have "elements (h_count H) (h_first H) (h_mem H) = as"
    using assms elements_dll [of "h_mem H" None as] by (simp add: hash_ok_def linked_def)
  then have abs: "hash_abs H = map_of (map (\<lambda>a. (lower (key_at H a), the (data_at H a))) as)"
    by (simp add: hash_abs_def)
  have "distinct (map fst (map (\<lambda>a. (lower (key_at H a), the (data_at H a))) as))"
    using assms by (simp add: hash_ok_def linked_def distinct_map comp_def)
  then have "hash_abs H k = Some d \<longleftrightarrow> (k, d) \<in> set (map (\<lambda>a. (lower (key_at H a), the (data_at H a))) as)"
    unfolding abs by (rule map_of_eq_Some_iff)
  also have "\<dots> \<longleftrightarrow> (\<exists>a \<in> set as. lower (key_at H a) = k \<and> data_at H a = Some d)"
    using assms by (fastforce simp: hash_ok_def)
  finally show ?thesis .
qed

lemma hash_absI:
  assumes "hash_ok H as" "\<And>k d. m k = Some d \<longleftrightarrow> (\<exists>a \<in> set as. lower (key_at H a) = k \<and> data_at H a = Some d)"
  shows "hash_abs H = m"
proof
  fix k
  have "hash_abs H k = Some d \<longleftrightarrow> m k = Some d" for d
    using hash_abs_iff [OF assms(1)] assms(2) by blast
  then show "hash_abs H k = m k"
    by (metis not_Some_eq)
qed

lemma contents_at: "contents (h_mem H') a = contents (h_mem H) a \<Longrightarrow> h_mem H a \<noteq> None \<Longrightarrow>
    key_at H' a = key_at H a \<and> data_at H' a = data_at H a"
  by (auto simp: contents_def key_at_def data_at_def)

lemma dom_contents: "a \<in> dom mem \<longleftrightarrow> contents mem a \<noteq> None"
  by (auto simp: contents_def)

lemma contents_dom: "contents mem' = contents mem \<Longrightarrow> dom mem' = dom mem"
  unfolding set_eq_iff dom_contents by simp

lemma hash_dom_card:
  assumes "hash_ok H as"
  shows "card (dom (hash_abs H)) = h_count H"
proof -
  have "dom (hash_abs H) = (\<lambda>a. lower (key_at H a)) ` set as"
    using hash_abs_iff [OF assms] assms by (fastforce simp: hash_ok_def dom_def)
  then show ?thesis
    using assms by (simp add: hash_ok_def card_image linked_def distinct_card)
qed

section \<open>Every operation\<close>

lemma clear_loop_dll:
  "dll mem p as None \<Longrightarrow> distinct as \<Longrightarrow> length as \<le> n \<Longrightarrow> clear_loop n (first_of as None) mem = Some (mem |` (- set as))"
proof (induction as arbitrary: p n mem)
  case (Cons a as)
  obtain n' where n: "n = Suc n'" using Cons.prems(3) by (cases n) auto
  obtain e where e: "mem a = Some e" "he_next e = first_of as None" "dll mem (Some a) as None"
    using Cons.prems(1) by auto
  have "dll (mem(a := None)) (Some a) as None"
    using e(3) Cons.prems(2) by simp
  then have "clear_loop n' (first_of as None) (mem(a := None)) = Some ((mem(a := None)) |` (- set as))"
    by (rule Cons.IH) (use Cons.prems n in auto)
  moreover have "(mem(a := None)) |` (- set as) = mem |` (- set (a # as))"
    by (auto simp: restrict_map_def)
  ultimately show ?case
    using n e by simp
qed (simp add: restrict_map_def)

lemma hash_empty: "hash_ok (H\<lparr>h_first := None, h_ht := None, h_size := 0, h_mem := Map.empty, h_count := 0\<rparr>) []"
  by (simp add: hash_ok_def linked_def bucketed_def)

lemma clear_ok:
  assumes "hash_ok H as"
  shows "\<exists>H'. sqlite3HashClear H = Some H' \<and> hash_ok H' []"
proof -
  have "dll (h_mem H) None as None" "distinct as" "length as \<le> h_count H" "h_first H = first_of as None" "dom (h_mem H) = set as"
    using assms by (simp_all add: hash_ok_def linked_def)
  moreover from this(5) have "h_mem H |` (- set as) = Map.empty"
    by (auto simp: restrict_map_def fun_eq_iff)
  ultimately show ?thesis
    using clear_loop_dll [of "h_mem H" None as "h_count H"] hash_empty [of H] by (simp add: sqlite3HashClear_def)
qed

lemma free_from_free: "free_from n a mem = Some b \<Longrightarrow> mem b = None"
  by (induction n a mem rule: free_from.induct) (auto split: if_splits)

lemma free_from_total: "finite (dom mem) \<Longrightarrow> card (dom mem \<inter> {a..}) < n \<Longrightarrow> free_from n a mem \<noteq> None"
proof (induction n a mem rule: free_from.induct)
  case (2 n a mem)
  show ?case
  proof (cases "mem a")
    case (Some e)
    then have "dom mem \<inter> {a..} = insert a (dom mem \<inter> {Suc a..})"
      by (auto simp: Suc_le_eq order.order_iff_strict)
    then have "card (dom mem \<inter> {a..}) = Suc (card (dom mem \<inter> {Suc a..}))"
      using 2(2) by simp
    with 2 Some show ?thesis by simp
  qed simp
qed simp

lemma malloc_elem_ok:
  assumes "hash_ok H as"
  shows "malloc_elem answer H = None \<longleftrightarrow> answer = None \<or> max_elems \<le> h_count H" "malloc_elem answer H = Some a \<Longrightarrow> h_mem H a = None"
proof -
  have dom: "finite (dom (h_mem H))" "card (dom (h_mem H)) = h_count H"
    using assms by (simp_all add: hash_ok_def linked_def distinct_card)
  have "free_from (Suc max_elems) b (h_mem H) \<noteq> None" if "h_count H < max_elems" for b
  proof (rule free_from_total [OF dom(1)])
    have "card (dom (h_mem H) \<inter> {b..}) \<le> card (dom (h_mem H))"
      using dom(1) by (intro card_mono) auto
    with dom(2) that show "card (dom (h_mem H) \<inter> {b..}) < Suc max_elems" by simp
  qed
  then show "malloc_elem answer H = None \<longleftrightarrow> answer = None \<or> max_elems \<le> h_count H"
    by (auto simp: malloc_elem_def simp del: free_from.simps split: option.splits)
  show "malloc_elem answer H = Some a \<Longrightarrow> h_mem H a = None"
    by (auto simp: malloc_elem_def simp del: free_from.simps split: option.splits if_splits intro: free_from_free)
qed

lemma grouped_cong: "grouped hs gs \<Longrightarrow> (\<And>a. a \<in> set (members gs) \<Longrightarrow> hs' a = hs a) \<Longrightarrow> grouped hs' gs"
  by (force simp: grouped_def members_def)

text \<open>Memory in which the listed elements keep their links and the hashes of their names.\<close>

lemma bucketed_cong:
  assumes "bucketed H as" "h_ht H' = h_ht H" "h_size H' = h_size H" "\<And>a. a \<in> set as \<Longrightarrow> lower (key_at H' a) = lower (key_at H a)"
  shows "bucketed H' as"
proof (cases "h_ht H")
  case (Some bs)
  then obtain gs where gs: "as = members gs" "grouped (\<lambda>a. strHash (key_at H a) mod h_size H) gs" "buckets_ok bs gs"
    using assms(1) by (auto simp: bucketed_def)
  have "grouped (\<lambda>a. strHash (key_at H' a) mod h_size H) gs"
    using gs(2) by (rule grouped_cong) (use assms(4) gs(1) strHash_lower in metis)
  with gs Some assms(1-3) show ?thesis
    by (auto simp: bucketed_def)
qed (use assms in \<open>simp add: bucketed_def\<close>)

text \<open>The table may be resized while the new element is not on its list yet.\<close>

lemma resize_ok:
  assumes "linked H as" "bucketed H as" "length as \<le> h_count H" "h_count H * 2 < 2 ^ 32" "h_ht H \<noteq> None \<longrightarrow> h = strHash key mod h_size H"
  shows "\<exists>h1 H1 as1. (if h_count H \<ge> 10 \<and> h_count H > (2 * h_size H) mod 2 ^ 32 then
         map_option (\<lambda>(resized, H). (if resized then strHash key mod h_size H else h, H)) (rehash extra ((h_count H * 2) mod 2 ^ 32) H)
       else Some (h, H)) = Some (h1, H1) \<and> linked H1 as1 \<and> bucketed H1 as1 \<and> set as1 = set as \<and>
       contents (h_mem H1) = contents (h_mem H) \<and> h_count H1 = h_count H \<and> (h_ht H1 \<noteq> None \<longrightarrow> h1 = strHash key mod h_size H1)"
proof (cases "h_count H \<ge> 10 \<and> h_count H > (2 * h_size H) mod 2 ^ 32")
  case True
  obtain r H1 as1 where r: "rehash extra ((h_count H * 2) mod 2 ^ 32) H = Some (r, H1)" "linked H1 as1" "bucketed H1 as1"
    "set as1 = set as" "contents (h_mem H1) = contents (h_mem H)" "h_count H1 = h_count H" "\<not> r \<longrightarrow> H1 = H"
    using rehash_ok [OF assms(1,2), of "(h_count H * 2) mod 2 ^ 32" extra] assms(3,4) True by auto
  with True assms(5) show ?thesis
    by (intro exI [of _ "if r then strHash key mod h_size H1 else h"] exI [of _ H1] exI [of _ as1]) auto
next
  case False
  with assms show ?thesis
    by (intro exI [of _ h] exI [of _ H] exI [of _ as]) auto
qed

lemma larger_ok:
  assumes H: "hash_ok H as" and new: "\<forall>b \<in> set as. lower (key_at H b) \<noteq> lower key" "a \<notin> set as" "length as < max_elems"
    and H': "linked H' as'" "bucketed H' as'" "dom (h_mem H') = set as'" "h_count H' = length as'" "set as' = insert a (set as)"
      "length as' = length as + 1"
    and keys: "\<And>b. b \<in> set as' \<Longrightarrow> key_at H' b = (if b = a then key else key_at H b)"
      "\<And>b. b \<in> set as' \<Longrightarrow> data_at H' b = (if b = a then Some d else data_at H b)"
  shows "hash_ok H' as' \<and> hash_abs H' = (hash_abs H)(lower key \<mapsto> d)"
proof -
  have inj: "inj_on (\<lambda>b. lower (key_at H b)) (set as)" and full: "\<forall>b \<in> set as. data_at H b \<noteq> None"
    using H by (simp_all add: hash_ok_def)
  have "inj_on (\<lambda>b. lower (if b = a then key else key_at H b)) (set as)"
    by (rule inj_on_cong [THEN iffD1, OF _ inj]) (use new(2) in auto)
  then have "inj_on (\<lambda>b. lower (if b = a then key else key_at H b)) (insert a (set as))"
    using new(1) by (intro inj_on_insert [THEN iffD2] conjI) auto
  then have "inj_on (\<lambda>b. lower (key_at H' b)) (set as')"
    unfolding H'(5) using keys(1) H'(5) by (simp cong: inj_on_cong)
  then have ok: "hash_ok H' as'"
    using H' new(3) full keys(2) by (simp add: hash_ok_def)
  moreover have "hash_abs H' = (hash_abs H)(lower key \<mapsto> d)"
  proof (rule hash_absI [OF ok])
    fix k x
    have "(\<exists>b \<in> set as'. lower (key_at H' b) = k \<and> data_at H' b = Some x) \<longleftrightarrow>
      (\<exists>b \<in> set as'. lower (if b = a then key else key_at H b) = k \<and> (if b = a then Some d else data_at H b) = Some x)"
      by (intro bex_cong refl) (simp only: keys)
    also have "\<dots> \<longleftrightarrow> lower key = k \<and> d = x \<or> (\<exists>b \<in> set as. lower (key_at H b) = k \<and> data_at H b = Some x)"
      unfolding H'(5) using new(2) by auto
    finally show "((hash_abs H)(lower key \<mapsto> d)) k = Some x \<longleftrightarrow> (\<exists>b \<in> set as'. lower (key_at H' b) = k \<and> data_at H' b = Some x)"
      using hash_abs_iff [OF H] new(1) by auto
  qed
  ultimately show ?thesis ..
qed

lemma insert_new_ok:
  assumes H: "hash_ok H as" and new: "\<forall>a \<in> set as. lower (key_at H a) \<noteq> lower key" "h_mem H a = None" "h_count H < max_elems"
    and h: "h_ht H \<noteq> None \<longrightarrow> h = strHash key mod h_size H"
    and H0: "H0 = H\<lparr>h_mem := (h_mem H)(a \<mapsto> \<lparr>he_next = None, he_prev = None, he_data = Some d, he_key = key\<rparr>),
      h_count := (h_count H + 1) mod 2 ^ 32\<rparr>"
  shows "\<exists>H' as'. Option.bind
      (if h_count H0 \<ge> 10 \<and> h_count H0 > (2 * h_size H0) mod 2 ^ 32 then
         map_option (\<lambda>(resized, H). (if resized then strHash key mod h_size H else h, H)) (rehash extra ((h_count H0 * 2) mod 2 ^ 32) H0)
       else Some (h, H0)) (\<lambda>(h, H). map_option (\<lambda>H. (None, H)) (insertElement (if h_ht H = None then None else Some h) a H)) =
      Some (None :: 'd option, H') \<and> hash_ok H' as' \<and> hash_abs H' = (hash_abs H)(lower key \<mapsto> d)"
proof -
  have as: "linked H as" "bucketed H as" "dom (h_mem H) = set as" "h_count H = length as" "length as < max_elems" "a \<notin> set as"
    using H new(2,3) by (auto simp: hash_ok_def)
  have count: "h_count H0 = length as + 1" "h_count H0 < 2 ^ 32" "h_count H0 * 2 < 2 ^ 32"
    using as(4,5) by (simp_all add: H0 max_elems_def)
  have keep: "key_at H0 b = key_at H b" "data_at H0 b = data_at H b" if "b \<in> set as" for b
    using that as(6) by (auto simp: H0 key_at_def data_at_def)
  have a: "key_at H0 a = key" "data_at H0 a = Some d" "h_mem H0 a \<noteq> None"
    by (simp_all add: H0 key_at_def data_at_def)
  have lk: "linked H0 as"
    using as(1,6) by (simp add: linked_def H0)
  have bk: "bucketed H0 as"
    by (rule bucketed_cong [OF as(2)]) (use keep in \<open>simp_all add: H0\<close>)
  have h0: "h_ht H0 \<noteq> None \<longrightarrow> h = strHash key mod h_size H0"
    using h by (simp add: H0)
  have "length as \<le> h_count H0"
    using count(1) by simp
  from resize_ok [OF lk bk this count(3) h0, of extra] obtain h1 H1 as1 where H1: "(if h_count H0 \<ge> 10 \<and> h_count H0 > (2 * h_size H0) mod 2 ^ 32 then
         map_option (\<lambda>(resized, H). (if resized then strHash key mod h_size H else h, H)) (rehash extra ((h_count H0 * 2) mod 2 ^ 32) H0)
       else Some (h, H0)) = Some (h1, H1)" "linked H1 as1" "bucketed H1 as1" "set as1 = set as"
       "contents (h_mem H1) = contents (h_mem H0)" "h_count H1 = h_count H0" "h_ht H1 \<noteq> None \<longrightarrow> h1 = strHash key mod h_size H1"
    by blast
  have len: "length as1 = length as"
    using H1(2,4) as(1) by (metis distinct_card linked_def)
  have a1: "key_at H1 a = key" "h_mem H1 a \<noteq> None"
    using contents_key [OF H1(5) a(3)] a(1) dom_contents [of a "h_mem H1"] dom_contents [of a "h_mem H0"] a(3) H1(5) by auto
  have "entry_of H1 (key_at H1 a) = (if h_ht H1 = None then None else Some h1)"
    using H1(7) a1(1) by (simp add: entry_of_def)
  then obtain H2 as2 where H2: "insertElement (if h_ht H1 = None then None else Some h1) a H1 = Some H2" "linked H2 as2" "bucketed H2 as2"
    "set as2 = insert a (set as)" "same_shape H1 H2"
    using insertElement_ok [OF H1(2,3) _ a1(2)] H1(4) as(5,6) len by (auto simp: max_elems_def)
  have len2: "length as2 = length as + 1"
    using H2(2,4) as(1,6) distinct_card [of as2] distinct_card [of as] by (simp add: linked_def)
  have same: "contents (h_mem H2) = contents (h_mem H0)" "h_count H2 = h_count H0"
    using H2(5) H1(5,6) by (simp_all add: same_shape_def)
  have at: "key_at H2 b = key_at H0 b" "data_at H2 b = data_at H0 b" if "h_mem H0 b \<noteq> None" for b
    using contents_at [of H2 b H0] that same(1) by simp_all
  have mem0: "h_mem H0 b \<noteq> None" if "b \<in> set as" for b
    using that as(3) by (auto simp: H0)
  have vals: "key_at H2 b = (if b = a then key else key_at H b)" "data_at H2 b = (if b = a then Some d else data_at H b)"
    if "b \<in> set as2" for b
    using that H2(4) at [of b] mem0 [of b] keep [of b] a as(6) by auto
  have "dom (h_mem H2) = dom (h_mem H0)"
    using same(1) by (rule contents_dom)
  then have "dom (h_mem H2) = set as2"
    using as(3) H2(4) by (auto simp: H0)
  then have "hash_ok H2 as2 \<and> hash_abs H2 = (hash_abs H)(lower key \<mapsto> d)"
    using larger_ok [OF H new(1) as(6,5) H2(2,3) _ _ H2(4) len2 vals] same(2) count(1) len2 by simp
  with H2(1) H1(1) show ?thesis
    by auto
qed

lemma replace_ok:
  assumes H: "hash_ok H as" "a \<in> set as" "lower (key_at H a) = lower key"
  shows "\<exists>mem. update_elem a (\<lambda>e. e\<lparr>he_data := Some d, he_key := key\<rparr>) (h_mem H) = Some mem \<and> hash_ok (H\<lparr>h_mem := mem\<rparr>) as \<and>
    hash_abs (H\<lparr>h_mem := mem\<rparr>) = (hash_abs H)(lower key \<mapsto> d)"
proof -
  obtain e where e: "h_mem H a = Some e"
    using H(1,2) by (auto simp: hash_ok_def)
  let ?H = "H\<lparr>h_mem := (h_mem H)(a \<mapsto> e\<lparr>he_data := Some d, he_key := key\<rparr>)\<rparr>"
  have vals: "lower (key_at ?H b) = lower (key_at H b)" "data_at ?H b = (if b = a then Some d else data_at H b)" for b
    using H(3) e by (simp_all add: key_at_def data_at_def)
  have "dll (h_mem ?H) p bs q = dll (h_mem H) p bs q" for p bs q
    using e by (induction bs arbitrary: p) auto
  moreover have "bucketed ?H as"
    by (rule bucketed_cong [where H = H]) (use H(1) vals in \<open>simp_all add: hash_ok_def\<close>)
  ultimately have ok: "hash_ok ?H as"
    using H(1,2) vals by (auto simp: hash_ok_def linked_def inj_on_def)
  have "hash_abs ?H = (hash_abs H)(lower key \<mapsto> d)"
  proof (rule hash_absI [OF ok])
    fix k x
    have inj: "inj_on (\<lambda>b. lower (key_at H b)) (set as)"
      using H(1) by (simp add: hash_ok_def)
    show "((hash_abs H)(lower key \<mapsto> d)) k = Some x \<longleftrightarrow> (\<exists>b \<in> set as. lower (key_at ?H b) = k \<and> data_at ?H b = Some x)"
    proof (cases "k = lower key")
      case True
      with inj H(2,3) vals show ?thesis
        by (auto simp: inj_on_def)
    next
      case False
      then have "(\<exists>b \<in> set as. lower (key_at ?H b) = k \<and> data_at ?H b = Some x) \<longleftrightarrow>
        (\<exists>b \<in> set as. lower (key_at H b) = k \<and> data_at H b = Some x)"
        unfolding vals using H(3) by (intro bex_cong refl) auto
      with False hash_abs_iff [OF H(1), of k x] show ?thesis
        by simp
    qed
  qed
  with ok e show ?thesis
    by (auto simp: update_elem_def)
qed

text \<open>The bucket of a removed element, and the list without it.\<close>

lemma bucket_remove:
  assumes gs: "grouped hs gs" "buckets_ok bs gs" "members gs = xs @ a # zs" "distinct (members gs)" "h < length bs" "hs a = h"
  shows "0 < ht_count (bs ! h) \<and> (\<exists>gs'. members gs' = xs @ zs \<and> grouped hs gs' \<and>
    buckets_ok (bs[h := (if ht_chain (bs ! h) = Some a then (bs ! h)\<lparr>ht_chain := first_of zs None\<rparr> else bs ! h)\<lparr>ht_count := ht_count (bs ! h) - 1\<rparr>]) gs')"
proof -
  have "a \<in> set (members gs)"
    by (simp add: gs(3))
  then obtain ys where ys: "map_of gs h = Some ys"
    using grouped_absent [OF gs(1), of h a] gs(6) by (cases "map_of gs h") auto
  from grouped_split [OF gs(1) ys] obtain g1 g2 where g: "gs = g1 @ (h, ys) # g2" "map_of (g1 @ g2) h = None" "ys \<noteq> []" by metis
  have "a \<in> set ys"
  proof -
    have "grouped hs (g1 @ g2)"
      using gs(1) g(1) by (auto simp: grouped_def)
    with grouped_absent [OF this g(2)] gs(6) \<open>a \<in> set (members gs)\<close> g(1) show ?thesis
      by auto
  qed
  then obtain u v where uv: "ys = u @ a # v"
    by (auto dest: split_list)
  have "members g1 @ u @ a # v @ members g2 = xs @ a # zs" "distinct (members g1 @ u @ a # v @ members g2)"
    using gs(3,4) g(1) uv by simp_all
  then have xs: "xs = members g1 @ u" "zs = v @ members g2"
    by (auto simp: append_eq_append_conv2 Cons_eq_append_conv append_eq_Cons_conv)
  have b: "bucket_ok (bs ! h) (Some ys)"
    using gs(2,5) ys by (auto simp: buckets_ok_def)
  have dist: "distinct (map fst (g1 @ (h, ys) # g2))"
    using gs(1) g(1) by (simp add: grouped_def)
  let ?b = "(if ht_chain (bs ! h) = Some a then (bs ! h)\<lparr>ht_chain := first_of zs None\<rparr> else bs ! h)\<lparr>ht_count := ht_count (bs ! h) - 1\<rparr>"
  have "\<exists>gs'. members gs' = xs @ zs \<and> grouped hs gs' \<and> buckets_ok (bs[h := ?b]) gs'"
  proof (cases "u @ v = []")
    case True
    then have "ht_count ?b = 0"
      using b uv by (simp add: bucket_ok_def)
    with buckets_delete [OF gs(2) [unfolded g(1)] dist, of ?b] grouped_delete [OF gs(1) [unfolded g(1)]] xs True show ?thesis
      by (intro exI [of _ "g1 @ g2"]) simp
  next
    case False
    have "bucket_ok ?b (Some (u @ v))"
    proof (cases u)
      case Nil
      with b uv xs(2) False show ?thesis
        by (cases v) (simp_all add: bucket_ok_def)
    next
      case (Cons c u')
      moreover have "c \<noteq> a"
        using gs(4) g(1) uv Cons by auto
      ultimately show ?thesis
        using b uv by (simp add: bucket_ok_def)
    qed
    moreover have "grouped hs (g1 @ (h, u @ v) # g2)"
      by (rule grouped_replace [where ys = ys]) (use gs(1) g(1) uv False in \<open>auto simp: grouped_def\<close>)
    ultimately show ?thesis
      using buckets_replace [OF gs(2) [unfolded g(1)] dist, of ?b "u @ v"] xs by (intro exI [of _ "g1 @ (h, u @ v) # g2"]) simp
  qed
  with b uv show ?thesis
    by (simp add: bucket_ok_def)
qed

lemma smaller_ok:
  assumes H: "hash_ok H (xs @ a # zs)"
    and H': "linked H' (xs @ zs)" "bucketed H' (xs @ zs)" "dom (h_mem H') = set (xs @ zs)" "h_count H' = length (xs @ zs)"
    and keys: "\<And>b. b \<in> set (xs @ zs) \<Longrightarrow> key_at H' b = key_at H b" "\<And>b. b \<in> set (xs @ zs) \<Longrightarrow> data_at H' b = data_at H b"
  shows "hash_ok H' (xs @ zs) \<and> hash_abs H' = (hash_abs H)(lower (key_at H a) := None)"
proof -
  have distinct: "distinct (xs @ a # zs)" and inj: "inj_on (\<lambda>b. lower (key_at H b)) (set (xs @ a # zs))"
    and full: "\<forall>b \<in> set (xs @ a # zs). data_at H b \<noteq> None" and small: "length (xs @ a # zs) \<le> max_elems"
    using H unfolding hash_ok_def linked_def by blast+
  have "inj_on (\<lambda>b. lower (key_at H' b)) (set (xs @ zs))"
    using inj keys(1) by (auto simp: inj_on_def)
  then have ok: "hash_ok H' (xs @ zs)"
    using H' full small keys(2) by (simp add: hash_ok_def)
  moreover have "hash_abs H' = (hash_abs H)(lower (key_at H a) := None)"
  proof (rule hash_absI [OF ok])
    fix k x
    have other: "lower (key_at H b) \<noteq> lower (key_at H a)" if "b \<in> set (xs @ zs)" for b
      using that distinct inj by (auto simp: inj_on_def)
    have "(\<exists>b \<in> set (xs @ zs). lower (key_at H' b) = k \<and> data_at H' b = Some x) \<longleftrightarrow>
        (\<exists>b \<in> set (xs @ zs). lower (key_at H b) = k \<and> data_at H b = Some x)"
      by (intro bex_cong refl) (simp only: keys)
    then show "((hash_abs H)(lower (key_at H a) := None)) k = Some x \<longleftrightarrow>
        (\<exists>b \<in> set (xs @ zs). lower (key_at H' b) = k \<and> data_at H' b = Some x)"
      using hash_abs_iff [OF H, of k x] other by (cases "k = lower (key_at H a)") auto
  qed
  ultimately show ?thesis ..
qed

text \<open>The bucket of a removed element; \<open>H1\<close> is the table without the element on its list, \<open>H2\<close> the same without its memory.\<close>

lemma leave_bucket_ok:
  assumes "bucketed H (xs @ a # zs)" "distinct (xs @ a # zs)" "h_ht H \<noteq> None \<longrightarrow> h = strHash (key_at H a) mod h_size H"
    and H1: "h_ht H1 = h_ht H"
    and H2: "\<And>ht. h_ht (H2 ht) = ht" "\<And>ht. h_size (H2 ht) = h_size H"
      "\<And>ht b. b \<in> set (xs @ zs) \<Longrightarrow> key_at (H2 ht) b = key_at H b"
  shows "\<exists>ht. leave_bucket a h (first_of zs None) H1 = Some (H1\<lparr>h_ht := ht\<rparr>) \<and> bucketed (H2 ht) (xs @ zs)"
proof (cases "h_ht H")
  case None
  then have "leave_bucket a h (first_of zs None) H1 = Some (H1\<lparr>h_ht := None\<rparr>)"
    using H1 by (simp add: leave_bucket_def)
  then show ?thesis
    using assms(1) None H2 by (intro exI [of _ None]) (simp add: bucketed_def)
next
  case (Some bs)
  let ?hs = "\<lambda>a. strHash (key_at H a) mod h_size H"
  obtain gs where bs: "length bs = h_size H" "0 < h_size H" "h_size H < 2 ^ 31"
    and gs: "xs @ a # zs = members gs" "grouped ?hs gs" "buckets_ok bs gs"
    using assms(1) Some by (auto simp: bucketed_def)
  have h: "h = ?hs a" "h < length bs"
    using assms(3) Some bs by simp_all
  let ?bs = "bs[h := (if ht_chain (bs ! h) = Some a then (bs ! h)\<lparr>ht_chain := first_of zs None\<rparr> else bs ! h)
       \<lparr>ht_count := ht_count (bs ! h) - 1\<rparr>]"
  from bucket_remove [OF gs(2,3) gs(1) [symmetric] assms(2) [unfolded gs(1)] h(2) h(1) [symmetric]]
  obtain gs' where gs': "0 < ht_count (bs ! h)" "members gs' = xs @ zs" "grouped ?hs gs'" "buckets_ok ?bs gs'"
    by blast
  have "grouped (\<lambda>b. strHash (key_at (H2 (Some ?bs)) b) mod h_size H) gs'"
    using gs'(3) by (rule grouped_cong) (use H2(3) gs'(2) in simp)
  then have "bucketed (H2 (Some ?bs)) (xs @ zs)"
    using bs gs'(2,4) H2 by (intro bucketedI [of _ ?bs gs']) simp_all
  with Some H1 h(2) gs'(1) show ?thesis
    by (intro exI [of _ "Some ?bs"]) (simp add: leave_bucket_def)
qed

lemma remove_ok:
  assumes H: "hash_ok H as" "a \<in> set as" and h: "h_ht H \<noteq> None \<longrightarrow> h = strHash (key_at H a) mod h_size H"
  shows "\<exists>H' as'. removeElementGivenHash a h H = Some H' \<and> hash_ok H' as' \<and> hash_abs H' = (hash_abs H)(lower (key_at H a) := None)"
proof -
  let ?max = "2 ^ 32 :: nat"
  obtain xs zs where as: "as = xs @ a # zs"
    using H(2) by (auto dest: split_list)
  have lk: "dll (h_mem H) None (xs @ a # zs) None" "distinct (xs @ a # zs)" "h_first H = first_of (xs @ a # zs) None"
    and dom: "dom (h_mem H) = set as" "h_count H = length as" "length as \<le> max_elems" and bk: "bucketed H (xs @ a # zs)"
    using H(1) as by (simp_all add: hash_ok_def linked_def)
  from unlink_dll [OF lk] obtain mem e where
    u: "unlink a H = Some (H\<lparr>h_mem := mem, h_first := first_of (xs @ zs) None\<rparr>)" "dll (mem(a := None)) None (xs @ zs) None"
      "contents mem = contents (h_mem H)" "mem a = Some e" "he_next e = first_of zs None"
    by auto
  let ?H1 = "H\<lparr>h_mem := mem, h_first := first_of (xs @ zs) None\<rparr>"
  let ?H2 = "\<lambda>ht. ?H1\<lparr>h_ht := ht, h_mem := mem(a := None), h_count := length as - 1\<rparr>"
  have "0 < length as" "length as \<le> 2 ^ 31 - 1"
    using as dom(3) by (simp_all add: max_elems_def)
  then have count: "(h_count H + ?max - 1) mod ?max = length as - 1"
    unfolding dom(2) by (simp add: mod_if)
  have keys: "key_at (?H2 ht) b = key_at H b" "data_at (?H2 ht) b = data_at H b" if "b \<in> set (xs @ zs)" for b ht
  proof -
    have "contents (h_mem (?H2 ht)) b = contents (h_mem H) b" "h_mem H b \<noteq> None"
      using that lk(2) u(3) dom(1) as by (auto simp: contents_def fun_eq_iff)
    from contents_at [OF this] show "key_at (?H2 ht) b = key_at H b" "data_at (?H2 ht) b = data_at H b"
      by auto
  qed
  obtain ht where ht: "leave_bucket a h (he_next e) ?H1 = Some (?H1\<lparr>h_ht := ht\<rparr>)" "bucketed (?H2 ht) (xs @ zs)"
    using leave_bucket_ok [OF bk lk(2) h, of ?H1 ?H2] keys(1) u(5) by auto
  have run: "removeElementGivenHash a h H = (if length as - 1 = 0 then sqlite3HashClear (?H2 ht) else Some (?H2 ht))"
    unfolding removeElementGivenHash_def u(1) bind.bind_lunit using u(4) ht(1) count by simp
  have "dom (h_mem (?H2 ht)) = set (xs @ zs)"
    using contents_dom [OF u(3)] dom(1) as lk(2) by auto
  then have ok: "hash_ok (?H2 ht) (xs @ zs)" and abs: "hash_abs (?H2 ht) = (hash_abs H)(lower (key_at H a) := None)"
    using smaller_ok [OF H(1) [unfolded as], of "?H2 ht"] ht(2) keys u(2) lk(2) as by (auto simp: linked_def)
  show ?thesis
  proof (cases "length as - 1 = 0")
    case False
    with run ok abs show ?thesis by auto
  next
    case True
    obtain H' where H': "sqlite3HashClear (?H2 ht) = Some H'" "hash_ok H' []"
      using clear_ok [OF ok] by blast
    with run True have "removeElementGivenHash a h H = Some H'"
      by simp
    moreover have "xs @ zs = []"
      using True as by simp
    then have "hash_abs (?H2 ht) = Map.empty" "hash_abs H' = Map.empty"
      using hash_absI [OF ok, of Map.empty] hash_absI [OF H'(2), of Map.empty] by simp_all
    ultimately show ?thesis
      using H'(2) abs by metis
  qed
qed

section \<open>A map\<close>

text \<open>
  The operations of a client and the map they are meant to work on. An insertion carries the answers of the allocator for the element
  and for the buckets; deleting is inserting null data. The result is the returned pointer to data.
\<close>

datatype 'd hash_op = HashFind bytes | HashInsert "addr option" "nat option" bytes "'d option" | HashClear

fun hash_step :: "'d hash_op \<Rightarrow> 'd hash \<Rightarrow> 'd option option \<times> 'd hash" where
  "hash_step (HashFind key) H = (sqlite3HashFind key H, H)"
| "hash_step (HashInsert answer extra key data) H =
     (case sqlite3HashInsert answer extra key data H of Some (old, H') \<Rightarrow> (Some old, H') | None \<Rightarrow> (None, H))"
| "hash_step HashClear H = (case sqlite3HashClear H of Some H' \<Rightarrow> (Some None, H') | None \<Rightarrow> (None, H))"

fun map_step :: "'d hash_op \<Rightarrow> (bytes \<Rightarrow> 'd option) \<Rightarrow> 'd option option \<times> (bytes \<Rightarrow> 'd option)" where
  "map_step (HashFind key) m = (Some (m (lower key)), m)"
| "map_step (HashInsert answer extra key None) m = (Some (m (lower key)), m(lower key := None))"
| "map_step (HashInsert answer extra key (Some d)) m =
     (if m (lower key) = None \<and> (answer = None \<or> max_elems \<le> card (dom m)) then (Some (Some d), m)
      else (Some (m (lower key)), m(lower key \<mapsto> d)))"
| "map_step HashClear m = (Some None, Map.empty)"

lemma find_abs:
  assumes "hash_ok H as"
  shows "\<exists>elem h. findElementWithHash key H = Some (elem, h) \<and> (h_ht H \<noteq> None \<longrightarrow> h = strHash key mod h_size H) \<and>
    (case elem of
       None \<Rightarrow> hash_abs H (lower key) = None \<and> (\<forall>a \<in> set as. lower (key_at H a) \<noteq> lower key)
     | Some a \<Rightarrow> a \<in> set as \<and> lower (key_at H a) = lower key \<and> hash_abs H (lower key) = data_at H a \<and> data_at H a \<noteq> None \<and>
         map_option he_data (h_mem H a) = Some (data_at H a))"
proof -
  let ?P = "\<lambda>a. lower (key_at H a) = lower key"
  obtain h where h: "findElementWithHash key H = Some (List.find ?P as, h)" "h_ht H \<noteq> None \<longrightarrow> h = strHash key mod h_size H"
    using findElement_ok [of H as key] assms by (auto simp: hash_ok_def)
  show ?thesis
  proof (cases "List.find ?P as")
    case None
    then have none: "\<forall>a \<in> set as. \<not> ?P a"
      by (auto simp: find_None_iff)
    then have "hash_abs H (lower key) = None"
      using hash_abs_iff [OF assms, of "lower key"] by (metis not_None_eq)
    with h None none show ?thesis by auto
  next
    case (Some a)
    then have a: "a \<in> set as" "?P a"
      by (auto simp: find_Some_iff)
    have "a \<in> dom (h_mem H)" "data_at H a \<noteq> None"
      using assms a(1) by (auto simp: hash_ok_def)
    then obtain d where d: "data_at H a = Some d" "h_mem H a \<noteq> None"
      by auto
    then have "hash_abs H (lower key) = data_at H a"
      using hash_abs_iff [OF assms, of "lower key" d] a by auto
    with h Some a d show ?thesis
      by (auto simp: data_at_def)
  qed
qed

lemma HashInsert_refines:
  assumes "hash_ok H as"
  shows "\<exists>r H'. sqlite3HashInsert answer extra key data H = Some (r, H') \<and> hash_inv H' \<and>
    map_step (HashInsert answer extra key data) (hash_abs H) = (Some r, hash_abs H')"
proof -
  obtain elem h where find: "findElementWithHash key H = Some (elem, h)" "h_ht H \<noteq> None \<longrightarrow> h = strHash key mod h_size H"
    "case elem of
       None \<Rightarrow> hash_abs H (lower key) = None \<and> (\<forall>a \<in> set as. lower (key_at H a) \<noteq> lower key)
     | Some a \<Rightarrow> a \<in> set as \<and> lower (key_at H a) = lower key \<and> hash_abs H (lower key) = data_at H a \<and> data_at H a \<noteq> None \<and>
         map_option he_data (h_mem H a) = Some (data_at H a)"
    using find_abs [OF assms] by blast
  show ?thesis
  proof (cases elem)
    case (Some a)
    with find(3) obtain d0 where a: "a \<in> set as" "lower (key_at H a) = lower key" "hash_abs H (lower key) = Some d0"
      "map_option he_data (h_mem H a) = Some (Some d0)"
      by auto
    show ?thesis
    proof (cases data)
      case None
      have "h_ht H \<noteq> None \<longrightarrow> h = strHash (key_at H a) mod h_size H"
        using find(2) strHash_lower [OF a(2)] by simp
      from remove_ok [OF assms a(1) this] obtain H' as' where
        "removeElementGivenHash a h H = Some H'" "hash_ok H' as'" "hash_abs H' = (hash_abs H)(lower key := None)"
        using a(2) by auto
      with find(1) Some a None show ?thesis
        by (auto simp: sqlite3HashInsert_def hash_inv_def)
    next
      case d: (Some d)
      from replace_ok [OF assms a(1,2), of d] obtain mem where
        "update_elem a (\<lambda>e. e\<lparr>he_data := Some d, he_key := key\<rparr>) (h_mem H) = Some mem" "hash_ok (H\<lparr>h_mem := mem\<rparr>) as"
        "hash_abs (H\<lparr>h_mem := mem\<rparr>) = (hash_abs H)(lower key \<mapsto> d)"
        by blast
      with find(1) Some a d show ?thesis
        by (auto simp: sqlite3HashInsert_def hash_inv_def)
    qed
  next
    case new: None
    with find(3) have none: "hash_abs H (lower key) = None" "\<forall>a \<in> set as. lower (key_at H a) \<noteq> lower key"
      by simp_all
    show ?thesis
    proof (cases data)
      case None
      moreover have "(hash_abs H)(lower key := None) = hash_abs H"
        using none(1) by auto
      ultimately show ?thesis
        using find(1) new none assms by (auto simp: sqlite3HashInsert_def hash_inv_def)
    next
      case d: (Some d)
      show ?thesis
      proof (cases "malloc_elem answer H")
        case None
        then have "answer = None \<or> max_elems \<le> card (dom (hash_abs H))"
          using malloc_elem_ok(1) [OF assms] hash_dom_card [OF assms] by simp
        with find(1) new none d None assms show ?thesis
          by (auto simp: sqlite3HashInsert_def hash_inv_def)
      next
        case (Some a)
        then have room: "answer \<noteq> None" "h_count H < max_elems" "h_mem H a = None" "\<not> max_elems \<le> card (dom (hash_abs H))"
          using malloc_elem_ok(1) [OF assms, of answer] malloc_elem_ok(2) [OF assms Some] hash_dom_card [OF assms] Some by simp_all
        define H0 where H0: "H0 = H\<lparr>h_mem := (h_mem H)(a \<mapsto> \<lparr>he_next = None, he_prev = None, he_data = Some d, he_key = key\<rparr>),
          h_count := (h_count H + 1) mod 2 ^ 32\<rparr>"
        from insert_new_ok [OF assms none(2) room(3,2) find(2) H0, of extra] obtain H' as' where H': "Option.bind
          (if h_count H0 \<ge> 10 \<and> h_count H0 > (2 * h_size H0) mod 2 ^ 32 then
             map_option (\<lambda>(resized, H). (if resized then strHash key mod h_size H else h, H)) (rehash extra ((h_count H0 * 2) mod 2 ^ 32) H0)
           else Some (h, H0)) (\<lambda>(h, H). map_option (\<lambda>H. (None :: 'a option, H)) (insertElement (if h_ht H = None then None else Some h) a H)) =
          Some (None, H')" "hash_ok H' as'" "hash_abs H' = (hash_abs H)(lower key \<mapsto> d)" by blast
        have "sqlite3HashInsert answer extra key data H = Some (None, H')"
          unfolding sqlite3HashInsert_def find(1) new bind.bind_lunit prod.case option.case d Some Let_def H0 [symmetric]
          using H'(1) by simp
        with H'(2,3) none(1) room(1,4) d show ?thesis
          by (auto simp: hash_inv_def)
      qed
    qed
  qed
qed

lemma hash_step_refines: "hash_inv H \<Longrightarrow> hash_inv (snd (hash_step x H)) \<and>
    map_step x (hash_abs H) = (fst (hash_step x H), hash_abs (snd (hash_step x H)))"
proof -
  assume "hash_inv H"
  then obtain as where as: "hash_ok H as" by (auto simp: hash_inv_def)
  show ?thesis
  proof (cases x)
    case (HashFind key)
    with find_abs [OF as, of key] \<open>hash_inv H\<close> show ?thesis
      by (auto simp: sqlite3HashFind_def split: option.splits)
  next
    case (HashInsert answer extra key data)
    with HashInsert_refines [OF as, of answer extra key data] show ?thesis
      by auto
  next
    case HashClear
    obtain H' where "sqlite3HashClear H = Some H'" "hash_ok H' []"
      using clear_ok [OF as] by blast
    moreover from hash_absI [OF this(2), of Map.empty] have "hash_abs H' = Map.empty"
      by simp
    ultimately show ?thesis
      using HashClear by (auto simp: hash_inv_def)
  qed
qed

interpretation names: data_refinement hash_step hash_inv map_step hash_abs
  by unfold_locales (use hash_step_refines in auto)

section \<open>Properties of hash tables\<close>

text \<open>
  C38: A hash table implements a map from names without case to data. Whatever sequence of searches, insertions, replacements and
  deletions is run, with whatever failures of the allocator and sizes of its blocks, every call returns what it would for the
  map; no call follows a dangling or null pointer, and in the end the list, with its buckets, holds the map.
\<close>

theorem hashtable_refines_map:
  fixes ops :: "'d hash_op list"
  shows "run_ops map_step ops Map.empty =
    (fst (run_ops hash_step ops sqlite3HashInit), hash_abs (snd (run_ops hash_step ops sqlite3HashInit)))"
proof -
  let ?H = "sqlite3HashInit :: 'd hash"
  have init: "hash_ok ?H []"
    by (simp add: hash_ok_def linked_def bucketed_def sqlite3HashInit_def)
  then have "hash_inv ?H"
    by (auto simp: hash_inv_def)
  moreover have "hash_abs ?H = Map.empty"
    using init by (rule hash_absI) simp
  ultimately show ?thesis
    using names.run_refines [of ?H ops] by simp
qed

end
