(* ===== verification/SqliteLike.thy ===== *)
theory SqliteLike
  imports SqliteUtf8 SqliteHash
begin

text \<open>
  The operators \<^verbatim>\<open>LIKE\<close> and \<^verbatim>\<open>GLOB\<close> of the SQLite library that the repository ships, \<^verbatim>\<open>application/sqlite3/sqlite3.c\<close>. The matcher,
  which searches bytes and gives up early, is shown to decide whether the characters of the string have the form that the
  characters of the pattern describe.
\<close>

section \<open>Letters\<close>

text \<open>\<^verbatim>\<open>sqlite3CtypeMap\<close>; the upper half of the table is constant.\<close>

definition sqlite3CtypeMap :: "u8 list" where
  "sqlite3CtypeMap =
    [0x00, 0x00, 0x00, 0x00, 0x00, 0x00, 0x00, 0x00, 0x00, 0x01, 0x01, 0x01, 0x01, 0x01, 0x00, 0x00,
     0x00, 0x00, 0x00, 0x00, 0x00, 0x00, 0x00, 0x00, 0x00, 0x00, 0x00, 0x00, 0x00, 0x00, 0x00, 0x00,
     0x01, 0x00, 0x80, 0x00, 0x40, 0x00, 0x00, 0x80, 0x00, 0x00, 0x00, 0x00, 0x00, 0x00, 0x00, 0x00,
     0x0c, 0x0c, 0x0c, 0x0c, 0x0c, 0x0c, 0x0c, 0x0c, 0x0c, 0x0c, 0x00, 0x00, 0x00, 0x00, 0x00, 0x00,
     0x00, 0x0a, 0x0a, 0x0a, 0x0a, 0x0a, 0x0a, 0x02, 0x02, 0x02, 0x02, 0x02, 0x02, 0x02, 0x02, 0x02,
     0x02, 0x02, 0x02, 0x02, 0x02, 0x02, 0x02, 0x02, 0x02, 0x02, 0x02, 0x80, 0x00, 0x00, 0x00, 0x40,
     0x80, 0x2a, 0x2a, 0x2a, 0x2a, 0x2a, 0x2a, 0x22, 0x22, 0x22, 0x22, 0x22, 0x22, 0x22, 0x22, 0x22,
     0x22, 0x22, 0x22, 0x22, 0x22, 0x22, 0x22, 0x22, 0x22, 0x22, 0x22, 0x00, 0x00, 0x00, 0x00, 0x00] @
    replicate 128 0x40"

text \<open>The macros, applied to a 32-bit character; the index is its low byte.\<close>

definition sqlite3Toupper :: "u32 \<Rightarrow> u32" where
  "sqlite3Toupper x = x AND NOT (ucast (sqlite3CtypeMap ! unat (ucast x :: u8) AND 0x20))"

definition sqlite3Tolower :: "u32 \<Rightarrow> u8" where
  "sqlite3Tolower x = sqlite3UpperToLower ! unat (ucast x :: u8)"

section \<open>Comparing a string to a pattern\<close>

record compareInfo =
  matchAll :: u8
  matchOne :: u8
  matchSet :: u8
  noCase :: bool

text \<open>The characters are those of ASCII: \<open>0x2a\<close> is an asterisk, \<open>0x3f\<close> a question mark, \<open>0x5b\<close> the opening bracket,
  \<open>0x25\<close> the percent sign and \<open>0x5f\<close> the underscore.\<close>

definition globInfo :: compareInfo where
  "globInfo = \<lparr>matchAll = 0x2a, matchOne = 0x3f, matchSet = 0x5b, noCase = False\<rparr>"

definition likeInfoNorm :: compareInfo where
  "likeInfoNorm = \<lparr>matchAll = 0x25, matchOne = 0x5f, matchSet = 0, noCase = True\<rparr>"

definition likeInfoAlt :: compareInfo where
  "likeInfoAlt = \<lparr>matchAll = 0x25, matchOne = 0x5f, matchSet = 0, noCase = False\<rparr>"

definition SQLITE_MATCH :: int where [simp]: "SQLITE_MATCH = 0"
definition SQLITE_NOMATCH :: int where [simp]: "SQLITE_NOMATCH = 1"
definition SQLITE_NOWILDCARDMATCH :: int where [simp]: "SQLITE_NOWILDCARDMATCH = 2"

text \<open>
  The loop that skips wildcards after a \<^verbatim>\<open>*\<close>, with the pattern and the string: an early return of \<^verbatim>\<open>patternCompare\<close> is \<open>Inl\<close>,
  otherwise the first other character comes out, with the two pointers.
\<close>

function skip_wildcards :: "u32 \<Rightarrow> u32 \<Rightarrow> bytes \<Rightarrow> bytes \<Rightarrow> (int + u32 \<times> bytes \<times> bytes) option" where
  "skip_wildcards all one p s = do {
     (c, p) \<leftarrow> Utf8Read p;
     if c = all \<or> (c = one \<and> one \<noteq> 0) then
       if c = one then do {
         (d, s) \<leftarrow> sqlite3Utf8Read s;
         if d = 0 then Some (Inl SQLITE_NOWILDCARDMATCH) else skip_wildcards all one p s
       }
       else skip_wildcards all one p s
     else Some (Inr (c, p, s))
   }"
  by auto
termination
  by (relation "measure (\<lambda>(a, b, p, s). length p)") (auto dest: Utf8Read_shorter)

text \<open>
  The three searches after a \<^verbatim>\<open>*\<close>; \<open>f\<close> is the recursive call, from a place in the string on. The first goes on from
  character to character, the second to the next byte out of \<open>zStop\<close> by \<^verbatim>\<open>strcspn\<close>, the third to the next character \<open>c\<close>.
\<close>

function search_set :: "(bytes \<Rightarrow> int option) \<Rightarrow> bytes \<Rightarrow> int option" where
  "search_set f s = do {
     b \<leftarrow> deref s;
     if b \<noteq> 0 then do {
       m \<leftarrow> f s;
       if m \<noteq> SQLITE_NOMATCH then Some m else do { s \<leftarrow> SQLITE_SKIP_UTF8 s; search_set f s }
     }
     else Some SQLITE_NOWILDCARDMATCH
   }"
  by auto
termination
  by (relation "measure (\<lambda>(f, s). length s)") (auto dest: skip_shorter)

fun plus_strcspn :: "u8 list \<Rightarrow> bytes \<Rightarrow> bytes option" where
  "plus_strcspn zStop [] = None"
| "plus_strcspn zStop (b # s) = (if b = 0 \<or> b \<in> set zStop then Some (b # s) else plus_strcspn zStop s)"

lemma strcspn_shorter: "plus_strcspn zStop s = Some s' \<Longrightarrow> length (tl s') < length s"
  by (induction s) (auto split: if_splits)

function search_stop :: "u8 list \<Rightarrow> (bytes \<Rightarrow> int option) \<Rightarrow> bytes \<Rightarrow> int option" where
  "search_stop zStop f s = do {
     s \<leftarrow> plus_strcspn zStop s;
     b \<leftarrow> deref s;
     if b = 0 then Some SQLITE_NOWILDCARDMATCH
     else do {
       let s = tl s;
       m \<leftarrow> f s;
       if m \<noteq> SQLITE_NOMATCH then Some m else search_stop zStop f s
     }
   }"
  by auto
termination
  by (relation "measure (\<lambda>(zStop, f, s). length s)") (auto dest: strcspn_shorter)

function search_char :: "u32 \<Rightarrow> (bytes \<Rightarrow> int option) \<Rightarrow> bytes \<Rightarrow> int option" where
  "search_char c f s = do {
     (c2, s) \<leftarrow> Utf8Read s;
     if c2 \<noteq> 0 then
       if c2 \<noteq> c then search_char c f s
       else do { m \<leftarrow> f s; if m \<noteq> SQLITE_NOMATCH then Some m else search_char c f s }
     else Some SQLITE_NOWILDCARDMATCH
   }"
  by auto
termination
  by (relation "measure (\<lambda>(c, f, s). length s)") (auto dest: Utf8Read_shorter)

declare skip_wildcards.simps [simp del] search_set.simps [simp del] search_stop.simps [simp del] search_char.simps [simp del]

text \<open>
  The set in brackets: \<open>0x5d\<close> is the closing bracket, \<open>0x2d\<close> the hyphen, \<open>0x5e\<close> the circumflex. The loop over its members ends
  with \<^verbatim>\<open>seen\<close> and the last character read.
\<close>

definition range_follows :: "u32 \<Rightarrow> u32 \<Rightarrow> bytes \<Rightarrow> bool option" where
  "range_follows c2 prior_c p =
     (if c2 = 0x2d then do { b \<leftarrow> deref p; Some (b \<noteq> 0x5d \<and> b \<noteq> 0 \<and> 0 < prior_c) } else Some False)"

function set_loop :: "u32 \<Rightarrow> u32 \<Rightarrow> bool \<Rightarrow> u32 \<Rightarrow> bytes \<Rightarrow> (bool \<times> u32 \<times> bytes) option" where
  "set_loop c prior_c seen c2 p =
     (if c2 \<noteq> 0 \<and> c2 \<noteq> 0x5d then do {
        range \<leftarrow> range_follows c2 prior_c p;
        if range then do {
          (c2, p) \<leftarrow> sqlite3Utf8Read p;
          let seen = (seen \<or> (prior_c \<le> c \<and> c \<le> c2));
          (c2, p) \<leftarrow> sqlite3Utf8Read p;
          set_loop c 0 seen c2 p
        }
        else do {
          let seen = (seen \<or> c = c2);
          let prior_c = c2;
          (c2, p) \<leftarrow> sqlite3Utf8Read p;
          set_loop c prior_c seen c2 p
        }
      }
      else Some (seen, c2, p))"
  by auto
termination
  by (relation "measure (\<lambda>(c, prior_c, seen, c2, p). length p)") (auto dest!: read_shorter)

declare set_loop.simps [simp del]

text \<open>\<open>Some None\<close> is the return of \<^verbatim>\<open>SQLITE_NOMATCH\<close>, otherwise the loop of \<^verbatim>\<open>patternCompare\<close> continues with the two pointers.\<close>

definition match_set :: "bytes \<Rightarrow> bytes \<Rightarrow> (bytes \<times> bytes) option option" where
  "match_set p s = do {
     (c, s) \<leftarrow> sqlite3Utf8Read s;
     if c = 0 then Some None
     else do {
       (c2, p) \<leftarrow> sqlite3Utf8Read p;
       (invert, c2, p) \<leftarrow> (if c2 = 0x5e then do { (c2, p) \<leftarrow> sqlite3Utf8Read p; Some (True, c2, p) } else Some (False, c2, p));
       (seen, c2, p) \<leftarrow> (if c2 = 0x5d then do { (c2, p) \<leftarrow> sqlite3Utf8Read p; Some (c = 0x5d, c2, p) } else Some (False, c2, p));
       (seen, c2, p) \<leftarrow> set_loop c 0 seen c2 p;
       if c2 = 0 \<or> seen = invert then Some None else Some (Some (p, s))
     }
   }"

text \<open>
  The loop of \<^verbatim>\<open>patternCompare\<close>, one call per iteration and per recursive call. In place of the pointer \<^verbatim>\<open>zEscaped\<close> the
  iteration knows whether its character was escaped: only then do \<^verbatim>\<open>zPattern\<close> and \<^verbatim>\<open>zEscaped\<close> agree. The byte before the
  pattern, at \<^verbatim>\<open>zPattern[-1]\<close>, is the character just read, which is below \<open>0x80\<close>.
\<close>

function patternCompare :: "bytes \<Rightarrow> bytes \<Rightarrow> compareInfo \<Rightarrow> u32 \<Rightarrow> int option" where
  "patternCompare zPattern zString pInfo matchOther = do {
     (c, p) \<leftarrow> Utf8Read zPattern;
     if c = 0 then do { b \<leftarrow> deref zString; Some (if b = 0 then SQLITE_MATCH else SQLITE_NOMATCH) }
     else if c = ucast (matchAll pInfo) then do {
       r \<leftarrow> skip_wildcards (ucast (matchAll pInfo)) (ucast (matchOne pInfo)) p zString;
       case r of
         Inl m \<Rightarrow> Some m
       | Inr (c, p, s) \<Rightarrow>
           if c = 0 then Some SQLITE_MATCH
           else if c = matchOther \<and> matchSet pInfo \<noteq> 0 then
             search_set (\<lambda>s. patternCompare (ucast c # p) s pInfo matchOther) s
           else do {
             (c, p) \<leftarrow> (if c = matchOther then sqlite3Utf8Read p else Some (c, p));
             if c = 0 then Some SQLITE_NOWILDCARDMATCH
             else if c \<le> 0x80 then
               search_stop (if noCase pInfo then [ucast (sqlite3Toupper c), sqlite3Tolower c] else [ucast c])
                 (\<lambda>s. patternCompare p s pInfo matchOther) s
             else search_char c (\<lambda>s. patternCompare p s pInfo matchOther) s
           }
     }
     else if c = matchOther \<and> matchSet pInfo \<noteq> 0 then do {
       r \<leftarrow> match_set p zString;
       case r of None \<Rightarrow> Some SQLITE_NOMATCH | Some (p, s) \<Rightarrow> patternCompare p s pInfo matchOther
     }
     else do {
       let escaped = (c = matchOther);
       (c, p) \<leftarrow> (if escaped then sqlite3Utf8Read p else Some (c, p));
       if c = 0 then Some SQLITE_NOMATCH
       else do {
         (c2, s) \<leftarrow> Utf8Read zString;
         if c = c2 \<or> (noCase pInfo \<and> sqlite3Tolower c = sqlite3Tolower c2 \<and> c < 0x80 \<and> c2 < 0x80)
             \<or> (c = ucast (matchOne pInfo) \<and> \<not> escaped \<and> c2 \<noteq> 0)
         then patternCompare p s pInfo matchOther
         else Some SQLITE_NOMATCH
       }
     }
   }"
  by auto

lemma skip_wildcards_shorter: "skip_wildcards all one p s = Some (Inr (c, p', s')) \<Longrightarrow> length p' < length p"
proof (induction p arbitrary: s rule: measure_induct_rule [of length])
  case (less p)
  then show ?case
    by (subst (asm) (2) skip_wildcards.simps,
        auto simp: bind_eq_Some_conv split: if_splits dest!: Utf8Read_shorter dest: less.IH [rotated])
      (meson less_trans)
qed

lemma set_loop_shorter: "set_loop c prior_c seen c2 p = Some (seen', c2', p') \<Longrightarrow> length p' \<le> length p"
proof (induction p arbitrary: prior_c seen c2 rule: measure_induct_rule [of length])
  case (less p)
  then show ?case
    by (subst (asm) (2) set_loop.simps)
      (auto simp: bind_eq_Some_conv Let_def split: if_splits dest!: read_shorter dest: less.IH [rotated])
qed

lemma match_set_shorter: "match_set p s = Some (Some (p', s')) \<Longrightarrow> length p' < length p"
  by (auto simp: match_set_def bind_eq_Some_conv split: if_splits dest!: set_loop_shorter read_shorter)

termination patternCompare
  by (relation "measure (\<lambda>(p, s, i, other). length p)")
    (auto dest!: Utf8Read_shorter skip_wildcards_shorter match_set_shorter read_shorter split: if_splits)

declare patternCompare.simps [simp del]

definition sqlite3_strglob :: "bytes \<Rightarrow> bytes \<Rightarrow> int option" where
  "sqlite3_strglob zGlobPattern zString = patternCompare zGlobPattern zString globInfo 0x5b"

definition sqlite3_strlike :: "bytes \<Rightarrow> bytes \<Rightarrow> u32 \<Rightarrow> int option" where
  "sqlite3_strlike zPattern zStr esc = patternCompare zPattern zStr likeInfoNorm esc"

text \<open>
  \<^verbatim>\<open>likeFunc\<close>, the SQL function behind both operators. Its arguments are what its callees return for the SQL values: the size
  \<^verbatim>\<open>nPat\<close> of the pattern and the texts of the pattern, the string and, with three arguments, the escape character; a null
  pointer is \<open>None\<close>. \<open>limit\<close> is the database's \<^verbatim>\<open>SQLITE_LIMIT_LIKE_PATTERN_LENGTH\<close>.
\<close>

datatype like_result = Too_complex | Not_a_single_character | Unset | Result_int bool

definition escape_info :: "u32 \<Rightarrow> compareInfo \<Rightarrow> compareInfo" where
  "escape_info escape pInfo =
     (let pInfo = (if escape = ucast (matchAll pInfo) then pInfo\<lparr>matchAll := 0\<rparr> else pInfo)
      in if escape = ucast (matchOne pInfo) then pInfo\<lparr>matchOne := 0\<rparr> else pInfo)"

definition likeFunc ::
  "int \<Rightarrow> compareInfo \<Rightarrow> int \<Rightarrow> bytes option \<Rightarrow> bytes option \<Rightarrow> bytes option option \<Rightarrow> like_result option" where
  "likeFunc limit pInfo nPat zB zA argv2 =
     (if limit < nPat then Some Too_complex
      else
        let compare = (\<lambda>pInfo escape.
          case (zA, zB) of
            (Some zA, Some zB) \<Rightarrow> do { m \<leftarrow> patternCompare zB zA pInfo escape; Some (Result_int (m = SQLITE_MATCH)) }
          | _ \<Rightarrow> Some Unset)
        in
          case argv2 of
            None \<Rightarrow> compare pInfo (ucast (matchSet pInfo))
          | Some None \<Rightarrow> Some Unset
          | Some (Some zEsc) \<Rightarrow> do {
              n \<leftarrow> sqlite3Utf8CharLen zEsc;
              if n \<noteq> 1 then Some Not_a_single_character
              else do {
                (escape, z) \<leftarrow> sqlite3Utf8Read zEsc;
                compare (escape_info escape pInfo) escape
              }
            })"

section \<open>What a pattern describes\<close>

text \<open>
  The parts of a pattern: the wildcards, a set of ranges of characters, possibly inverted, a character, and what is not well-formed,
  a set without its end or an escape without its character, and matches nothing.
\<close>

datatype pattern_part =
    Any_sequence
  | Any_character
  | One_of bool "(u32 \<times> u32) list"
  | Exactly u32
  | Malformed

text \<open>Small letters for the capital letters of ASCII.\<close>

definition small :: "u32 \<Rightarrow> u32" where
  "small c = (if 0x41 \<le> c \<and> c \<le> 0x5a then c + 0x20 else c)"

fun accepts :: "bool \<Rightarrow> pattern_part \<Rightarrow> u32 \<Rightarrow> bool" where
  "accepts ignore_case Any_character d = True"
| "accepts ignore_case (One_of invert ranges) d = (list_ex (\<lambda>(lo, hi). lo \<le> d \<and> d \<le> hi) ranges \<noteq> invert)"
| "accepts ignore_case (Exactly c) d = (if ignore_case then small c = small d else c = d)"
| "accepts ignore_case _ d = False"

text \<open>The strings a pattern describes: its parts, one after the other, stand for consecutive pieces of the string.\<close>

fun describes :: "bool \<Rightarrow> pattern_part list \<Rightarrow> u32 list \<Rightarrow> bool" where
  "describes ignore_case [] cs = (cs = [])"
| "describes ignore_case (Any_sequence # ps) cs = (\<exists>k \<le> length cs. describes ignore_case ps (drop k cs))"
| "describes ignore_case (p # ps) [] = False"
| "describes ignore_case (p # ps) (c # cs) = (accepts ignore_case p c \<and> describes ignore_case ps cs)"

text \<open>The ranges of a set, and what follows its closing bracket. \<open>prior\<close> is the character a hyphen makes a range from, or \<open>0\<close>.\<close>

fun set_ranges :: "u32 \<Rightarrow> u32 list \<Rightarrow> ((u32 \<times> u32) list \<times> u32 list) option" where
  "set_ranges prior [] = None"
| "set_ranges prior [c] = (if c = 0x5d then Some ([], []) else None)"
| "set_ranges prior (c # d # cs) =
     (if c = 0x5d then Some ([], d # cs)
      else if c = 0x2d \<and> 0 < prior \<and> d \<noteq> 0x5d then map_option (apfst (Cons (prior, d))) (set_ranges 0 cs)
      else map_option (apfst (Cons (c, c))) (set_ranges c (d # cs)))"

definition parse_set :: "u32 list \<Rightarrow> (pattern_part \<times> u32 list) option" where
  "parse_set cs =
     (let (invert, cs) = (case cs of c # cs' \<Rightarrow> if c = 0x5e then (True, cs') else (False, cs) | [] \<Rightarrow> (False, cs));
          (first, cs) = (case cs of c # cs' \<Rightarrow> if c = 0x5d then ([(0x5d, 0x5d)], cs') else ([], cs) | [] \<Rightarrow> ([], cs))
      in map_option (\<lambda>(ranges, rest). (One_of invert (first @ ranges), rest)) (set_ranges 0 cs))"

lemma set_ranges_shorter: "set_ranges prior cs = Some (rs, rest) \<Longrightarrow> length rest < length cs \<and> set rest \<subseteq> set cs"
  by (induction prior cs arbitrary: rs rule: set_ranges.induct) (fastforce split: if_splits)+

lemma parse_set_shorter: "parse_set cs = Some (part, rest) \<Longrightarrow> length rest < length cs \<and> set rest \<subseteq> set cs"
  by (cases cs; cases "tl cs") (auto simp: parse_set_def split: if_splits dest!: set_ranges_shorter)

lemma parse_set_part: "parse_set cs = Some (part, rest) \<Longrightarrow> part \<noteq> Any_sequence"
  by (auto simp: parse_set_def Let_def split: prod.splits)

text \<open>The parts of the characters of a pattern: the one that stands for a sequence goes before the escape or opening bracket, and
  that before the one that stands for a character.\<close>

function parse_pattern :: "compareInfo \<Rightarrow> u32 \<Rightarrow> u32 list \<Rightarrow> pattern_part list" where
  "parse_pattern info other [] = []"
| "parse_pattern info other (c # cs) =
     (if c = ucast (matchAll info) then Any_sequence # parse_pattern info other cs
      else if c = other then
        if matchSet info = 0 then
          case cs of [] \<Rightarrow> [Malformed] | d # cs' \<Rightarrow> Exactly d # parse_pattern info other cs'
        else
          case parse_set cs of None \<Rightarrow> [Malformed] | Some (part, rest) \<Rightarrow> part # parse_pattern info other rest
      else if c = ucast (matchOne info) then Any_character # parse_pattern info other cs
      else Exactly c # parse_pattern info other cs)"
  by pat_completeness auto
termination
  by (relation "measure (\<lambda>(info, other, cs). length cs)") (auto dest: parse_set_shorter)

text \<open>\<open>SQLITE_NOWILDCARDMATCH\<close> promises that the pattern does not match from any later character on either.\<close>

definition decides :: "bool \<Rightarrow> pattern_part list \<Rightarrow> u32 list \<Rightarrow> int option \<Rightarrow> bool" where
  "decides ignore_case ps cs r \<longleftrightarrow>
     r = Some SQLITE_MATCH \<and> describes ignore_case ps cs \<or>
     r = Some SQLITE_NOMATCH \<and> \<not> describes ignore_case ps cs \<or>
     r = Some SQLITE_NOWILDCARDMATCH \<and> (\<forall>k. \<not> describes ignore_case ps (drop k cs))"

section \<open>Wildcards\<close>

lemma describes_star: "describes i (Any_sequence # ps) cs \<longleftrightarrow> (\<exists>k. describes i ps (drop k cs))"
proof
  assume "\<exists>k. describes i ps (drop k cs)"
  then obtain k where "describes i ps (drop k cs)" ..
  then have "describes i ps (drop (min k (length cs)) cs)"
    by (cases "k \<le> length cs") (simp_all add: min_def)
  then show "describes i (Any_sequence # ps) cs"
    by (simp only: describes.simps) (meson min.cobounded2)
qed auto

lemma describes_one: "p \<noteq> Any_sequence \<Longrightarrow> describes i (p # ps) cs \<longleftrightarrow> cs \<noteq> [] \<and> accepts i p (hd cs) \<and> describes i ps (tl cs)"
  by (cases p; cases cs) simp_all

lemma describes_star_drop: "describes i (Any_sequence # ps) (drop k cs) \<Longrightarrow> describes i (Any_sequence # ps) cs"
  by (auto simp: describes_star simp del: describes.simps)

lemma describes_skip:
  "describes i (Any_sequence # Any_sequence # ps) cs = describes i (Any_sequence # ps) cs"
  "describes i (Any_sequence # Any_character # ps) (c # cs) = describes i (Any_sequence # ps) cs"
  "\<not> describes i (Any_sequence # Any_character # ps) []"
  "describes i [Any_sequence] cs"
proof -
  show "describes i (Any_sequence # Any_sequence # ps) cs = describes i (Any_sequence # ps) cs"
    by (auto simp: describes_star simp del: describes.simps) (metis add_0)
  have "tl (drop k (c # cs)) = drop k cs" for k
    by (simp add: tl_drop)
  then have "describes i (Any_sequence # Any_character # ps) (c # cs) \<longleftrightarrow> (\<exists>k \<le> length cs. describes i ps (drop k cs))"
    by (auto simp: describes_star describes_one not_le simp del: describes.simps) (metis less_Suc_eq_le not_less)+
  then show "describes i (Any_sequence # Any_character # ps) (c # cs) = describes i (Any_sequence # ps) cs"
    by simp
  show "\<not> describes i (Any_sequence # Any_character # ps) []"
    by simp
  show "describes i [Any_sequence] cs"
    by auto
qed

text \<open>A pattern that begins with a sequence either matches or cannot match any later.\<close>

lemma decides_star:
  "decides i (Any_sequence # ps) cs
     (Some (if describes i (Any_sequence # ps) cs then SQLITE_MATCH else SQLITE_NOWILDCARDMATCH))"
  using describes_star_drop [of i ps _ cs] by (auto simp: decides_def simp del: describes.simps)

text \<open>What a search after a sequence learns from one character and the recursive call behind it.\<close>

lemma describes_star_Cons: "describes i (Any_sequence # ps) (c # cs) \<longleftrightarrow> describes i ps (c # cs) \<or> describes i (Any_sequence # ps) cs"
  unfolding describes_star by (metis drop_0 drop_Suc_Cons not0_implies_Suc)

lemma describes_star_Nil: "p \<noteq> Any_sequence \<Longrightarrow> \<not> describes i (Any_sequence # p # ps) []"
  by (simp add: describes_star describes_one)

lemma search_step:
  assumes "p \<noteq> Any_sequence" "decides i ps cs r"
  shows "accepts i p c \<Longrightarrow> r = Some SQLITE_MATCH \<Longrightarrow> describes i (Any_sequence # p # ps) (c # cs)"
    "r = Some SQLITE_NOWILDCARDMATCH \<Longrightarrow> \<not> describes i (Any_sequence # p # ps) (c # cs)"
    "\<not> accepts i p c \<or> r = Some SQLITE_NOMATCH \<Longrightarrow>
      describes i (Any_sequence # p # ps) (c # cs) = describes i (Any_sequence # p # ps) cs"
proof -
  note step = describes_star_Cons [of i "p # ps" c cs] describes_one [OF assms(1), of i ps "c # cs"]
  show "accepts i p c \<Longrightarrow> r = Some SQLITE_MATCH \<Longrightarrow> describes i (Any_sequence # p # ps) (c # cs)"
    using assms(2) step by (simp add: decides_def del: describes.simps)
  show "\<not> accepts i p c \<or> r = Some SQLITE_NOMATCH \<Longrightarrow>
      describes i (Any_sequence # p # ps) (c # cs) = describes i (Any_sequence # p # ps) cs"
    using assms(2) step by (auto simp add: decides_def simp del: describes.simps)
  assume "r = Some SQLITE_NOWILDCARDMATCH"
  then have none: "\<not> describes i ps (drop k cs)" for k
    using assms(2) by (simp add: decides_def)
  have "\<not> describes i (Any_sequence # p # ps) cs"
    using none by (simp add: describes_star describes_one [OF assms(1)] tl_drop drop_Suc [symmetric] del: describes.simps)
  then show "\<not> describes i (Any_sequence # p # ps) (c # cs)"
    using step none [of 0] by (simp del: describes.simps)
qed

lemma decidesE:
  assumes "decides i ps cs r"
  obtains "r = Some SQLITE_MATCH" "describes i ps cs" | "r = Some SQLITE_NOMATCH" "\<not> describes i ps cs"
  | "r = Some SQLITE_NOWILDCARDMATCH" "\<And>k. \<not> describes i ps (drop k cs)"
  using assms unfolding decides_def by blast

text \<open>The result of a search.\<close>

abbreviation found :: "bool \<Rightarrow> pattern_part list \<Rightarrow> u32 list \<Rightarrow> int option" where
  "found i ps cs \<equiv> Some (if describes i (Any_sequence # ps) cs then SQLITE_MATCH else SQLITE_NOWILDCARDMATCH)"

lemma search_char_found:
  assumes "cstring s" "\<And>s. cstring s \<Longrightarrow> decides i ps (chars s) (f s)"
    and "\<And>d. accepts i (Exactly c) d \<longleftrightarrow> d = c"
  shows "search_char c f s = found i (Exactly c # ps) (chars s)"
  using assms(1)
proof (induction s rule: measure_induct_rule [of length])
  case (less s)
  from less.prems show ?case
  proof (cases s rule: read_cases)
    case (terminator z')
    then show ?thesis
      by (simp add: search_char.simps [of c f "0 # z'"] Utf8Read_eq describes_star_Nil del: describes.simps)
  next
    case (character b y d z')
    note IH = less.IH [OF read_shorter [OF character(3)] character(6)]
    note step = search_step [of "Exactly c" i ps "chars z'" "f z'" d, OF _ assms(2) [OF character(6)]]
    from assms(2) [OF character(6)] show ?thesis
      by (cases rule: decidesE)
        (use IH step character assms(3) in
          \<open>simp_all add: search_char.simps [of c f "b # y"] Utf8Read_eq del: describes.simps\<close>)
  qed
qed

text \<open>The search for bytes sees the same places, as the bytes of the other characters are not ASCII.\<close>

lemma search_stop_Cons:
  "search_stop zs f (b # y) =
     (if b = 0 then Some SQLITE_NOWILDCARDMATCH
      else if b \<in> set zs then do { m \<leftarrow> f y; if m \<noteq> SQLITE_NOMATCH then Some m else search_stop zs f y }
      else search_stop zs f y)"
  by (subst search_stop.simps, subst (3) search_stop.simps) simp

lemma continuation_big: "b AND 0xc0 = 0x80 \<Longrightarrow> 0x80 \<le> (b :: u8)"
  by (metis word_and_le1 word_and_le2)

lemma search_stop_continuation:
  assumes "\<forall>b \<in> set zs. b < 0x80" "skip_continuation y = Some y'"
  shows "search_stop zs f y = search_stop zs f y'"
  using assms(2)
proof (induction y)
  case (Cons b y)
  show ?case
  proof (cases "b AND 0xc0 = 0x80")
    case True
    then have "b \<noteq> 0" "b \<notin> set zs"
      using continuation_big [OF True] assms(1) by (auto simp: not_le)
    then show ?thesis
      using Cons True by (simp add: search_stop_Cons)
  qed (use Cons in simp)
qed simp

lemma search_stop_skip:
  assumes "\<forall>b \<in> set zs. b < 0x80" "SQLITE_SKIP_UTF8 (b # y) = Some z" "\<not> b < 0x80"
  shows "search_stop zs f (b # y) = search_stop zs f z"
proof -
  have "b \<noteq> 0" "b \<notin> set zs"
    using assms(1,3) by auto
  then have "search_stop zs f (b # y) = search_stop zs f y"
    by (simp add: search_stop_Cons)
  also have "\<dots> = search_stop zs f z"
    using assms(2) search_stop_continuation [OF assms(1)] by (auto simp: SQLITE_SKIP_UTF8_def split: if_splits)
  finally show ?thesis .
qed

lemma search_stop_found:
  assumes "cstring s" "\<And>s. cstring s \<Longrightarrow> decides i ps (chars s) (f s)"
    and zs: "\<forall>b \<in> set zs. b < 0x80" "\<And>d. accepts i (Exactly c) d \<longleftrightarrow> d < 0x80 \<and> ucast d \<in> set zs"
  shows "search_stop zs f s = found i (Exactly c # ps) (chars s)"
  using assms(1)
proof (induction s rule: measure_induct_rule [of length])
  case (less s)
  from less.prems show ?case
  proof (cases s rule: read_cases)
    case (terminator z')
    then show ?thesis
      by (simp add: search_stop_Cons describes_star_Nil del: describes.simps)
  next
    case (character b y d z')
    note IH = less.IH [OF read_shorter [OF character(3)] character(6)]
    note step = search_step [of "Exactly c" i ps "chars z'" "f z'" d, OF _ assms(2) [OF character(6)]]
    show ?thesis
    proof (cases "d < 0x80")
      case True
      then have d: "d = ucast b" "z' = y"
        using character(9) by simp_all
      then have "accepts i (Exactly c) d \<longleftrightarrow> b \<in> set zs"
        using zs(2) [of d] True by simp
      with assms(2) [OF character(6)] show ?thesis
        by (cases rule: decidesE)
          (use IH step character d in \<open>simp_all add: search_stop_Cons del: describes.simps accepts.simps\<close>)
    next
      case False
      then have "\<not> accepts i (Exactly c) d" "\<not> b < 0x80"
        using zs(2) [of d] character(8) by simp_all
      then show ?thesis
        using IH step(3) character(1,5) search_stop_skip [OF zs(1), of b y z' f] character(7)
        by (simp del: describes.simps accepts.simps)
    qed
  qed
qed

lemma search_set_found:
  assumes "cstring s" "\<And>s. cstring s \<Longrightarrow> decides i (p # ps) (chars s) (f s)" "p \<noteq> Any_sequence"
  shows "search_set f s = found i (p # ps) (chars s)"
  using assms(1)
proof (induction s rule: measure_induct_rule [of length])
  case (less s)
  from less.prems show ?case
  proof (cases s rule: read_cases)
    case (terminator z')
    then show ?thesis
      using describes_star_Nil [OF assms(3)] by (simp add: search_set.simps [of f "0 # z'"] del: describes.simps)
  next
    case (character b y d z')
    note IH = less.IH [OF read_shorter [OF character(3)] character(6)]
    have "(\<forall>k. \<not> describes i (p # ps) (drop k (d # chars z'))) \<Longrightarrow> \<not> describes i (Any_sequence # p # ps) (d # chars z')"
      by (simp add: describes_star del: describes.simps)
    with assms(2) [OF less.prems] show ?thesis
      by (cases rule: decidesE)
        (use IH character describes_star_Cons [of i "p # ps" d "chars z'"] in
          \<open>simp_all add: search_set.simps [of f "b # y"] del: describes.simps\<close>)
  qed
qed

section \<open>Letters of both cases\<close>

lemma ctype_case: "map (\<lambda>b. b AND 0x20) sqlite3CtypeMap = replicate 97 0 @ replicate 26 0x20 @ replicate 133 0"
  by code_simp

definition small_code :: "nat \<Rightarrow> nat" where
  "small_code n = (if 65 \<le> n \<and> n \<le> 90 then n + 32 else n)"

lemma unat_tolower: "unat (sqlite3Tolower c) = small_code (unat (ucast c :: u8))"
proof -
  have "sqlite3Tolower c = upper_to_lower (ucast c)"
    by (simp add: sqlite3Tolower_def upper_to_lower_def)
  then show ?thesis
    by (simp add: upper_to_lower_eq small_code_def unat_word_ariths)
qed

lemma unat_small: "unat (small c) = small_code (unat c)"
  by (simp add: small_def small_code_def word_le_nat_alt unat_word_ariths)

lemma clear_case_bit: "list_all (\<lambda>n. unat (ucast (of_nat n AND NOT 0x20 :: u32) :: u8) = n - 32) [97..<123]"
  by code_simp

lemma unat_toupper:
  assumes "c < 0x80"
  shows "unat (ucast (sqlite3Toupper c) :: u8) = (if 97 \<le> unat c \<and> unat c \<le> 122 then unat c - 32 else unat c)"
proof -
  have n: "unat c < 128" "unat (ucast c :: u8) = unat c"
    using unat_ascii [OF assms] by simp_all
  have "sqlite3CtypeMap ! unat c AND 0x20 = map (\<lambda>b. b AND 0x20) sqlite3CtypeMap ! unat c"
    using n(1) by (intro nth_map [symmetric]) (simp add: sqlite3CtypeMap_def)
  also have "\<dots> = (if 97 \<le> unat c \<and> unat c \<le> 122 then 0x20 else 0)"
    unfolding ctype_case using n(1) by (auto simp: nth_append)
  finally have upper: "sqlite3Toupper c = c AND NOT (if 97 \<le> unat c \<and> unat c \<le> 122 then 0x20 else 0)"
    using n(2) by (auto simp: sqlite3Toupper_def)
  show ?thesis
  proof (cases "97 \<le> unat c \<and> unat c \<le> 122")
    case True
    then have "unat c \<in> set [97..<123]"
      by (simp del: upt_rec_numeral)
    then have "unat (ucast (of_nat (unat c) AND NOT 0x20 :: u32) :: u8) = unat c - 32"
      using clear_case_bit unfolding list_all_iff by (rule bspec [rotated])
    with True upper show ?thesis
      by simp
  qed (use upper n(2) in auto)
qed

lemma same_letter:
  assumes "c < 0x80" "d < 0x80"
  shows "small c = small d \<longleftrightarrow> (ucast d :: u8) = ucast (sqlite3Toupper c) \<or> ucast d = sqlite3Tolower c"
  using unat_ascii [OF assms(1)] unat_ascii [OF assms(2)]
  by (auto simp: word_unat_eq_iff unat_small unat_tolower unat_toupper [OF assms(1)] small_code_def split: if_splits)

lemma small_other: "\<not> c < 0x80 \<Longrightarrow> small c = c" "small c < 0x80 \<longleftrightarrow> c < 0x80"
  by (auto simp: small_def word_less_nat_alt word_le_nat_alt unat_word_ariths)

section \<open>Skipping wildcards and sets\<close>

text \<open>The signs of a pattern are different, and the opening bracket is ASCII.\<close>

definition well_chosen :: "compareInfo \<Rightarrow> u32 \<Rightarrow> bool" where
  "well_chosen info other \<longleftrightarrow>
     (matchOne info \<noteq> 0 \<longrightarrow> matchOne info \<noteq> matchAll info \<and> ucast (matchOne info) \<noteq> other) \<and>
     (matchSet info \<noteq> 0 \<longrightarrow> other < 0x80)"

lemma ucast_byte_eq [simp]: "(ucast (b :: u8) :: u32) = ucast b' \<longleftrightarrow> b = b'" "(ucast (b :: u8) :: u32) = 0 \<longleftrightarrow> b = 0"
  by (metis ucast_byte) (metis ucast_byte ucast_0)

definition skipped :: "bool \<Rightarrow> compareInfo \<Rightarrow> u32 \<Rightarrow> bytes \<Rightarrow> bytes \<Rightarrow> int + u32 \<times> bytes \<times> bytes \<Rightarrow> bool" where
  "skipped i info other p s r =
     (let whole = describes i (Any_sequence # parse_pattern info other (chars p)) (chars s) in
      case r of
        Inl m \<Rightarrow> m = SQLITE_NOWILDCARDMATCH \<and> \<not> whole
      | Inr (c, p', s') \<Rightarrow>
          cstring s' \<and>
          (if c = 0 then whole
           else cstring p' \<and> c \<noteq> ucast (matchAll info) \<and> (c \<noteq> ucast (matchOne info) \<or> matchOne info = 0) \<and>
             set (c # chars p') \<subseteq> set (chars p) \<and>
             whole = describes i (Any_sequence # parse_pattern info other (c # chars p')) (chars s')))"

lemma skipped_step:
  assumes "skipped i info other p' s' r" "set (chars p') \<subseteq> set (chars p)"
    and "describes i (Any_sequence # parse_pattern info other (chars p)) (chars s) =
      describes i (Any_sequence # parse_pattern info other (chars p')) (chars s')"
  shows "skipped i info other p s r"
  using assms by (auto simp: skipped_def Let_def simp del: describes.simps parse_pattern.simps split: sum.splits if_splits)

lemma skip_wildcards_skipped:
  assumes info: "well_chosen info other" "matchAll info \<noteq> 0" and strings: "cstring p" "cstring s"
  shows "\<exists>r. skip_wildcards (ucast (matchAll info)) (ucast (matchOne info)) p s = Some r \<and> skipped i info other p s r"
  using strings
proof (induction p arbitrary: s rule: measure_induct_rule [of length])
  case (less p)
  let ?skip = "skip_wildcards (ucast (matchAll info)) (ucast (matchOne info))"
  note simps = skip_wildcards.simps [of "ucast (matchAll info)" "ucast (matchOne info)" p s] Utf8Read_eq
  from less.prems(1) show ?case
  proof (cases p rule: read_cases)
    case (terminator z')
    then have "?skip p s = Some (Inr (0, z', s))"
      using info by (simp add: skip_wildcards.simps [of _ _ "0 # z'"] Utf8Read_eq)
    then show ?thesis
      using terminator less.prems describes_skip(4) by (auto simp: skipped_def simp del: describes.simps)
  next
    case (character b y c p')
    note IH = less.IH [OF read_shorter [OF character(3)] character(6)]
    consider "c = ucast (matchAll info)" | "c = ucast (matchOne info)" "matchOne info \<noteq> 0" "c \<noteq> ucast (matchAll info)"
      | "c \<noteq> ucast (matchAll info)" "c \<noteq> ucast (matchOne info) \<or> matchOne info = 0"
      by blast
    then show ?thesis
    proof cases
      case 1
      moreover have "matchOne info \<noteq> matchAll info"
        using info by (auto simp: well_chosen_def)
      ultimately have "?skip p s = ?skip p' s"
        using info(2) character(1,3) by (simp add: skip_wildcards.simps [of _ _ "b # y"] Utf8Read_eq)
      moreover have "parse_pattern info other (chars p) = Any_sequence # parse_pattern info other (chars p')"
        using 1 character(5) by simp
      moreover obtain r where "?skip p' s = Some r" "skipped i info other p' s r"
        using IH [OF less.prems(2)] by blast
      ultimately show ?thesis
        using character(5) by (auto simp only: describes_skip set_simps intro!: skipped_step [of i info other p' s])
    next
      case 2
      have parts: "parse_pattern info other (chars p) = Any_character # parse_pattern info other (chars p')"
        using 2 info(1) character(5) by (simp add: well_chosen_def)
      from less.prems(2) show ?thesis
      proof (cases s rule: read_cases)
        case (terminator s')
        then have "?skip p s = Some (Inl SQLITE_NOWILDCARDMATCH)"
          using 2 character(1,3) by (simp add: skip_wildcards.simps [of _ _ "b # y"] Utf8Read_eq)
        then show ?thesis
          using describes_skip(3) terminator(3) parts by (simp add: skipped_def del: describes.simps)
      next
        case s: (character b' y' d s')
        then have "?skip p s = ?skip p' s'"
          using 2 character(1,3) by (simp add: skip_wildcards.simps [of _ _ "b # y"] Utf8Read_eq)
        moreover obtain r where "?skip p' s' = Some r" "skipped i info other p' s' r"
          using IH [OF s(6)] by blast
        ultimately show ?thesis
          using character(5) parts s(5) by (auto simp only: describes_skip set_simps intro!: skipped_step [of i info other p' s'])
      qed
    next
      case 3
      then have "?skip p s = Some (Inr (c, p', s))"
        using character(1,3) by (auto simp: skip_wildcards.simps [of _ _ "b # y"] Utf8Read_eq)
      then show ?thesis
        using 3 character(4,5,6) less.prems
        by (simp add: skipped_def subset_insertI del: describes.simps parse_pattern.simps)
    qed
  qed
qed

text \<open>A character that was read, and those behind it.\<close>

abbreviation from_char :: "u32 \<Rightarrow> bytes \<Rightarrow> u32 list" where
  "from_char c z \<equiv> (if c = 0 then [] else c # chars z)"

lemma chars_read: "cstring z \<Longrightarrow> \<exists>c z'. sqlite3Utf8Read z = Some (c, z') \<and> chars z = from_char c z' \<and> (c = 0 \<or> cstring z')"
  by (cases z rule: read_cases) auto

abbreviation in_ranges :: "(u32 \<times> u32) list \<Rightarrow> u32 \<Rightarrow> bool" where
  "in_ranges rs c \<equiv> list_ex (\<lambda>(lo, hi). lo \<le> c \<and> c \<le> hi) rs"

lemma range_follows_chars:
  assumes "cstring p"
  shows "range_follows c2 prior p = Some (c2 = 0x2d \<and> 0 < prior \<and> chars p \<noteq> [] \<and> hd (chars p) \<noteq> 0x5d)"
  using assms
proof (cases p rule: read_cases)
  case (character b y d p')
  have "b = 0x5d \<longleftrightarrow> d = 0x5d"
  proof
    assume "b = 0x5d"
    with character(8,9) show "d = 0x5d" by simp
  next
    assume "d = 0x5d"
    with character(9) have "0x5d = (ucast b :: u32)" by simp
    then show "b = 0x5d" by (simp add: word_unat_eq_iff)
  qed
  then show ?thesis
    using character(1,2,5) by (auto simp: range_follows_def)
qed (simp add: range_follows_def)

lemma set_loop_ranges:
  assumes "c2 = 0 \<or> cstring p"
  shows "case set_ranges prior (from_char c2 p) of
      None \<Rightarrow> \<exists>x p'. set_loop c prior seen c2 p = Some (x, 0, p')
    | Some (rs, rest) \<Rightarrow> \<exists>p'. set_loop c prior seen c2 p = Some (seen \<or> in_ranges rs c, 0x5d, p') \<and> cstring p' \<and> chars p' = rest"
  using assms
proof (induction p arbitrary: prior seen c2 rule: measure_induct_rule [of length])
  case (less p)
  note loop = set_loop.simps [of c prior seen c2 p]
  show ?case
  proof (cases "c2 = 0 \<or> c2 = 0x5d")
    case True
    then show ?thesis
      using less.prems loop by (cases "chars p") auto
  next
    case False
    then have p: "cstring p"
      using less.prems by simp
    note range = range_follows_chars [OF p, of c2 prior]
    obtain d p' where d: "sqlite3Utf8Read p = Some (d, p')" "chars p = from_char d p'" "d = 0 \<or> cstring p'"
      using chars_read [OF p] by blast
    show ?thesis
    proof (cases "c2 = 0x2d \<and> 0 < prior \<and> chars p \<noteq> [] \<and> hd (chars p) \<noteq> 0x5d")
      case True
      then have "d \<noteq> 0" "cstring p'"
        using d by (auto split: if_splits)
      then obtain e p'' where e: "sqlite3Utf8Read p' = Some (e, p'')" "chars p' = from_char e p''"
          "e = 0 \<or> cstring p''"
        using chars_read by blast
      let ?seen = "seen \<or> prior \<le> c \<and> c \<le> d"
      have "set_loop c prior seen c2 p = set_loop c 0 ?seen e p''"
        using loop False range True d(1) e(1) by simp
      moreover have "length p'' < length p"
        using read_shorter [OF d(1)] read_shorter [OF e(1)] by simp
      note IH = less.IH [OF this e(3), of 0 ?seen]
      moreover have "set_ranges prior (from_char c2 p) =
          map_option (apfst (Cons (prior, d))) (set_ranges 0 (from_char e p''))"
        using True d(2) e(2) \<open>d \<noteq> 0\<close> by simp
      ultimately show ?thesis
        by (auto split: option.splits)
    next
      case one: False
      have "set_loop c prior seen c2 p = set_loop c c2 (seen \<or> c = c2) d p'"
        using loop False range one d(1) by simp
      moreover note less.IH [OF read_shorter [OF d(1)] d(3), of c2 "seen \<or> c = c2"]
      moreover have "set_ranges prior (from_char c2 p) =
          map_option (apfst (Cons (c2, c2))) (set_ranges c2 (from_char d p'))"
        using False one d(2) by auto
      ultimately show ?thesis
        by (auto split: option.splits)
    qed
  qed
qed

lemma match_set_invert:
  assumes "c1 = 0 \<or> cstring p1"
  shows "\<exists>invert c2 p2. (if c1 = 0x5e then do { (c2, p) \<leftarrow> sqlite3Utf8Read p1; Some (True, c2, p) } else Some (False, c1, p1)) =
      Some (invert, c2, p2) \<and> (c2 = 0 \<or> cstring p2) \<and>
    (case from_char c1 p1 of c # cs' \<Rightarrow> if c = 0x5e then (True, cs') else (False, from_char c1 p1) | [] \<Rightarrow> (False, from_char c1 p1)) =
      (invert, from_char c2 p2)"
proof (cases "c1 = 0x5e")
  case True
  then obtain c2 p2 where "sqlite3Utf8Read p1 = Some (c2, p2)" "chars p1 = from_char c2 p2" "c2 = 0 \<or> cstring p2"
    using assms chars_read [of p1] by auto
  with True show ?thesis by auto
qed (use assms in auto)

lemma match_set_first:
  assumes "c2 = 0 \<or> cstring p2"
  shows "\<exists>seen first c3 p3. (if c2 = 0x5d then do { (c3, p) \<leftarrow> sqlite3Utf8Read p2; Some (c = 0x5d, c3, p) } else Some (False, c2, p2)) =
      Some (seen, c3, p3) \<and> (c3 = 0 \<or> cstring p3) \<and> seen = in_ranges first c \<and>
    (case from_char c2 p2 of c # cs' \<Rightarrow> if c = 0x5d then ([(0x5d, 0x5d)], cs') else ([], from_char c2 p2)
      | [] \<Rightarrow> ([], from_char c2 p2)) = (first, from_char c3 p3)"
proof (cases "c2 = 0x5d")
  case True
  then obtain c3 p3 where "sqlite3Utf8Read p2 = Some (c3, p3)" "chars p2 = from_char c3 p3" "c3 = 0 \<or> cstring p3"
    using assms chars_read [of p2] by auto
  with True show ?thesis
    by (intro exI [of _ "c = 0x5d"] exI [of _ "[(0x5d, 0x5d)]"] exI [of _ c3] exI [of _ p3]) (auto intro: antisym)
qed (use assms in auto)

lemma match_set_result:
  assumes "cstring p" "cstring s"
  shows "\<exists>r. match_set p s = Some r \<and>
    (case parse_set (chars p) of
       None \<Rightarrow> r = None
     | Some (part, rest) \<Rightarrow> part \<noteq> Any_sequence \<and>
         (if chars s \<noteq> [] \<and> accepts i part (hd (chars s))
          then \<exists>p' s'. r = Some (p', s') \<and> cstring p' \<and> cstring s' \<and> chars p' = rest \<and> chars s' = tl (chars s)
          else r = None))"
  using assms(2)
proof (cases s rule: read_cases)
  case (terminator s')
  then show ?thesis
    by (auto simp: match_set_def parse_set_def Let_def split: option.splits list.splits if_splits)
next
  case (character b y d s')
  obtain c1 p1 where p1: "sqlite3Utf8Read p = Some (c1, p1)" "chars p = from_char c1 p1" "c1 = 0 \<or> cstring p1"
    using chars_read [OF assms(1)] by blast
  from match_set_invert [OF p1(3)] obtain invert c2 p2 where p2:
    "(if c1 = 0x5e then do { (c2, p) \<leftarrow> sqlite3Utf8Read p1; Some (True, c2, p) } else Some (False, c1, p1)) = Some (invert, c2, p2)"
    "c2 = 0 \<or> cstring p2"
    "(case from_char c1 p1 of c # cs' \<Rightarrow> if c = 0x5e then (True, cs') else (False, from_char c1 p1) | [] \<Rightarrow> (False, from_char c1 p1)) =
      (invert, from_char c2 p2)"
    by blast
  from match_set_first [OF p2(2), of d] obtain seen first c3 p3 where p3:
    "(if c2 = 0x5d then do { (c3, p) \<leftarrow> sqlite3Utf8Read p2; Some (d = 0x5d, c3, p) } else Some (False, c2, p2)) = Some (seen, c3, p3)"
    "c3 = 0 \<or> cstring p3" "seen = in_ranges first d"
    "(case from_char c2 p2 of c # cs' \<Rightarrow> if c = 0x5d then ([(0x5d, 0x5d)], cs') else ([], from_char c2 p2)
      | [] \<Rightarrow> ([], from_char c2 p2)) = (first, from_char c3 p3)"
    by blast
  have run: "match_set p s = do {
      (seen, c2, p) \<leftarrow> set_loop d 0 seen c3 p3;
      if c2 = 0 \<or> seen = invert then Some None else Some (Some (p, s')) }"
    using character(3,4) p1(1) p2(1) p3(1) unfolding match_set_def by (simp split del: if_split)
  have parse: "parse_set (chars p) = map_option (\<lambda>(ranges, rest). (One_of invert (first @ ranges), rest)) (set_ranges 0 (from_char c3 p3))"
    using p2(3) p3(4) unfolding parse_set_def p1(2) by (simp split del: if_split)
  from set_loop_ranges [OF p3(2), where prior = 0 and c = d and seen = seen] show ?thesis
    using run parse character(5,6) p3(3) by (auto split: option.splits)
qed

section \<open>The matcher decides what the pattern describes\<close>

lemma decides_one:
  assumes "p \<noteq> Any_sequence" "accepts i p d" "decides i ps ds r"
  shows "decides i (p # ps) (d # ds) r"
proof -
  have "\<not> describes i (p # ps) (drop k (d # ds))" if "\<And>k. \<not> describes i ps (drop k ds)" for k
    using that [of k] by (simp add: describes_one [OF assms(1)] tl_drop del: describes.simps)
  then show ?thesis
    using assms by (auto simp: decides_def describes_one simp del: describes.simps)
qed

lemma decides_not: "\<not> describes i ps cs \<Longrightarrow> decides i ps cs (Some SQLITE_NOMATCH)"
  by (simp add: decides_def)

lemma search_found:
  assumes "cstring s" "\<And>s. cstring s \<Longrightarrow> decides (noCase info) ps (chars s) (f s)" "c \<noteq> 0" "c \<noteq> 0x80"
  shows "(if c \<le> 0x80 then search_stop (if noCase info then [ucast (sqlite3Toupper c), sqlite3Tolower c] else [ucast c]) f s
      else search_char c f s) = found (noCase info) (Exactly c # ps) (chars s)"
proof (cases "c < 0x80")
  case True
  let ?zs = "if noCase info then [ucast (sqlite3Toupper c), sqlite3Tolower c] else [ucast c]"
  have unat: "unat (ucast (sqlite3Toupper c) :: u8) < 128" "unat (sqlite3Tolower c) < 128" "unat (ucast c :: u8) < 128"
    using unat_ascii [OF True] by (auto simp: unat_toupper [OF True] unat_tolower small_code_def)
  then have "\<forall>b \<in> set ?zs. b < 0x80"
    by (simp add: word_less_nat_alt)
  moreover have "accepts (noCase info) (Exactly c) d \<longleftrightarrow> d < 0x80 \<and> ucast d \<in> set ?zs" for d
  proof (cases "d < 0x80")
    case d: True
    have "c = d \<longleftrightarrow> (ucast d :: u8) = ucast c"
      using unat_ascii [OF True] unat_ascii [OF d] by (auto simp: word_unat_eq_iff)
    then show ?thesis
      using d same_letter [OF True d] by simp
  next
    case False
    then show ?thesis
      using small_other [of d] small_other [of c] True by auto
  qed
  ultimately show ?thesis
    using search_stop_found [OF assms(1,2)] True by auto
next
  case False
  then have "small c = small d \<longleftrightarrow> d = c" for d
    using small_other [of d] small_other [of c] by (cases "d < 0x80") auto
  then have "accepts (noCase info) (Exactly c) d \<longleftrightarrow> d = c" for d
    by auto
  moreover have "\<not> c \<le> 0x80"
    using False assms(4) by auto
  ultimately show ?thesis
    using search_char_found [OF assms(1,2)] by simp
qed

text \<open>The search after wildcards, with the character of the pattern that stopped their skipping.\<close>

definition search_from :: "bytes \<Rightarrow> compareInfo \<Rightarrow> u32 \<Rightarrow> u32 \<Rightarrow> bytes \<Rightarrow> int option" where
  "search_from s pInfo matchOther c p =
     (if c = 0 then Some SQLITE_MATCH
      else if c = matchOther \<and> matchSet pInfo \<noteq> 0 then search_set (\<lambda>s. patternCompare (ucast c # p) s pInfo matchOther) s
      else do {
        (c, p) \<leftarrow> (if c = matchOther then sqlite3Utf8Read p else Some (c, p));
        if c = 0 then Some SQLITE_NOWILDCARDMATCH
        else if c \<le> 0x80 then
          search_stop (if noCase pInfo then [ucast (sqlite3Toupper c), sqlite3Tolower c] else [ucast c])
            (\<lambda>s. patternCompare p s pInfo matchOther) s
        else search_char c (\<lambda>s. patternCompare p s pInfo matchOther) s
      })"

lemma search_from_found:
  assumes info: "well_chosen info other" and strings: "cstring p" "cstring s"
    and c: "c \<noteq> 0" "c \<noteq> ucast (matchAll info)" "c \<noteq> ucast (matchOne info) \<or> matchOne info = 0" "0x80 \<notin> set (c # chars p)"
    and IH: "\<And>p' s. length p' \<le> Suc (length p) \<Longrightarrow> cstring p' \<Longrightarrow> cstring s \<Longrightarrow> 0x80 \<notin> set (chars p') \<Longrightarrow>
      decides (noCase info) (parse_pattern info other (chars p')) (chars s) (patternCompare p' s info other)"
  shows "search_from s info other c p = found (noCase info) (parse_pattern info other (c # chars p)) (chars s)"
proof -
  consider (set) "c = other" "matchSet info \<noteq> 0" | (escape) "c = other" "matchSet info = 0" | (plain) "c \<noteq> other"
    by blast
  then show ?thesis
  proof cases
    case set
    then have "c < 0x80"
      using info by (simp add: well_chosen_def)
    from chars_ascii [OF strings(1) c(1) this] have "chars (ucast c # p) = c # chars p" .
    then have f: "decides (noCase info) (parse_pattern info other (c # chars p)) (chars s) (patternCompare (ucast c # p) s info other)"
      if "cstring s" for s
      using IH [of "ucast c # p" s] strings(1) c(4) that by simp
    moreover obtain part ps where "parse_pattern info other (c # chars p) = part # ps" "part \<noteq> Any_sequence"
      using set c(2) parse_set_part [of "chars p"] by (cases "parse_set (chars p)") auto
    ultimately show ?thesis
      using search_set_found [OF strings(2), of "noCase info" part ps] set c(1) by (simp add: search_from_def)
  next
    case escape
    from strings(1) show ?thesis
    proof (cases p rule: read_cases)
      case (terminator p')
      then show ?thesis
        using escape c(1,2) by (simp add: search_from_def describes_star describes_one del: describes.simps)
    next
      case (character b y d p')
      have f: "decides (noCase info) (parse_pattern info other (chars p')) (chars s) (patternCompare p' s info other)" if "cstring s" for s
        using IH [of p' s] that read_shorter [OF character(3)] character(5,6) c(4) by simp
      have "d \<noteq> 0x80"
        using c(4) character(5) by auto
      from search_found [OF strings(2) f character(4) this] show ?thesis
        using escape c(1,2) character by (simp add: search_from_def)
    qed
  next
    case plain
    have f: "decides (noCase info) (parse_pattern info other (chars p)) (chars s) (patternCompare p s info other)" if "cstring s" for s
      using IH [of p s] that strings(1) c(4) by simp
    have "c \<noteq> 0x80"
      using c(4) by auto
    from search_found [OF strings(2) f c(1) this] show ?thesis
      using plain c(1-3) by (auto simp: search_from_def)
  qed
qed

lemma patternCompare_search:
  assumes "sqlite3Utf8Read zPattern = Some (ucast (matchAll pInfo), p)" "matchAll pInfo \<noteq> 0"
  shows "patternCompare zPattern zString pInfo matchOther = do {
    r \<leftarrow> skip_wildcards (ucast (matchAll pInfo)) (ucast (matchOne pInfo)) p zString;
    case r of Inl m \<Rightarrow> Some m | Inr (c, p, s) \<Rightarrow> search_from s pInfo matchOther c p }"
  using assms by (subst patternCompare.simps) (simp add: Utf8Read_eq search_from_def)

text \<open>The comparison of one character of the pattern, which may be escaped, with one of the string.\<close>

lemma patternCompare_char:
  assumes "sqlite3Utf8Read zPattern = Some (c, p)" "c \<noteq> 0" "c \<noteq> ucast (matchAll pInfo)" "c \<noteq> matchOther \<or> matchSet pInfo = 0"
  shows "patternCompare zPattern zString pInfo matchOther = do {
    (d, p) \<leftarrow> (if c = matchOther then sqlite3Utf8Read p else Some (c, p));
    if d = 0 then Some SQLITE_NOMATCH
    else do {
      (c2, s) \<leftarrow> sqlite3Utf8Read zString;
      if d = c2 \<or> (noCase pInfo \<and> sqlite3Tolower d = sqlite3Tolower c2 \<and> d < 0x80 \<and> c2 < 0x80)
          \<or> (d = ucast (matchOne pInfo) \<and> c \<noteq> matchOther \<and> c2 \<noteq> 0)
      then patternCompare p s pInfo matchOther
      else Some SQLITE_NOMATCH } }"
  using assms by (subst patternCompare.simps, unfold Utf8Read_eq) (auto simp: Let_def)

lemma same_char:
  assumes "d \<noteq> 0" "c2 \<noteq> 0"
  shows "d = c2 \<or> (i \<and> sqlite3Tolower d = sqlite3Tolower c2 \<and> d < 0x80 \<and> c2 < 0x80) \<longleftrightarrow> accepts i (Exactly d) c2"
proof -
  have "sqlite3Tolower d = sqlite3Tolower c2 \<longleftrightarrow> small d = small c2" if "d < 0x80" "c2 < 0x80"
    using unat_ascii [OF that(1)] unat_ascii [OF that(2)] by (simp add: word_unat_eq_iff unat_tolower unat_small)
  moreover have "small d \<noteq> small c2" if "d < 0x80" "\<not> c2 < 0x80"
    using that small_other(2) [of d] small_other [of c2] by auto
  moreover have "small d \<noteq> small c2 \<or> d = c2" if "\<not> d < 0x80"
    using that small_other(2) [of c2] small_other [of d] small_other(1) [of c2] by (cases "c2 < 0x80") auto
  ultimately show ?thesis
    by auto
qed

lemma no_letter_0: "d < 0x80 \<Longrightarrow> sqlite3Tolower d = sqlite3Tolower 0 \<Longrightarrow> d = 0"
  using unat_ascii [of d] by (simp add: word_unat_eq_iff unat_tolower small_code_def split: if_splits)

text \<open>One character of the string against one part of the pattern, and the rest.\<close>

lemma compare_char_decides:
  assumes "cstring s" "part \<noteq> Any_sequence" "\<And>d s'. cstring s' \<Longrightarrow> decides i ps (chars s') (f s')"
    and cond: "\<And>d. d \<noteq> 0 \<Longrightarrow> cond d \<longleftrightarrow> accepts i part d" "\<not> cond 0"
  shows "decides i (part # ps) (chars s)
    (do { (d, s) \<leftarrow> sqlite3Utf8Read s; if cond d then f s else Some SQLITE_NOMATCH })"
  using assms(1)
proof (cases s rule: read_cases)
  case (terminator s')
  then show ?thesis
    using cond(2) assms(2) by (simp add: decides_def describes_one del: describes.simps)
next
  case (character b y d s')
  then show ?thesis
    using cond(1) [OF character(4)] decides_one [OF assms(2) _ assms(3) [OF character(6)]]
      decides_not [of i "part # ps" "d # chars s'"] assms(2)
    by (auto simp: describes_one simp del: describes.simps)
qed

text \<open>
  The four kinds of iterations, each under the hypothesis that the recursive calls, which have a shorter pattern, are right: a
  sequence, a set, an escaped character and another part.
\<close>

definition decided :: "compareInfo \<Rightarrow> u32 \<Rightarrow> bytes \<Rightarrow> bytes \<Rightarrow> bool" where
  "decided info other p s \<longleftrightarrow>
     decides (noCase info) (parse_pattern info other (chars p)) (chars s) (patternCompare p s info other)"

definition shorter_decided :: "compareInfo \<Rightarrow> u32 \<Rightarrow> nat \<Rightarrow> bool" where
  "shorter_decided info other n \<longleftrightarrow>
     (\<forall>p s. length p < n \<longrightarrow> cstring p \<longrightarrow> cstring s \<longrightarrow> 0x80 \<notin> set (chars p) \<longrightarrow> decided info other p s)"

lemma shorter_decidedD:
  "shorter_decided info other n \<Longrightarrow> length p < n \<Longrightarrow> cstring p \<Longrightarrow> cstring s \<Longrightarrow> 0x80 \<notin> set (chars p) \<Longrightarrow> decided info other p s"
  by (simp add: shorter_decided_def)

lemma decided_sequence:
  assumes info: "well_chosen info other" "matchAll info \<noteq> 0"
    and p: "sqlite3Utf8Read p = Some (ucast (matchAll info), p1)" "chars p = ucast (matchAll info) # chars p1" "cstring p1"
    and s: "cstring s" "0x80 \<notin> set (chars p)" "shorter_decided info other (length p)"
  shows "decided info other p s"
proof -
  from skip_wildcards_skipped [OF info p(3) s(1)] obtain r where
    r: "skip_wildcards (ucast (matchAll info)) (ucast (matchOne info)) p1 s = Some r" "skipped (noCase info) info other p1 s r"
    by blast
  note run = patternCompare_search [OF p(1) info(2), of s other]
  have "patternCompare p s info other = found (noCase info) (parse_pattern info other (chars p1)) (chars s)"
  proof (cases r)
    case (Inl m)
    then show ?thesis
      using run r by (simp add: skipped_def Let_def del: describes.simps)
  next
    case (Inr t)
    obtain c p' s' where t: "t = (c, p', s')"
      by (cases t) auto
    note r' = r [unfolded Inr t]
    show ?thesis
    proof (cases "c = 0")
      case True
      then show ?thesis
        using run r' by (simp add: skipped_def search_from_def Let_def del: describes.simps)
    next
      case False
      have "search_from s' info other c p' = found (noCase info) (parse_pattern info other (c # chars p')) (chars s')"
        by (rule search_from_found [OF info(1)], unfold decided_def [symmetric], rule_tac [7] shorter_decidedD [OF s(3)])
          (use r'(2) False p(2) s(2) skip_wildcards_shorter [OF r'(1)] read_shorter [OF p(1)] in
            \<open>auto simp: skipped_def Let_def\<close>)
      then show ?thesis
        using run r' False by (simp add: skipped_def Let_def del: describes.simps parse_pattern.simps)
    qed
  qed
  then show ?thesis
    using decides_star p(2) by (simp add: decided_def)
qed

lemma decided_set:
  assumes c: "c \<noteq> 0" "c \<noteq> ucast (matchAll info)" "c = other" "matchSet info \<noteq> 0"
    and p: "sqlite3Utf8Read p = Some (c, p1)" "chars p = c # chars p1" "cstring p1"
    and s: "cstring s" "0x80 \<notin> set (chars p)" "shorter_decided info other (length p)"
  shows "decided info other p s"
proof -
  have parts: "parse_pattern info other (chars p) =
      (case parse_set (chars p1) of None \<Rightarrow> [Malformed] | Some (part, rest) \<Rightarrow> part # parse_pattern info other rest)"
    using c p(2) by simp
  from match_set_result [OF p(3) s(1), of "noCase info"] obtain r where r: "match_set p1 s = Some r"
    "case parse_set (chars p1) of None \<Rightarrow> r = None
     | Some (part, rest) \<Rightarrow> part \<noteq> Any_sequence \<and>
         (if chars s \<noteq> [] \<and> accepts (noCase info) part (hd (chars s))
          then \<exists>p' s'. r = Some (p', s') \<and> cstring p' \<and> cstring s' \<and> chars p' = rest \<and> chars s' = tl (chars s)
          else r = None)"
    by blast
  have run: "patternCompare p s info other =
      (case r of None \<Rightarrow> Some SQLITE_NOMATCH | Some (p, s) \<Rightarrow> patternCompare p s info other)"
    using c p(1) r(1) by (subst patternCompare.simps) (simp add: Utf8Read_eq split: option.split)
  show ?thesis
  proof (cases r)
    case None
    then show ?thesis
      using parts run r(2)
      by (auto simp: decided_def decides_def describes_one simp del: describes.simps split: if_splits option.splits)
  next
    case (Some y)
    then obtain part rest p' s' where y: "r = Some (p', s')" "cstring p'" "cstring s'" "chars p' = rest" "chars s' = tl (chars s)"
      "chars s \<noteq> []" "accepts (noCase info) part (hd (chars s))" "part \<noteq> Any_sequence" "parse_set (chars p1) = Some (part, rest)"
      using r(2) by (auto split: if_splits option.splits)
    have "decided info other p' s'"
      using match_set_shorter [OF r(1) [unfolded y(1)]] read_shorter [OF p(1)] y(2-4) parse_set_shorter [OF y(9)] s(2) p(2)
      by (intro shorter_decidedD [OF s(3)]) auto
    from decides_one [OF y(8,7) this [unfolded decided_def]] show ?thesis
      using parts run y by (simp add: decided_def)
  qed
qed

lemma decided_escaped:
  assumes c: "c \<noteq> 0" "c \<noteq> ucast (matchAll info)" "c = other" "matchSet info = 0"
    and p: "sqlite3Utf8Read p = Some (c, p1)" "chars p = c # chars p1" "cstring p1"
    and s: "cstring s" "0x80 \<notin> set (chars p)" "shorter_decided info other (length p)"
  shows "decided info other p s"
proof -
  note run = patternCompare_char [OF p(1) c(1,2) disjI2 [OF c(4)], of s]
  from p(3) show ?thesis
  proof (cases p1 rule: read_cases)
    case (terminator p')
    then show ?thesis
      using run c p(2) by (simp add: decided_def decides_def describes_one del: describes.simps)
  next
    case (character b y d p')
    have rest: "decided info other p' s'" if "cstring s'" for s'
      using that character(5,6) p(2) s(2) read_shorter [OF character(3)] read_shorter [OF p(1)]
      by (intro shorter_decidedD [OF s(3)]) auto
    let ?cond = "\<lambda>c2. d = c2 \<or> noCase info \<and> sqlite3Tolower d = sqlite3Tolower c2 \<and> d < 0x80 \<and> c2 < 0x80"
    have cond: "?cond c2 \<longleftrightarrow> accepts (noCase info) (Exactly d) c2" if "c2 \<noteq> 0" for c2
      using character(4) that by (rule same_char)
    have run': "patternCompare p s info other =
        do { (c2, s) \<leftarrow> sqlite3Utf8Read s; if ?cond c2 then patternCompare p' s info other else Some SQLITE_NOMATCH }"
      using c(3) run character(3,4) by (simp del: SQLITE_NOMATCH_def)
    have nul: "\<not> ?cond 0"
      using character(4) no_letter_0 [of d] by auto
    have parts: "parse_pattern info other (chars p) = Exactly d # parse_pattern info other (chars p')"
      using c p(2) character(5) by simp
    show ?thesis
      unfolding decided_def run' parts
      by (rule compare_char_decides [OF s(1) _ rest [unfolded decided_def] cond nul]) simp
  qed
qed

lemma decided_plain:
  assumes c: "c \<noteq> 0" "c \<noteq> ucast (matchAll info)" "c \<noteq> other"
    and p: "sqlite3Utf8Read p = Some (c, p1)" "chars p = c # chars p1" "cstring p1"
    and s: "cstring s" "0x80 \<notin> set (chars p)" "shorter_decided info other (length p)"
  shows "decided info other p s"
proof -
  note run = patternCompare_char [OF p(1) c(1,2) disjI1 [OF c(3)], of s]
  have rest: "decided info other p1 s'" if "cstring s'" for s'
    using that p(2,3) s(2) read_shorter [OF p(1)] by (intro shorter_decidedD [OF s(3)]) auto
  let ?part = "if c = ucast (matchOne info) then Any_character else Exactly c"
  let ?cond = "\<lambda>c2. c = c2 \<or> noCase info \<and> sqlite3Tolower c = sqlite3Tolower c2 \<and> c < 0x80 \<and> c2 < 0x80 \<or>
    c = ucast (matchOne info) \<and> c2 \<noteq> 0"
  have cond: "?cond c2 \<longleftrightarrow> accepts (noCase info) ?part c2" if "c2 \<noteq> 0" for c2
    using same_char [OF c(1) that, of "noCase info"] that by auto
  have run': "patternCompare p s info other =
      do { (c2, s) \<leftarrow> sqlite3Utf8Read s; if ?cond c2 then patternCompare p1 s info other else Some SQLITE_NOMATCH }"
    using c run by (simp del: SQLITE_NOMATCH_def)
  have nul: "\<not> ?cond 0"
    using c(1) no_letter_0 [of c] by auto
  have parts: "parse_pattern info other (chars p) = ?part # parse_pattern info other (chars p1)"
    using c p(2) by simp
  show ?thesis
    unfolding decided_def run' parts
    by (rule compare_char_decides [OF s(1) _ rest [unfolded decided_def] cond nul]) simp_all
qed

lemma patternCompare_decides:
  assumes info: "well_chosen info other" and strings: "cstring p" "cstring s" "0x80 \<notin> set (chars p)"
  shows "decided info other p s"
  using strings
proof (induction p arbitrary: s rule: measure_induct_rule [of length])
  case (less p)
  then have IH: "shorter_decided info other (length p)"
    by (simp add: shorter_decided_def)
  from less.prems(1) show ?case
  proof (cases p rule: read_cases)
    case (terminator p')
    from less.prems(2) show ?thesis
      by (cases s rule: read_cases)
        (use terminator in \<open>simp_all add: patternCompare.simps [of "0 # p'"] Utf8Read_eq decided_def decides_def\<close>)
  next
    case (character b y c p1)
    consider "c = ucast (matchAll info)" | "c \<noteq> ucast (matchAll info)" "c = other" "matchSet info \<noteq> 0"
      | "c \<noteq> ucast (matchAll info)" "c = other" "matchSet info = 0" | "c \<noteq> ucast (matchAll info)" "c \<noteq> other"
      by blast
    then show ?thesis
    proof cases
      case 1
      with character(4) have "matchAll info \<noteq> 0" by auto
      then show ?thesis
        by (rule decided_sequence [OF info _ character(3) [unfolded 1] character(5) [unfolded 1] character(6) less.prems(2,3) IH])
    next
      case 2
      then show ?thesis
        by (rule decided_set [OF character(4) _ _ _ character(3,5,6) less.prems(2,3) IH])
    next
      case 3
      then show ?thesis
        by (rule decided_escaped [OF character(4) _ _ _ character(3,5,6) less.prems(2,3) IH])
    next
      case 4
      then show ?thesis
        by (rule decided_plain [OF character(4) _ _ character(3,5,6) less.prems(2,3) IH])
    qed
  qed
qed

text \<open>
  C39: The pattern matcher of \<^verbatim>\<open>LIKE\<close> and \<^verbatim>\<open>GLOB\<close>, with its byte-wise searches and its early giving up, reads no byte past the
  terminators and reports a match if and only if the characters of the string have the form the pattern describes. The signs of
  the pattern have to be different, and the pattern must not contain the character U+0080.
\<close>

theorem patternCompare_matches:
  assumes "well_chosen pInfo matchOther" "0 \<in> set zPattern" "0 \<in> set zString" "0x80 \<notin> set (chars zPattern)"
  shows "\<exists>r. patternCompare zPattern zString pInfo matchOther = Some r \<and>
    (r = SQLITE_MATCH \<longleftrightarrow> describes (noCase pInfo) (parse_pattern pInfo matchOther (chars zPattern)) (chars zString))"
  using patternCompare_decides [OF assms] unfolding decided_def
  by (cases rule: decidesE) (simp_all del: describes.simps, metis drop_0)

text \<open>The pattern is \<^verbatim>\<open>%b_\<close>, the string \<^verbatim>\<open>aBbc\<close>, with \<^verbatim>\<open>LIKE\<close>.\<close>

theorem patternCompare_matches_witness:
  "patternCompare [0x25, 0x62, 0x5f, 0] [0x61, 0x42, 0x62, 0x63, 0] likeInfoNorm 0 = Some SQLITE_MATCH"
proof -
  have "well_chosen likeInfoNorm 0"
    by (simp add: well_chosen_def likeInfoNorm_def)
  moreover have "chars [0x25, 0x62, 0x5f, 0] = [0x25, 0x62, 0x5f]"
    by code_simp
  moreover have "describes (noCase likeInfoNorm) (parse_pattern likeInfoNorm 0 [0x25, 0x62, 0x5f]) (chars [0x61, 0x42, 0x62, 0x63, 0])"
    by code_simp
  ultimately show ?thesis
    using patternCompare_matches [of likeInfoNorm 0 "[0x25, 0x62, 0x5f, 0]" "[0x61, 0x42, 0x62, 0x63, 0]"]
    by (simp del: describes.simps parse_pattern.simps)
qed

text \<open>
  With U+0080 in the pattern the search for bytes does find other characters: the pattern is a \<^verbatim>\<open>%\<close> before it, the string is the letter
  U+00C0, whose last byte is \<open>0x80\<close>.
\<close>

lemma search_finds_continuation:
  "patternCompare [0x25, 0xc2, 0x80, 0] [0xc3, 0x80, 0] likeInfoNorm 0 = Some SQLITE_MATCH \<and>
    \<not> describes True (parse_pattern likeInfoNorm 0 (chars [0x25, 0xc2, 0x80, 0])) (chars [0xc3, 0x80, 0])"
proof
  have chars: "chars [0x25, 0xc2, 0x80, 0] = [0x25, 0x80]" "chars [0xc3, 0x80, 0] = [0xc0]"
    by code_simp+
  have read: "sqlite3Utf8Read [0x25, 0xc2, 0x80, 0] = Some (0x25, [0xc2, 0x80, 0])" "sqlite3Utf8Read [0xc2, 0x80, 0] = Some (0x80, [0])"
    "sqlite3Utf8Read [0] = Some (0, [])"
    by code_simp+
  have upper: "(ucast (sqlite3Toupper 0x80) :: u8) = 0x80"
    by code_simp
  show "\<not> describes True (parse_pattern likeInfoNorm 0 (chars [0x25, 0xc2, 0x80, 0])) (chars [0xc3, 0x80, 0])"
    by (simp add: chars likeInfoNorm_def small_def describes_star_Cons describes_star_Nil describes_one del: describes.simps)
  show "patternCompare [0x25, 0xc2, 0x80, 0] [0xc3, 0x80, 0] likeInfoNorm 0 = Some SQLITE_MATCH"
    by (simp add: patternCompare.simps [of "[0x25, 0xc2, 0x80, 0]"] patternCompare.simps [of "[0]"] search_stop_Cons
        skip_wildcards.simps [of _ _ "[0xc2, 0x80, 0]"] Utf8Read_eq read likeInfoNorm_def upper)
qed

text \<open>The SQL functions: the operators without and with an escape character, and the errors.\<close>

lemma well_chosen_escape:
  assumes "matchSet info = 0" "matchOne info \<noteq> matchAll info"
  shows "well_chosen (escape_info e info) e"
  using assms by (auto simp: well_chosen_def escape_info_def Let_def)

lemma likeFunc_compare:
  assumes "well_chosen info e" "cstring zB" "cstring zA" "0x80 \<notin> set (chars zB)"
  shows "do { m \<leftarrow> patternCompare zB zA info e; Some (Result_int (m = SQLITE_MATCH)) } =
    Some (Result_int (describes (noCase info) (parse_pattern info e (chars zB)) (chars zA)))"
proof -
  obtain r where "patternCompare zB zA info e = Some r"
    "r = SQLITE_MATCH \<longleftrightarrow> describes (noCase info) (parse_pattern info e (chars zB)) (chars zA)"
    using patternCompare_decides [OF assms, unfolded decided_def]
    by (cases rule: decidesE) (simp_all del: describes.simps, metis drop_0)
  then show ?thesis
    by (simp del: describes.simps)
qed

lemma likeFunc_matches:
  assumes "nPat \<le> limit" "well_chosen info (ucast (matchSet info))" "cstring zB" "cstring zA" "0x80 \<notin> set (chars zB)"
  shows "likeFunc limit info nPat (Some zB) (Some zA) None =
    Some (Result_int (describes (noCase info) (parse_pattern info (ucast (matchSet info)) (chars zB)) (chars zA)))"
  using likeFunc_compare [OF assms(2-5)] assms(1) by (simp add: likeFunc_def del: describes.simps)

text \<open>With an escape character, which may be one of the wildcards and then is no wildcard any more.\<close>

lemma likeFunc_escape:
  assumes "nPat \<le> limit" "matchSet info = 0" "matchOne info \<noteq> matchAll info"
    and "cstring zB" "cstring zA" "0x80 \<notin> set (chars zB)" "cstring zEsc"
  shows "likeFunc limit info nPat (Some zB) (Some zA) (Some (Some zEsc)) =
    Some (case chars zEsc of
        [e] \<Rightarrow> Result_int (describes (noCase info) (parse_pattern (escape_info e info) e (chars zB)) (chars zA))
      | _ \<Rightarrow> Not_a_single_character)"
  using assms(7)
proof (cases zEsc rule: read_cases)
  case (terminator z')
  then show ?thesis
    using assms(1,7) by (simp add: likeFunc_def sqlite3Utf8CharLen_chars)
next
  case (character b y e z')
  have "noCase (escape_info e info) = noCase info"
    by (simp add: escape_info_def Let_def)
  then show ?thesis
    using likeFunc_compare [OF well_chosen_escape [OF assms(2,3), of e] assms(4-6)] assms(1,7) character
    by (cases "chars z'") (simp_all add: likeFunc_def sqlite3Utf8CharLen_chars del: describes.simps)
qed

lemma likeFunc_too_complex: "limit < nPat \<Longrightarrow> likeFunc limit info nPat zB zA esc = Some Too_complex"
  by (simp add: likeFunc_def)

end
