(* ===== verification/Spec2Isabelle.thy ===== *)
theory Spec2Isabelle
  imports Registration Program LonePeer SqliteInteger SqliteRowSet SqliteBitvec SqliteLike
begin

text \<open>
  \<^bold>\<open>A verified model of a peer-to-peer blockchain with voting\<close>

  \<^bold>\<open>The program.\<close> A \<^emph>\<open>tracker\<close> (\<^verbatim>\<open>application/p2p/tracker.c\<close>) keeps a table of the peers that are online. Every \<^emph>\<open>peer\<close>
  (\<^verbatim>\<open>application/main.cc\<close>) reads a trace of transactions, asks the tracker for the other peers in periods of five seconds
  (\<^verbatim>\<open>application/p2p/peer.c\<close>), fetches the blocks it lacks from them, and proposes its own transactions block by block. A
  proposal carries a proof of work; every peer judges it and broadcasts a vote, every peer counts the votes, and of the
  accepted proposals the one with the least hash is appended (\<^verbatim>\<open>application/application.cc\<close>). All communication is by
  single datagrams with two checksums (\<^verbatim>\<open>application/p2p/common.c\<close>, \<^verbatim>\<open>application/p2p/crc.c\<close>).

  \<^bold>\<open>Theories, from the bottom up.\<close> Paths are relative to \<^verbatim>\<open>src/application\<close>; definitions keep the source's names.

  \<^item> \<open>Prelude\<close>: machine types, memory images as byte lists, little-endian encodings, list and word lemmas, and the two
    collections of simplification rules the components add to.
  \<^item> \<open>Refinement\<close>: the contracts \<open>step_invariant\<close>, \<open>data_refinement\<close> and \<open>guarded_system\<close>, and reachability.
  \<^item> \<open>Loops\<close>: computations that can stop, \<^verbatim>\<open>while\<close> loops with fuel, and the contracts \<open>loop_invariant\<close> and
    \<open>loop_variant\<close>.
  \<^item> \<open>Crc\<close> (\<^verbatim>\<open>p2p/crc.c\<close>): the division in place; it is the remainder of polynomial division, and what it detects and accepts
    follows from the algebra of a 16-bit register.
  \<^item> \<open>Common\<close> (\<^verbatim>\<open>p2p/common.c\<close>): addresses, headers, frames, datagram sockets with the injected bit flip, ports.
  \<^item> \<open>Queue\<close> (\<^verbatim>\<open>p2p/queue.c\<close>): the ring buffer, a refinement of the bounded first-in first-out list.
  \<^item> \<open>Db\<close> (\<^verbatim>\<open>p2p/db.c\<close>): the table of peers, a refinement of the finite map from addresses to heartbeats.
  \<^item> \<open>Tracker\<close> (\<^verbatim>\<open>p2p/tracker.c\<close>): mailbox thread, request loop and request threads as a step function on the state they
    share; what holds of it in every environment and what needs whole datagrams, who gets registered, and what a thread run alone
    makes of the map of peers.
  \<^item> \<open>Peer\<close> (\<^verbatim>\<open>p2p/peer.c\<close>): broadcast, receive, respond, the conversation with the tracker, start and end.
  \<^item> \<open>Registration\<close>: a peer and the tracker together, one period of the protocol.
  \<^item> \<open>Sha256\<close> (\<^verbatim>\<open>sha256/sha256.cc\<close>), \<open>HashCash\<close> (\<^verbatim>\<open>pow/hashcash.cc\<close>), \<open>Blockchain\<close> (\<^verbatim>\<open>blockchain/block.h\<close>,
    \<^verbatim>\<open>blockchain/blockchain.h\<close>), \<open>Logger\<close> (\<^verbatim>\<open>logger.cc\<close>): the hash function and its reference, the search for a proof of
    work and its end, chains as linked stacks of data from which the genesis block can be popped too, the lines of the experiment log.
  \<^item> \<open>Wire\<close> (\<^verbatim>\<open>application.h\<close>, \<^verbatim>\<open>transaction.h\<close> and the serialisation in \<^verbatim>\<open>application.cc\<close>): the messages of the application.
  \<^item> \<open>AppState\<close> (\<^verbatim>\<open>application.h\<close>, \<^verbatim>\<open>lock_vector.h\<close>): the state of \<^verbatim>\<open>class Application\<close>, its environment, the locked mailbox and
    the thread that fills it.
  \<^item> \<open>ChainSync\<close> (\<^verbatim>\<open>SendBlockchain\<close>, \<^verbatim>\<open>checkMajority\<close>, \<^verbatim>\<open>RequestBlockchainBlock\<close>, \<^verbatim>\<open>RequestBlockchain\<close>): answering and asking for
    blocks, the majority among the answers, and that every block appended is one of the answers.
  \<^item> \<open>CatchUp\<close>: what requesting the chain achieves when all peers answer at once.
  \<^item> \<open>Voting\<close> (\<^verbatim>\<open>HandleBlockAdditionRequest\<close>, \<^verbatim>\<open>CheckVotesForBlock\<close>, \<^verbatim>\<open>AddBlockToBlockchain\<close>,
    \<^verbatim>\<open>HandleAllBlockAdditionRequests\<close>): proposing, judging, counting and choosing.
  \<^item> \<open>Consensus\<close>: two countings of votes, by the same or by different peers, and what majorities have in common;
    then a whole round on a quiet network, which ends with the proposed block on the chains of the proposer and the receivers.
  \<^item> \<open>LonePeer\<close>: iterations of the main loop of a peer that knows of no others; each puts one transaction on its chain.
  \<^item> \<open>Application\<close> (constructor, destructor, \<^verbatim>\<open>initialize\<close>, \<^verbatim>\<open>Run\<close>): the main loop; what a run commits.
  \<^item> \<open>TransactionReader\<close> (\<^verbatim>\<open>transaction_reader.h\<close>): the formatted input it uses and what it makes of a trace.
  \<^item> \<open>Program\<close> (\<^verbatim>\<open>main.cc\<close>): the command line and the composition of all parts of a peer.
  \<^item> \<open>SqliteInteger\<close> (\<^verbatim>\<open>sqlite3/sqlite3.c\<close>): the integer routines of the shipped library.
  \<^item> \<open>SqliteRowSet\<close> (\<^verbatim>\<open>sqlite3/sqlite3.c\<close>, part \<^verbatim>\<open>rowset.c\<close>): sorting with buckets, balanced search trees and the sets of row numbers made of them.
  \<^item> \<open>SqliteBitvec\<close> (\<^verbatim>\<open>sqlite3/sqlite3.c\<close>, part \<^verbatim>\<open>bitvec.c\<close>): bitmaps, hash tables and arrays of parts, a refinement of sets of numbers.
  \<^item> \<open>SqliteHash\<close> (\<^verbatim>\<open>sqlite3/sqlite3.c\<close>, part \<^verbatim>\<open>hash.c\<close>): the hash tables of names, with the pointers of their linked list in an
    explicit memory, a refinement of maps.
  \<^item> \<open>SqliteUtf8\<close> (\<^verbatim>\<open>sqlite3/sqlite3.c\<close>, part \<^verbatim>\<open>utf.c\<close>): reading and writing characters, a round trip.
  \<^item> \<open>SqliteLike\<close> (\<^verbatim>\<open>sqlite3/sqlite3.c\<close>, part \<^verbatim>\<open>func.c\<close>): the matcher of \<^verbatim>\<open>LIKE\<close> and \<^verbatim>\<open>GLOB\<close>, equal to a reference on characters.

  \<^bold>\<open>How state and effects are represented.\<close> A struct or class is a record, an enumeration a datatype with a function to its
  code. Integers have their width as words; \<^verbatim>\<open>size_t\<close> values that only count elements of a container in memory are natural
  numbers, with the wrap-around written out where the code can reach it (\<open>size_minus\<close>). Memory that is sent, received or
  hashed is the list of its bytes on x86-64, little endian, with the padding the compiler inserts. A memory access or a
  library precondition that fails is \<open>None\<close> or \<open>Undefined\<close>; \<^verbatim>\<open>exit\<close> and failed assertions are \<open>Exits\<close> (in the tracker \<open>ProcessExit\<close>).
  What the system decides is an argument: return codes of system calls, contents of fresh memory, the clock, random numbers.
  The tracker's threads are steps on a shared state, one per critical section or SQL statement. In the application only the
  mailbox thread and the tracker thread of the peer run beside the main thread. What they change is given per interaction by the
  \<open>world\<close>: at each access of the main thread to the mailbox or to the list of peers, the messages that have arrived and the new
  state of the peer. Theorems quantify over the world, so over every interleaving.

  \<^bold>\<open>Fuel.\<close> \<open>repeat_body\<close> gives a loop a number of iterations. The iterations of the search for a proof of work are
  bounded by the keys. Setting a bit of a bit vector recurses at most ten deep, since a 62nd of a 62nd of a 62nd of a 62nd of a 32-bit size fits a
  bitmap. For counting votes and for requesting a block the fuel that is enough is the number of messages that can
  still arrive plus ten tries per peer and one more round (\<open>CheckVotesForBlock_ends\<close>, \<open>RequestBlockchainBlock_ends\<close>); with
  it the results never depend on the fuel (\<open>repeat_body_mono\<close>). Catching up with peers that never answer and reading a trace that
  cannot be opened do not end, whatever the fuel (\<open>RequestBlockchain_silent\<close>, \<open>ReadFile_missing_file_hangs\<close>). The main loop of a
  peer runs for as many iterations as its list of environments has, and the theorems hold for every number of them.

  \<^bold>\<open>What the groups of lemmas show.\<close> For the network: frames are accepted exactly as stated, single bit faults are detected
  in headers and in payloads of any length, the queue and the table implement their specifications, the tracker's reachable states are well formed, only acknowledgements
  register, and two periods bring a peer online. For the chain: it stays valid from the command line on through every
  iteration in every environment, catching up appends only blocks that have arrived from peers and that fit, what leaves the list of transactions is on the
  chain in order, and chains with the same top are equal or show a collision of the hash. For the votes: acceptance needs a majority
  of distinct supporters, two accepted blocks have a common voter, the count is exact when all vote, the judgement of a proposal is exactly its validity, the least
  hash is chosen, and counting ends. For the whole: a round on a quiet network ends in agreement, one or two other peers that answer
  at once bring a peer up to date while an odd number from three on does not, and a peer without others commits all its
  transactions. For the shipped library: its containers are refinements of sets and maps, its numbers and characters survive
  writing and reading, and its matcher of patterns agrees with a reference. Several theorems record defects; these are listed with the sources in the manifest of the
  development.

  \<^bold>\<open>Not modelled.\<close> Output to the terminal (\<^verbatim>\<open>printf\<close>, \<^verbatim>\<open>std::cout\<close>, \<^verbatim>\<open>print_bits\<close>, \<^verbatim>\<open>print_bytes\<close>) and freeing memory
  have no effect on the state the model has; destructors are modelled where they do more. \<^verbatim>\<open>get_time\<close> is a formatted clock, so an
  argument. The code behind the tracker's endless loop is unreachable. Code inside comments (the example programs of \<^verbatim>\<open>db.c\<close>,
  \<^verbatim>\<open>peer.c\<close>, \<^verbatim>\<open>crc.c\<close>, \<^verbatim>\<open>transaction_reader.cc\<close>) is not part of the program. Of SQLite (\<^verbatim>\<open>sqlite3/\<close>), a vendored library, only
  the routines of \<open>SqliteInteger\<close>, \<open>SqliteRowSet\<close>, \<open>SqliteBitvec\<close>, \<open>SqliteHash\<close>, \<open>SqliteUtf8\<close> and \<open>SqliteLike\<close> are
  translated; the adapter over it is modelled by the meaning of its statements, and the command-line shell next to it is never called. The trace generator, build files, cluster scripts and the analysis of
  measurements are outside the program.
\<close>

end
